(* ===== verification/Prelude.thy ===== *)
theory Prelude
  imports Main "HOL-Library.Word"
begin

text \<open>
  Shared vocabulary of the development: the names of Rust's integer and byte types, its
  \<open>Result\<close> combinators, checked and saturating arithmetic, little-endian byte strings and
  the generic lemmas about them.  Every component theory imports this one.
\<close>

unbundle bit_operations_syntax

section \<open>Fact collections\<close>

named_theorems result_simps \<open>unfolding of the Result combinators\<close>
named_theorems le_simps \<open>little-endian encodings and their values\<close>
named_theorems wire_roundtrip \<open>a reader applied to what the writer produced\<close>

section \<open>Types\<close>

type_synonym u8 = "8 word"
type_synonym u16 = "16 word"
type_synonym u32 = "32 word"
type_synonym u64 = "64 word"
type_synonym i32 = "32 word" \<comment> \<open>two's complement, read with \<open>sint\<close>\<close>
type_synonym i64 = "64 word"
type_synonym bytes = "u8 list"
type_synonym hash32 = bytes  \<comment> \<open>a \<open>[u8; 32]\<close>; the length is part of the invariants\<close>

datatype ordering = Less | Equal | Greater

section \<open>Results\<close>

text \<open>\<open>Result<T, E>\<close> is \<open>E + T\<close>: \<open>Inl\<close> is \<open>Err\<close>, \<open>Inr\<close> is \<open>Ok\<close>.\<close>

definition and_then :: "'e + 'a \<Rightarrow> ('a \<Rightarrow> 'e + 'b) \<Rightarrow> 'e + 'b" where
  "and_then r f = (case r of Inl e \<Rightarrow> Inl e | Inr x \<Rightarrow> f x)"

definition map_err :: "('e \<Rightarrow> 'f) \<Rightarrow> 'e + 'a \<Rightarrow> 'f + 'a" where
  "map_err f r = (case r of Inl e \<Rightarrow> Inl (f e) | Inr x \<Rightarrow> Inr x)"

definition ok_or :: "'e \<Rightarrow> 'a option \<Rightarrow> 'e + 'a" where
  "ok_or e r = (case r of None \<Rightarrow> Inl e | Some x \<Rightarrow> Inr x)"

definition is_ok :: "'e + 'a \<Rightarrow> bool" where
  "is_ok r = (case r of Inl _ \<Rightarrow> False | Inr _ \<Rightarrow> True)"

lemma and_then_simps [simp]:
  "and_then (Inl e) f = Inl e"
  "and_then (Inr x) f = f x"
  by (simp_all add: and_then_def)

lemma and_then_Inr_iff: "and_then r f = Inr y \<longleftrightarrow> (\<exists>x. r = Inr x \<and> f x = Inr y)"
  by (cases r) auto

lemma and_then_Inl_iff:
  "and_then r f = Inl e \<longleftrightarrow> r = Inl e \<or> (\<exists>x. r = Inr x \<and> f x = Inl e)"
  by (cases r) auto

lemma map_err_simps [simp]:
  "map_err f (Inl e) = Inl (f e)"
  "map_err f (Inr x) = Inr x"
  by (simp_all add: map_err_def)

lemma map_err_Inr_iff [simp]: "map_err f r = Inr x \<longleftrightarrow> r = Inr x"
  by (cases r) auto

lemma map_err_id [simp]: "map_err id r = r"
  by (cases r) auto

lemma ok_or_simps [simp]:
  "ok_or e None = Inl e"
  "ok_or e (Some x) = Inr x"
  by (simp_all add: ok_or_def)

lemma ok_or_Inr_iff [simp]: "ok_or e r = Inr x \<longleftrightarrow> r = Some x"
  by (cases r) auto

lemma is_ok_simps [simp]:
  "\<not> is_ok (Inl e)"
  "is_ok (Inr x)"
  by (simp_all add: is_ok_def)

lemma is_ok_iff: "is_ok r \<longleftrightarrow> (\<exists>x. r = Inr x)"
  by (cases r) auto

lemmas result_iffs = and_then_Inr_iff and_then_Inl_iff

section \<open>Conversions between widths\<close>

lemma unat_ucast_mod: "unat (ucast w :: 'b::len word) = unat w mod 2 ^ LENGTH('b)"
  for w :: "'a::len word"
  by (simp add: unsigned_ucast_eq take_bit_eq_mod)

lemma unat_ucast_up:
  "LENGTH('a) \<le> LENGTH('b) \<Longrightarrow> unat (ucast w :: 'b::len word) = unat w"
  for w :: "'a::len word"
  by (metis mod_less order_less_le_trans power_increasing one_le_numeral unat_ucast_mod unsigned_less)

lemma unat_ucast_widen [simp]:
  "unat (ucast (b :: u8) :: u64) = unat b"
  "unat (ucast (b :: u8) :: u32) = unat b"
  "unat (ucast (c :: u16) :: u64) = unat c"
  "unat (ucast (d :: u32) :: u64) = unat d"
  by (simp_all add: unat_ucast_up)

lemma and_mask_unat:
  fixes w :: "'a::len word"
  shows "unat (w AND mask n) = unat w mod 2 ^ n"
  unfolding take_bit_eq_mask [symmetric] unsigned_take_bit_eq by (simp add: take_bit_eq_mod)

lemma unat_push_or:
  fixes a b :: "'a::len word"
  assumes "unat b < 2 ^ n" and "unat a * 2 ^ n < 2 ^ LENGTH('a)"
  shows "unat (push_bit n a OR b) = unat a * 2 ^ n + unat b" "unat (b OR push_bit n a) = unat a * 2 ^ n + unat b"
proof -
  have "push_bit n (unat a) AND unat b = 0"
  proof (rule bit_eqI)
    fix m
    have "\<not> bit (unat b) m" if "n \<le> m"
    proof -
      have "unat b < 2 ^ m" using assms(1) that by (meson less_le_trans one_le_numeral power_increasing)
      then show ?thesis by (simp add: bit_iff_odd)
    qed
    then show "bit (push_bit n (unat a) AND unat b) m \<longleftrightarrow> bit (0 :: nat) m"
      by (auto simp: bit_simps)
  qed
  then have "push_bit n (unat a) + unat b = push_bit n (unat a) OR unat b"
    by (rule disjunctive_add_eq_or)
  moreover have "unat (push_bit n a) = push_bit n (unat a)"
    using assms(2) unfolding unsigned_push_bit_eq by (simp add: take_bit_nat_eq_self_iff push_bit_eq_mult)
  ultimately show "unat (push_bit n a OR b) = unat a * 2 ^ n + unat b"
    "unat (b OR push_bit n a) = unat a * 2 ^ n + unat b"
    by (simp_all add: unsigned_or_eq push_bit_eq_mult or.commute)
qed

lemma unat_drop_bit_div:
  fixes w :: "'a::len word"
  shows "unat (drop_bit n w) = unat w div 2 ^ n"
  unfolding unat_drop_bit_eq by (simp add: drop_bit_eq_div)

section \<open>Checked and saturating arithmetic\<close>

lemma unat_lt: "unat (w :: 'a::len word) < 2 ^ LENGTH('a)"
  by (rule unsigned_less)

lemma unat_minus_1: "unat (- 1 :: 'a::len word) = 2 ^ LENGTH('a) - 1"
  by (simp add: unsigned_minus_1_eq_mask mask_eq_exp_minus_1)

definition checked_add :: "'a::len word \<Rightarrow> 'a word \<Rightarrow> 'a word option" where
  "checked_add a b = (if unat a + unat b < 2 ^ LENGTH('a) then Some (a + b) else None)"

definition checked_mul :: "'a::len word \<Rightarrow> 'a word \<Rightarrow> 'a word option" where
  "checked_mul a b = (if unat a * unat b < 2 ^ LENGTH('a) then Some (a * b) else None)"

definition saturating_add :: "'a::len word \<Rightarrow> 'a word \<Rightarrow> 'a word" where
  "saturating_add a b = (if unat a + unat b < 2 ^ LENGTH('a) then a + b else - 1)"

definition saturating_sub :: "'a::len word \<Rightarrow> 'a word \<Rightarrow> 'a word" where
  "saturating_sub a b = (if a < b then 0 else a - b)"

definition saturating_mul :: "'a::len word \<Rightarrow> 'a word \<Rightarrow> 'a word" where
  "saturating_mul a b = (if unat a * unat b < 2 ^ LENGTH('a) then a * b else - 1)"

lemma checked_add_Some_iff:
  "checked_add a b = Some c \<longleftrightarrow>
     unat a + unat b < 2 ^ LENGTH('a) \<and> unat c = unat a + unat b"
  for a b c :: "'a::len word"
  by (auto simp: checked_add_def unat_word_ariths word_unat_eq_iff)

lemma checked_add_None_iff:
  "checked_add a b = None \<longleftrightarrow> 2 ^ LENGTH('a) \<le> unat a + unat b"
  for a b :: "'a::len word"
  by (auto simp: checked_add_def)

lemma checked_mul_Some_iff:
  "checked_mul a b = Some c \<longleftrightarrow>
     unat a * unat b < 2 ^ LENGTH('a) \<and> unat c = unat a * unat b"
  for a b c :: "'a::len word"
  by (auto simp: checked_mul_def unat_word_ariths word_unat_eq_iff)

lemma unat_saturating_add:
  "unat (saturating_add a b) = min (unat a + unat b) (2 ^ LENGTH('a) - 1)"
  for a b :: "'a::len word"
proof (cases "unat a + unat b < 2 ^ LENGTH('a)")
  case True
  then show ?thesis
    by (auto simp: saturating_add_def unat_word_ariths)
next
  case False
  then show ?thesis
    by (simp add: saturating_add_def unat_minus_1)
qed

lemma unat_saturating_sub: "unat (saturating_sub a b) = unat a - unat b"
  by (auto simp: saturating_sub_def word_less_nat_alt not_less unat_sub_if')

lemma unat_saturating_mul:
  "unat (saturating_mul a b) = min (unat a * unat b) (2 ^ LENGTH('a) - 1)"
  for a b :: "'a::len word"
proof (cases "unat a * unat b < 2 ^ LENGTH('a)")
  case True
  then show ?thesis
    by (auto simp: saturating_mul_def unat_word_ariths)
next
  case False
  then show ?thesis
    by (simp add: saturating_mul_def unat_minus_1)
qed

section \<open>Little-endian byte strings\<close>

primrec nat_to_le :: "nat \<Rightarrow> nat \<Rightarrow> bytes" where
  "nat_to_le 0 v = []"
| "nat_to_le (Suc n) v = word_of_nat v # nat_to_le n (v div 256)"

primrec le_val :: "bytes \<Rightarrow> nat" where
  "le_val [] = 0"
| "le_val (b # bs) = unat b + 256 * le_val bs"

lemma unat_u8_lt: "unat (b :: u8) < 256"
  using unat_lt [of b] by simp

lemma unat_word_of_nat_u8 [simp]: "unat (word_of_nat n :: u8) = n mod 256"
  by (simp add: unat_of_nat)

lemma length_nat_to_le [simp, le_simps]: "length (nat_to_le n v) = n"
  by (induction n arbitrary: v) auto

lemma le_val_bound: "le_val bs < 256 ^ length bs"
proof (induction bs)
  case Nil
  then show ?case by simp
next
  case (Cons b bs)
  then show ?case using unat_u8_lt [of b] by (simp add: algebra_simps)
qed

lemma le_val_nat_to_le [le_simps]: "le_val (nat_to_le n v) = v mod 256 ^ n"
proof (induction n arbitrary: v)
  case 0
  then show ?case by simp
next
  case (Suc n)
  then show ?case by (simp add: mod_mult2_eq)
qed

lemma nat_to_le_le_val [le_simps]: "nat_to_le (length bs) (le_val bs) = bs"
proof (induction bs)
  case Nil
  then show ?case by simp
next
  case (Cons b bs)
  have "(unat b + 256 * le_val bs) div 256 = le_val bs"
    using unat_u8_lt [of b] by simp
  moreover have "(word_of_nat (unat b + 256 * le_val bs) :: u8) = b"
    using unat_u8_lt [of b] by (simp add: word_unat_eq_iff del: of_nat_add)
  ultimately show ?case using Cons by simp
qed

lemma nat_to_le_le_val_eq: "length bs = n \<Longrightarrow> nat_to_le n (le_val bs) = bs"
  using nat_to_le_le_val [of bs] by simp

lemma le_val_inj: "length a = length b \<Longrightarrow> le_val a = le_val b \<longleftrightarrow> a = b"
  by (metis nat_to_le_le_val)

lemma le_val_append: "le_val (xs @ ys) = le_val xs + 256 ^ length xs * le_val ys"
  by (induction xs) (auto simp: algebra_simps)

lemma le_val_replicate_0 [simp]: "le_val (replicate n 0) = 0"
  by (induction n) auto

lemma le_val_eq_0_iff: "le_val bs = 0 \<longleftrightarrow> bs = replicate (length bs) 0"
  by (induction bs) (auto simp: unat_eq_0)

lemma le_val_take_drop:
  "le_val (take k bs) = le_val bs mod 256 ^ k"
  "le_val (drop k bs) = le_val bs div 256 ^ k"
proof -
  have "k \<le> length bs \<Longrightarrow> le_val (take k bs) = le_val bs mod 256 ^ k \<and> le_val (drop k bs) = le_val bs div 256 ^ k"
  proof -
    assume "k \<le> length bs"
    then have len: "length (take k bs) = k" by simp
    have "le_val bs = le_val (take k bs) + 256 ^ k * le_val (drop k bs)"
      using le_val_append [of "take k bs" "drop k bs"] len by simp
    moreover have "le_val (take k bs) < 256 ^ k"
      using le_val_bound [of "take k bs"] len by simp
    ultimately show ?thesis by simp
  qed
  moreover have "le_val bs < 256 ^ k" if "length bs < k"
    using le_val_bound [of bs] that by (meson less_le_trans less_imp_le one_le_numeral power_increasing)
  ultimately show "le_val (take k bs) = le_val bs mod 256 ^ k" "le_val (drop k bs) = le_val bs div 256 ^ k"
    by (cases "k \<le> length bs"; simp)+
qed

section \<open>Copying into a buffer\<close>

text \<open>\<open>buf[off..off + src.len()].copy_from_slice(src)\<close>, for an in-range slice.\<close>

definition copy_at :: "nat \<Rightarrow> bytes \<Rightarrow> bytes \<Rightarrow> bytes" where
  "copy_at off src buf = take off buf @ src @ drop (off + length src) buf"

lemma length_copy_at [simp]: "off + length src \<le> length buf \<Longrightarrow> length (copy_at off src buf) = length buf"
  by (simp add: copy_at_def)

section \<open>Integers as little-endian bytes\<close>

definition u16_to_le_bytes :: "u16 \<Rightarrow> bytes" where
  "u16_to_le_bytes w = nat_to_le 2 (unat w)"

definition u32_to_le_bytes :: "u32 \<Rightarrow> bytes" where
  "u32_to_le_bytes w = nat_to_le 4 (unat w)"

definition u64_to_le_bytes :: "u64 \<Rightarrow> bytes" where
  "u64_to_le_bytes w = nat_to_le 8 (unat w)"

definition u16_from_le_bytes :: "bytes \<Rightarrow> u16" where
  "u16_from_le_bytes bs = word_of_nat (le_val bs)"

definition u32_from_le_bytes :: "bytes \<Rightarrow> u32" where
  "u32_from_le_bytes bs = word_of_nat (le_val bs)"

definition u64_from_le_bytes :: "bytes \<Rightarrow> u64" where
  "u64_from_le_bytes bs = word_of_nat (le_val bs)"

lemma length_to_le_bytes [simp, le_simps]:
  "length (u16_to_le_bytes a) = 2"
  "length (u32_to_le_bytes b) = 4"
  "length (u64_to_le_bytes c) = 8"
  by (simp_all add: u16_to_le_bytes_def u32_to_le_bytes_def u64_to_le_bytes_def)

lemma from_le_to_le [simp, le_simps]:
  "u16_from_le_bytes (u16_to_le_bytes a) = a"
  "u32_from_le_bytes (u32_to_le_bytes b) = b"
  "u64_from_le_bytes (u64_to_le_bytes c) = c"
  using unat_lt [of a] unat_lt [of b] unat_lt [of c]
  by (simp_all add: u16_from_le_bytes_def u16_to_le_bytes_def u32_from_le_bytes_def
      u32_to_le_bytes_def u64_from_le_bytes_def u64_to_le_bytes_def le_val_nat_to_le)

lemma to_le_from_le [le_simps]:
  "length bs = 2 \<Longrightarrow> u16_to_le_bytes (u16_from_le_bytes bs) = bs"
  "length bs = 4 \<Longrightarrow> u32_to_le_bytes (u32_from_le_bytes bs) = bs"
  "length bs = 8 \<Longrightarrow> u64_to_le_bytes (u64_from_le_bytes bs) = bs"
  using le_val_bound [of bs]
  by (simp_all add: u16_from_le_bytes_def u16_to_le_bytes_def u32_from_le_bytes_def
      u32_to_le_bytes_def u64_from_le_bytes_def u64_to_le_bytes_def unat_of_nat nat_to_le_le_val_eq)

lemma unat_from_le:
  "length bs = 2 \<Longrightarrow> unat (u16_from_le_bytes bs) = le_val bs"
  "length bs = 4 \<Longrightarrow> unat (u32_from_le_bytes bs) = le_val bs"
  "length bs = 8 \<Longrightarrow> unat (u64_from_le_bytes bs) = le_val bs"
  using le_val_bound [of bs]
  by (simp_all add: u16_from_le_bytes_def u32_from_le_bytes_def u64_from_le_bytes_def unat_of_nat)

lemma le_val_to_le:
  "le_val (u16_to_le_bytes a) = unat a"
  "le_val (u32_to_le_bytes b) = unat b"
  "le_val (u64_to_le_bytes c) = unat c"
  using unat_lt [of a] unat_lt [of b] unat_lt [of c]
  by (simp_all add: u16_to_le_bytes_def u32_to_le_bytes_def u64_to_le_bytes_def le_val_nat_to_le)

section \<open>Lists\<close>

text \<open>Evaluation of list functions at numerals, for concrete inputs.\<close>

lemma replicate_numeral: "replicate (numeral k) x = x # replicate (pred_numeral k) x"
  by (simp only: numeral_eq_Suc [of k] replicate.simps)

lemma nat_to_le_numeral:
  "nat_to_le (numeral k) v = word_of_nat v # nat_to_le (pred_numeral k) (v div 256)"
  by (simp only: numeral_eq_Suc [of k] nat_to_le.simps)

lemmas eval_simps = replicate_numeral nat_to_le_numeral


lemma drop_append_length [simp]: "n = length xs \<Longrightarrow> drop n (xs @ ys) = ys"
  by simp

lemma take_append_length [simp]: "n = length xs \<Longrightarrow> take n (xs @ ys) = xs"
  by simp

lemma sum_list_concat_map_length:
  "length (concat (map f xs)) = sum_list (map (\<lambda>x. length (f x)) xs)"
  by (induction xs) auto

end
