(* ===== verification/Crypto.thy ===== *)
theory Crypto
  imports Prelude
begin

text \<open>
  The crate \<open>bitrst-crypto\<close> (\<open>sha256d.rs\<close>, \<open>hash160.rs\<close>, \<open>base58.rs\<close>, \<open>ecdsa.rs\<close>) over the
  third-party primitives it calls.  Those primitives (\<open>sha2\<close>, \<open>ripemd\<close>, \<open>secp256k1\<close>, \<open>bs58\<close>, \<open>hex\<close>) are
  not part of the repository: they are the fields of the record \<open>env\<close>, which every definition that
  hashes, verifies or signs takes as an argument.  What the code relies on about them is stated by
  the predicates \<open>hash_ok\<close>, \<open>base58_ok\<close> and \<open>ecdsa_ok\<close>.
\<close>

section \<open>The environment\<close>

text \<open>
  Parsed signatures, public keys and secret keys are opaque values of the library; they are
  represented by byte strings.  \<open>short_period\<close> is the cargo feature \<open>test-short-period\<close>.
\<close>

record env =
  sha256_digest :: "bytes \<Rightarrow> bytes"
  ripemd160_digest :: "bytes \<Rightarrow> bytes"
  signature_from_der :: "bytes \<Rightarrow> bytes option"
  signature_serialize_der :: "bytes \<Rightarrow> bytes"
  public_key_from_slice :: "bytes \<Rightarrow> bytes option"
  public_key_serialize :: "bytes \<Rightarrow> bytes"
  public_key_from_secret :: "bytes \<Rightarrow> bytes"
  secret_key_from_slice :: "bytes \<Rightarrow> bytes option"
  verify_ecdsa :: "bytes \<Rightarrow> bytes \<Rightarrow> bytes \<Rightarrow> bool"
  sign_ecdsa :: "bytes \<Rightarrow> bytes \<Rightarrow> bytes"
  bs58_encode :: "bytes \<Rightarrow> string"
  bs58_decode :: "string \<Rightarrow> bytes option"
  hex_encode :: "bytes \<Rightarrow> string"
  short_period :: bool

definition hash_ok :: "env \<Rightarrow> bool" where
  "hash_ok E \<longleftrightarrow> (\<forall>x. length (sha256_digest E x) = 32) \<and> (\<forall>x. length (ripemd160_digest E x) = 20)"

definition base58_ok :: "env \<Rightarrow> bool" where
  "base58_ok E \<longleftrightarrow> (\<forall>x. bs58_decode E (bs58_encode E x) = Some x)"

text \<open>\<open>hex::encode\<close> writes two lower-case hexadecimal digits per byte and loses nothing.\<close>

definition hex_digits :: string where
  "hex_digits = ''0123456789abcdef''"

definition hex_ok :: "env \<Rightarrow> bool" where
  "hex_ok E \<longleftrightarrow>
     (\<forall>x. length (hex_encode E x) = 2 * length x \<and> set (hex_encode E x) \<subseteq> set hex_digits) \<and>
     (\<forall>x y. hex_encode E x = hex_encode E y \<longrightarrow> x = y)"

text \<open>
  A signature made with a valid key verifies under its public key, and the DER and compressed
  serializations of the values the library produces are read back.
\<close>

definition ecdsa_ok :: "env \<Rightarrow> bool" where
  "ecdsa_ok E \<longleftrightarrow>
     (\<forall>s sk m. secret_key_from_slice E s = Some sk \<longrightarrow>
        (let pk = public_key_from_secret E sk; sig = sign_ecdsa E m sk in
           verify_ecdsa E m sig pk \<and>
           signature_from_der E (signature_serialize_der E sig) = Some sig \<and>
           signature_serialize_der E sig \<noteq> [] \<and>
           length (signature_serialize_der E sig) \<le> 72 \<and>
           public_key_from_slice E (public_key_serialize E pk) = Some pk \<and>
           length (public_key_serialize E pk) = 33))"

section \<open>Hashes\<close>

definition sha256d :: "env \<Rightarrow> bytes \<Rightarrow> hash32" where
  "sha256d E data = (let first = sha256_digest E data in sha256_digest E first)"

definition hash160 :: "env \<Rightarrow> bytes \<Rightarrow> bytes" where
  "hash160 E data = ripemd160_digest E (sha256_digest E data)"

lemma length_sha256d: "hash_ok E \<Longrightarrow> length (sha256d E x) = 32"
  by (simp add: hash_ok_def sha256d_def)

lemma length_hash160: "hash_ok E \<Longrightarrow> length (hash160 E x) = 20"
  by (simp add: hash_ok_def hash160_def)

section \<open>Base58Check\<close>

datatype base58_error = InvalidCharacter | InvalidLength | InvalidChecksum

definition base58_checksum :: "env \<Rightarrow> bytes \<Rightarrow> bytes" where
  "base58_checksum E data = (let digest = sha256d E data in [digest ! 0, digest ! 1, digest ! 2, digest ! 3])"

definition encode_check :: "env \<Rightarrow> u8 \<Rightarrow> bytes \<Rightarrow> string" where
  "encode_check E version payload =
     (let data = version # payload in bs58_encode E (data @ base58_checksum E data))"

definition decode_check :: "env \<Rightarrow> string \<Rightarrow> base58_error + u8 \<times> bytes" where
  "decode_check E s =
     (case bs58_decode E s of
        None \<Rightarrow> Inl InvalidCharacter
      | Some data \<Rightarrow>
          if length data < 5 then Inl InvalidLength
          else
            let body = take (length data - 4) data;
                got_checksum = drop (length data - 4) data
            in if base58_checksum E body \<noteq> got_checksum then Inl InvalidChecksum
               else Inr (body ! 0, drop 1 body))"

lemma length_base58_checksum [simp]: "length (base58_checksum E x) = 4"
  by (simp add: base58_checksum_def Let_def)

text \<open>What a successful decode says: the string is the encoding of version, payload, checksum.\<close>

lemma decode_check_Inr_iff:
  "decode_check E s = Inr (v, p) \<longleftrightarrow>
     bs58_decode E s = Some ((v # p) @ base58_checksum E (v # p))"
proof
  assume dec: "decode_check E s = Inr (v, p)"
  then obtain data where data: "bs58_decode E s = Some data" and len: "5 \<le> length data"
    and sum: "base58_checksum E (take (length data - 4) data) = drop (length data - 4) data"
    and res: "take (length data - 4) data ! 0 = v" "drop 1 (take (length data - 4) data) = p"
    by (auto simp: decode_check_def Let_def not_less split: option.splits if_splits)
  have "take (length data - 4) data = v # p"
    using len res by (cases "take (length data - 4) data") auto
  with sum show "bs58_decode E s = Some ((v # p) @ base58_checksum E (v # p))"
    by (metis append_take_drop_id data)
next
  assume "bs58_decode E s = Some ((v # p) @ base58_checksum E (v # p))"
  then show "decode_check E s = Inr (v, p)"
    by (simp add: decode_check_def)
qed

text \<open>Base58Check round trip: decoding what was encoded gives the version byte and payload back.\<close>

theorem decode_encode_check:
  assumes "base58_ok E"
  shows "decode_check E (encode_check E v p) = Inr (v, p)"
  using assms by (simp add: decode_check_Inr_iff encode_check_def base58_ok_def)

section \<open>ECDSA\<close>

datatype ecdsa_error = InvalidPublicKey | InvalidSignature | VerificationFailed

definition verify_der_signature :: "env \<Rightarrow> bytes \<Rightarrow> bytes \<Rightarrow> hash32 \<Rightarrow> ecdsa_error + unit" where
  "verify_der_signature E signature_with_hashtype pubkey_bytes sighash =
     (if length signature_with_hashtype < 2 then Inl InvalidSignature
      else
        let der = take (length signature_with_hashtype - 1) signature_with_hashtype in
        and_then (ok_or InvalidSignature (signature_from_der E der)) (\<lambda>signature.
        and_then (ok_or InvalidPublicKey (public_key_from_slice E pubkey_bytes)) (\<lambda>pubkey.
          if verify_ecdsa E sighash signature pubkey then Inr () else Inl VerificationFailed)))"

definition sign_der_with_hashtype :: "env \<Rightarrow> bytes \<Rightarrow> hash32 \<Rightarrow> u8 \<Rightarrow> bytes" where
  "sign_der_with_hashtype E secret_key sighash sighash_type =
     signature_serialize_der E (sign_ecdsa E sighash secret_key) @ [sighash_type]"

lemma verify_der_signature_sign:
  assumes "ecdsa_ok E" and "secret_key_from_slice E s = Some sk"
  shows "verify_der_signature E (sign_der_with_hashtype E sk h t)
           (public_key_serialize E (public_key_from_secret E sk)) h = Inr ()"
proof -
  have "length (signature_serialize_der E (sign_ecdsa E h sk)) \<noteq> 0"
    using assms by (auto simp: ecdsa_ok_def Let_def)
  with assms show ?thesis
    by (auto simp: verify_der_signature_def sign_der_with_hashtype_def ecdsa_ok_def Let_def)
qed

lemma length_signature:
  assumes "ecdsa_ok E" and "secret_key_from_slice E s = Some sk"
  shows "1 < length (sign_der_with_hashtype E sk h t)" "length (sign_der_with_hashtype E sk h t) \<le> 73"
proof -
  have "length (signature_serialize_der E (sign_ecdsa E h sk)) \<noteq> 0"
    using assms by (auto simp: ecdsa_ok_def Let_def)
  with assms show "1 < length (sign_der_with_hashtype E sk h t)"
    "length (sign_der_with_hashtype E sk h t) \<le> 73"
    by (auto simp: sign_der_with_hashtype_def ecdsa_ok_def Let_def)
qed

section \<open>A concrete environment\<close>

text \<open>
  An executable instance for the witnesses: the digest is the byte sum of its input, padded to
  its length; signatures and keys are their own serialization and a signature is valid exactly
  when it is the one the key produces.  It satisfies every hypothesis above.
\<close>

definition toy_env :: env where
  "toy_env = \<lparr>
     sha256_digest = (\<lambda>bs. sum_list bs # replicate 31 0),
     ripemd160_digest = (\<lambda>bs. sum_list bs # replicate 19 0),
     signature_from_der = (\<lambda>bs. case bs of [] \<Rightarrow> None | b # s \<Rightarrow> Some s),
     signature_serialize_der = (\<lambda>s. 0x30 # s),
     public_key_from_slice = (\<lambda>bs. Some bs),
     public_key_serialize = (\<lambda>p. p),
     public_key_from_secret = (\<lambda>sk. sk),
     secret_key_from_slice = (\<lambda>bs. if length bs = 33 then Some bs else None),
     verify_ecdsa = (\<lambda>m s p. s = [sum_list m, sum_list p]),
     sign_ecdsa = (\<lambda>m sk. [sum_list m, sum_list sk]),
     bs58_encode = map (\<lambda>b. char_of (unat b)),
     bs58_decode = (\<lambda>s. Some (map (\<lambda>c. word_of_nat (of_char c)) s)),
     hex_encode = (\<lambda>bs. concat (map (\<lambda>b. [hex_digits ! (unat b div 16), hex_digits ! (unat b mod 16)]) bs)),
     short_period = False \<rparr>"

lemma toy_hash_ok: "hash_ok toy_env"
  by (simp add: hash_ok_def toy_env_def)

lemma toy_base58_ok: "base58_ok toy_env"
proof -
  have "(word_of_nat (of_char (char_of (unat b) :: char)) :: u8) = b" for b
    using unat_u8_lt [of b] by simp
  then show ?thesis by (simp add: base58_ok_def toy_env_def o_def)
qed

lemma toy_ecdsa_ok: "ecdsa_ok toy_env"
  by (simp add: ecdsa_ok_def toy_env_def)

lemma hex_digit_inj: "i < 16 \<Longrightarrow> j < 16 \<Longrightarrow> hex_digits ! i = hex_digits ! j \<longleftrightarrow> i = j"
proof (rule nth_eq_iff_index_eq)
  show "distinct hex_digits" by (simp add: hex_digits_def)
qed (simp_all add: hex_digits_def)

lemma toy_hex_ok: "hex_ok toy_env"
proof -
  define f where "f b = [hex_digits ! (unat b div 16), hex_digits ! (unat b mod 16)]" for b :: u8
  have enc: "hex_encode toy_env = (\<lambda>bs. concat (map f bs))" by (simp add: toy_env_def f_def [abs_def])
  have lt: "unat b div 16 < 16" for b :: u8 using unat_u8_lt [of b] by simp
  have len: "length hex_digits = 16" by (simp add: hex_digits_def)
  have f_inj: "f b = f c \<longleftrightarrow> b = c" for b c
  proof
    assume "f b = f c"
    then have "unat b div 16 = unat c div 16" "unat b mod 16 = unat c mod 16"
      using hex_digit_inj lt by (auto simp: f_def)
    then have "unat b = unat c" by (metis div_mult_mod_eq)
    then show "b = c" by (simp add: word_unat_eq_iff)
  qed simp
  have "concat (map f x) = concat (map f y) \<Longrightarrow> x = y" for x y
  proof (induction x arbitrary: y)
    case Nil
    then show ?case by (cases y) (auto simp: f_def)
  next
    case (Cons b x)
    then obtain c z where y: "y = c # z" by (cases y) (auto simp: f_def)
    then have "f b @ concat (map f x) = f c @ concat (map f z)" using Cons.prems by simp
    moreover have "length (f b) = length (f c)" by (simp add: f_def)
    ultimately have "f b = f c" "concat (map f x) = concat (map f z)" by simp_all
    then show ?case using Cons.IH [of z] f_inj y by simp
  qed
  moreover have "length (concat (map f x)) = 2 * length x" for x
    by (induction x) (auto simp: f_def)
  moreover have "set (f b) \<subseteq> set hex_digits" for b
    using lt [of b] len by (auto simp: f_def intro!: nth_mem)
  then have "set (concat (map f x)) \<subseteq> set hex_digits" for x by auto
  ultimately show ?thesis unfolding hex_ok_def enc by blast
qed

theorem decode_encode_check_witness:
  "decode_check toy_env (encode_check toy_env 0x6f [1, 2, 3]) = Inr (0x6f, [1, 2, 3])"
  using decode_encode_check [OF toy_base58_ok] .

end
