(* ===== verification/Script.thy ===== *)
theory Script
  imports Crypto
begin

text \<open>
  The crate \<open>bitrst-script\<close> (\<open>stack.rs\<close>, \<open>opcodes.rs\<close>, \<open>interpreter.rs\<close>, \<open>p2pkh.rs\<close>): the stack machine
  that verifies an unlocking script against a locking script, and the standard pay-to-public-key-hash
  templates.  The vector of stack items keeps its top at the end, as in the source.
\<close>

section \<open>The stack\<close>

datatype script_error =
    UnexpectedEnd
  | StackUnderflow
  | UnknownOpcode u8
  | EqualVerifyFailed
  | CheckSigFailed
  | EvalFalse

record stack =
  items :: "bytes list"

definition new_stack :: stack where
  "new_stack = \<lparr>items = []\<rparr>"

definition push :: "bytes \<Rightarrow> stack \<Rightarrow> stack" where
  "push d s = s\<lparr>items := items s @ [d]\<rparr>"

definition pop :: "stack \<Rightarrow> script_error + bytes \<times> stack" where
  "pop s = (if items s = [] then Inl StackUnderflow
            else Inr (last (items s), s\<lparr>items := butlast (items s)\<rparr>))"

definition top_item :: "stack \<Rightarrow> script_error + bytes" where
  "top_item s = (if items s = [] then Inl StackUnderflow else Inr (last (items s)))"

definition dup :: "stack \<Rightarrow> script_error + stack" where
  "dup s = and_then (top_item s) (\<lambda>t. Inr (push t s))"

text \<open>The loop of \<open>script_bool\<close> from position \<open>i\<close> of \<open>n\<close> bytes.\<close>

fun script_bool_from :: "nat \<Rightarrow> nat \<Rightarrow> bytes \<Rightarrow> bool" where
  "script_bool_from n i [] = False"
| "script_bool_from n i (byte # bs) =
     (if byte \<noteq> 0 then \<not> (i = n - 1 \<and> byte = 0x80) else script_bool_from n (i + 1) bs)"

definition script_bool :: "bytes \<Rightarrow> bool" where
  "script_bool bs = script_bool_from (length bs) 0 bs"

definition top_is_true :: "stack \<Rightarrow> script_error + bool" where
  "top_is_true s = and_then (top_item s) (\<lambda>t. Inr (script_bool t))"

section \<open>Opcodes and the interpreter\<close>

definition OP_PUSHDATA1 :: u8 where "OP_PUSHDATA1 = 0x4c"
definition OP_PUSHDATA2 :: u8 where "OP_PUSHDATA2 = 0x4d"
definition OP_PUSHDATA4 :: u8 where "OP_PUSHDATA4 = 0x4e"
definition OP_DUP :: u8 where "OP_DUP = 0x76"
definition OP_EQUAL :: u8 where "OP_EQUAL = 0x87"
definition OP_EQUALVERIFY :: u8 where "OP_EQUALVERIFY = 0x88"
definition OP_HASH160 :: u8 where "OP_HASH160 = 0xa9"
definition OP_CHECKSIG :: u8 where "OP_CHECKSIG = 0xac"

lemmas opcode_defs = OP_PUSHDATA1_def OP_PUSHDATA2_def OP_PUSHDATA4_def OP_DUP_def OP_EQUAL_def
  OP_EQUALVERIFY_def OP_HASH160_def OP_CHECKSIG_def

definition read_push :: "bytes \<Rightarrow> nat \<Rightarrow> nat \<Rightarrow> script_error + bytes \<times> nat" where
  "read_push script pc len =
     (let end_pos = pc + len in
      if end_pos \<le> length script then Inr (take (end_pos - pc) (drop pc script), end_pos) else Inl UnexpectedEnd)"

definition script_read_u8 :: "bytes \<Rightarrow> nat \<Rightarrow> script_error + u8 \<times> nat" where
  "script_read_u8 script pc = (if pc \<ge> length script then Inl UnexpectedEnd else Inr (script ! pc, pc + 1))"

definition script_read_u16 :: "bytes \<Rightarrow> nat \<Rightarrow> script_error + u16 \<times> nat" where
  "script_read_u16 script pc =
     (if pc + 2 > length script then Inl UnexpectedEnd
      else Inr (u16_from_le_bytes [script ! pc, script ! (pc + 1)], pc + 2))"

definition script_read_u32 :: "bytes \<Rightarrow> nat \<Rightarrow> script_error + u32 \<times> nat" where
  "script_read_u32 script pc =
     (if pc + 4 > length script then Inl UnexpectedEnd
      else Inr (u32_from_le_bytes [script ! pc, script ! (pc + 1), script ! (pc + 2), script ! (pc + 3)], pc + 4))"

text \<open>The \<open>match opcode\<close> of \<open>execute_script\<close>; \<open>pc\<close> is already past the opcode.\<close>

definition execute_opcode :: "env \<Rightarrow> bytes \<Rightarrow> hash32 \<Rightarrow> u8 \<Rightarrow> nat \<Rightarrow> stack \<Rightarrow> script_error + nat \<times> stack" where
  "execute_opcode E script sighash opcode pc s =
     (if 1 \<le> opcode \<and> opcode \<le> 75 then
        and_then (read_push script pc (unat opcode)) (\<lambda>(d, pc). Inr (pc, push d s))
      else if opcode = OP_PUSHDATA1 then
        and_then (script_read_u8 script pc) (\<lambda>(len, pc).
        and_then (read_push script pc (unat len)) (\<lambda>(d, pc). Inr (pc, push d s)))
      else if opcode = OP_PUSHDATA2 then
        and_then (script_read_u16 script pc) (\<lambda>(len, pc).
        and_then (read_push script pc (unat len)) (\<lambda>(d, pc). Inr (pc, push d s)))
      else if opcode = OP_PUSHDATA4 then
        and_then (script_read_u32 script pc) (\<lambda>(len, pc).
        and_then (read_push script pc (unat len)) (\<lambda>(d, pc). Inr (pc, push d s)))
      else if opcode = OP_DUP then and_then (dup s) (\<lambda>s. Inr (pc, s))
      else if opcode = OP_HASH160 then
        and_then (pop s) (\<lambda>(item, s). Inr (pc, push (hash160 E item) s))
      else if opcode = OP_EQUAL then
        and_then (pop s) (\<lambda>(right, s). and_then (pop s) (\<lambda>(left, s).
          Inr (pc, push (if left = right then [1] else []) s)))
      else if opcode = OP_EQUALVERIFY then
        and_then (pop s) (\<lambda>(right, s). and_then (pop s) (\<lambda>(left, s).
          if left \<noteq> right then Inl EqualVerifyFailed else Inr (pc, s)))
      else if opcode = OP_CHECKSIG then
        and_then (pop s) (\<lambda>(pubkey, s). and_then (pop s) (\<lambda>(signature, s).
        and_then (map_err (\<lambda>_. CheckSigFailed) (verify_der_signature E signature pubkey sighash)) (\<lambda>_.
          Inr (pc, push [1] s))))
      else if opcode = 0 then Inr (pc, push [] s)
      else if opcode = 0x51 then Inr (pc, push [1] s)
      else Inl (UnknownOpcode opcode))"

lemma read_push_pc: "read_push script pc len = Inr (d, pc') \<Longrightarrow> pc \<le> pc'"
  by (auto simp: read_push_def Let_def split: if_splits)

lemma script_read_pc:
  "script_read_u8 script pc = Inr (a, pc') \<Longrightarrow> pc \<le> pc'"
  "script_read_u16 script pc = Inr (b, pc') \<Longrightarrow> pc \<le> pc'"
  "script_read_u32 script pc = Inr (c, pc') \<Longrightarrow> pc \<le> pc'"
  by (auto simp: script_read_u8_def script_read_u16_def script_read_u32_def split: if_splits)

lemma execute_opcode_pc: "execute_opcode E script sighash opcode pc s = Inr (pc', s') \<Longrightarrow> pc \<le> pc'"
  by (auto simp: execute_opcode_def and_then_Inr_iff split: if_splits
      dest!: read_push_pc script_read_pc)

text \<open>The \<open>while pc < script.len()\<close> loop; every turn moves \<open>pc\<close> forward.\<close>

function execute_from :: "env \<Rightarrow> bytes \<Rightarrow> hash32 \<Rightarrow> nat \<Rightarrow> stack \<Rightarrow> script_error + stack" where
  "execute_from E script sighash pc s =
     (if pc < length script then
        (case execute_opcode E script sighash (script ! pc) (pc + 1) s of
           Inl e \<Rightarrow> Inl e
         | Inr (pc', s') \<Rightarrow> execute_from E script sighash pc' s')
      else Inr s)"
  by pat_completeness auto
termination
  by (relation "measure (\<lambda>(E, script, sighash, pc, s). length script - pc)")
    (auto dest!: sym [of "Inr _"] execute_opcode_pc)

declare execute_from.simps [simp del]

definition execute_script :: "env \<Rightarrow> bytes \<Rightarrow> stack \<Rightarrow> hash32 \<Rightarrow> script_error + stack" where
  "execute_script E script s sighash = execute_from E script sighash 0 s"

definition verify_script :: "env \<Rightarrow> bytes \<Rightarrow> bytes \<Rightarrow> hash32 \<Rightarrow> script_error + unit" where
  "verify_script E script_sig script_pubkey sighash =
     and_then (execute_script E script_sig new_stack sighash) (\<lambda>s.
     and_then (execute_script E script_pubkey s sighash) (\<lambda>s.
     and_then (top_is_true s) (\<lambda>b. if b then Inr () else Inl EvalFalse)))"

section \<open>Templates\<close>

definition push_data :: "bytes \<Rightarrow> bytes" where
  "push_data d =
     (if length d = 0 then [0]
      else if length d \<le> 75 then of_nat (length d) # d
      else if length d \<le> 255 then 0x4c # of_nat (length d) # d
      else if length d \<le> 65535 then 0x4d # u16_to_le_bytes (of_nat (length d)) @ d
      else 0x4e # u32_to_le_bytes (of_nat (length d)) @ d)"

definition p2pkh_script_pubkey :: "bytes \<Rightarrow> bytes" where
  "p2pkh_script_pubkey pubkey_hash =
     [OP_DUP, OP_HASH160, 20] @ pubkey_hash @ [OP_EQUALVERIFY, OP_CHECKSIG]"

definition p2pkh_script_sig :: "bytes \<Rightarrow> bytes \<Rightarrow> bytes" where
  "p2pkh_script_sig signature_with_hashtype pubkey = push_data signature_with_hashtype @ push_data pubkey"

section \<open>Running the templates\<close>

lemma execute_from_end [simp]: "length script \<le> pc \<Longrightarrow> execute_from E script h pc s = Inr s"
  by (subst execute_from.simps) simp

lemma execute_from_step:
  assumes "drop pc script = opcode # post"
    and "execute_opcode E script h opcode (pc + 1) s = Inr (pc', s')"
  shows "execute_from E script h pc s = execute_from E script h pc' s'"
proof -
  have "pc < length script" "script ! pc = opcode"
    using assms(1) by (metis drop_all list.distinct(1) not_less) (metis assms(1) hd_drop_conv_nth drop_all list.distinct(1) list.sel(1) not_less)
  then show ?thesis using assms(2) by (subst execute_from.simps) simp
qed

lemma execute_from_error:
  assumes "drop pc script = opcode # post"
    and "execute_opcode E script h opcode (pc + 1) s = Inl e"
  shows "execute_from E script h pc s = Inl e"
proof -
  have "pc < length script" "script ! pc = opcode"
    using assms(1) by (metis drop_all list.distinct(1) not_less) (metis assms(1) hd_drop_conv_nth drop_all list.distinct(1) list.sel(1) not_less)
  then show ?thesis using assms(2) by (subst execute_from.simps) simp
qed

lemma drop_append_bound: "drop k xs = a @ b \<Longrightarrow> a \<noteq> [] \<Longrightarrow> k + length a \<le> length xs"
proof -
  assume "drop k xs = a @ b" "a \<noteq> []"
  then have "length (drop k xs) = length (a @ b)" "length a \<noteq> 0" by simp_all
  then show ?thesis unfolding length_drop length_append by linarith
qed

lemma read_push_drop:
  "drop pc script = d @ post \<Longrightarrow> d \<noteq> [] \<Longrightarrow> read_push script pc (length d) = Inr (d, pc + length d)"
  using drop_append_bound [of pc script d post] by (simp add: read_push_def Let_def)

lemma take_nth_pair: "k + 2 \<le> length xs \<Longrightarrow> take 2 (drop k xs) = [xs ! k, xs ! (k + 1)]"
  by (simp add: numeral_2_eq_2 Cons_nth_drop_Suc [symmetric] del: Cons_nth_drop_Suc)

lemma take_nth_quad:
  "k + 4 \<le> length xs \<Longrightarrow> take 4 (drop k xs) = [xs ! k, xs ! (k + 1), xs ! (k + 2), xs ! (k + 3)]"
  by (simp add: eval_nat_numeral Cons_nth_drop_Suc [symmetric] del: Cons_nth_drop_Suc)

lemma script_read_u8_drop: "drop pc script = v # post \<Longrightarrow> script_read_u8 script pc = Inr (v, pc + 1)"
  using drop_append_bound [of pc script "[v]" post] nth_via_drop [of pc script v post]
  by (simp add: script_read_u8_def)

lemma script_read_u16_drop:
  "drop pc script = u16_to_le_bytes v @ post \<Longrightarrow> script_read_u16 script pc = Inr (v, pc + 2)"
proof -
  assume d: "drop pc script = u16_to_le_bytes v @ post"
  have b: "pc + 2 \<le> length script"
    using drop_append_bound [OF d] length_to_le_bytes(1) [of v] by (metis list.size(3) zero_neq_numeral)
  then have "[script ! pc, script ! (pc + 1)] = u16_to_le_bytes v"
    unfolding take_nth_pair [OF b, symmetric] d by simp
  then show ?thesis using b by (simp add: script_read_u16_def)
qed

lemma script_read_u32_drop:
  "drop pc script = u32_to_le_bytes v @ post \<Longrightarrow> script_read_u32 script pc = Inr (v, pc + 4)"
proof -
  assume d: "drop pc script = u32_to_le_bytes v @ post"
  have b: "pc + 4 \<le> length script"
    using drop_append_bound [OF d] length_to_le_bytes(2) [of v] by (metis list.size(3) zero_neq_numeral)
  then have "[script ! pc, script ! (pc + 1), script ! (pc + 2), script ! (pc + 3)] = u32_to_le_bytes v"
    unfolding take_nth_quad [OF b, symmetric] d by simp
  then show ?thesis using b by (simp add: script_read_u32_def)
qed

lemma drop_tail: "drop pc xs = a @ b \<Longrightarrow> drop (pc + length a) xs = b"
  by (metis add.commute append_eq_conv_conj drop_drop)

lemma push_data_cases:
  obtains "d = []" "push_data d = [0]"
  | "1 \<le> length d" "length d \<le> 75" "push_data d = of_nat (length d) # d"
  | "1 \<le> length d" "length d \<le> 255" "push_data d = OP_PUSHDATA1 # of_nat (length d) # d"
  | "1 \<le> length d" "length d \<le> 65535" "push_data d = OP_PUSHDATA2 # u16_to_le_bytes (of_nat (length d)) @ d"
  | "65535 < length d" "push_data d = OP_PUSHDATA4 # u32_to_le_bytes (of_nat (length d)) @ d"
proof -
  consider "length d = 0" | "1 \<le> length d \<and> length d \<le> 75" | "75 < length d \<and> length d \<le> 255"
    | "255 < length d \<and> length d \<le> 65535" | "65535 < length d"
    by linarith
  then show thesis
  proof cases
    case 1 then show thesis using that(1) by (simp add: push_data_def)
  next
    case 2 then show thesis using that(2) by (simp add: push_data_def)
  next
    case 3
    then have "push_data d = OP_PUSHDATA1 # of_nat (length d) # d" by (auto simp: push_data_def opcode_defs)
    then show thesis using that(3) 3 by simp
  next
    case 4
    then have "push_data d = OP_PUSHDATA2 # u16_to_le_bytes (of_nat (length d)) @ d" by (auto simp: push_data_def opcode_defs)
    then show thesis using that(4) 4 by simp
  next
    case 5
    then have "push_data d = OP_PUSHDATA4 # u32_to_le_bytes (of_nat (length d)) @ d" by (auto simp: push_data_def opcode_defs)
    then show thesis using that(5) 5 by simp
  qed
qed

lemma execute_push_data:
  assumes d: "drop pc script = push_data d @ post" and small: "length d < 2 ^ 32"
  shows "execute_from E script h pc s = execute_from E script h (pc + length (push_data d)) (push d s)"
proof (cases d rule: push_data_cases)
  case 1
  then have "execute_opcode E script h 0 (pc + 1) s = Inr (pc + 1, push d s)"
    by (simp add: execute_opcode_def opcode_defs)
  then show ?thesis using d 1 by (subst execute_from_step) simp_all
next
  case 2
  then have "drop (pc + 1) script = d @ post" using drop_tail [of pc script "[of_nat (length d)]" "d @ post"] d by simp
  moreover have "unat (of_nat (length d) :: u8) = length d" using 2 by (simp add: unat_of_nat)
  ultimately have "execute_opcode E script h (of_nat (length d)) (pc + 1) s = Inr (pc + 1 + length d, push d s)"
    using 2 by (simp add: execute_opcode_def word_le_nat_alt read_push_drop Suc_le_eq)
  then show ?thesis using d 2 by (subst execute_from_step) simp_all
next
  case 3
  have t1: "drop (pc + 1) script = of_nat (length d) # d @ post"
    using drop_tail [of pc script "[OP_PUSHDATA1]" "of_nat (length d) # d @ post"] d 3 by simp
  have t2: "drop (pc + 1 + 1) script = d @ post"
    using drop_tail [of "pc + 1" script "[of_nat (length d)]" "d @ post"] t1 by simp
  have ne: "d \<noteq> []" using 3 by auto
  have u: "unat (of_nat (length d) :: u8) = length d" using 3 by (simp add: unat_of_nat)
  have "execute_opcode E script h OP_PUSHDATA1 (pc + 1) s = Inr (pc + 1 + 1 + length d, push d s)"
    using script_read_u8_drop [OF t1] read_push_drop [OF t2 ne] u
    by (simp add: execute_opcode_def OP_PUSHDATA1_def word_le_nat_alt)
  then show ?thesis using d 3 by (subst execute_from_step) simp_all
next
  case 4
  have t1: "drop (pc + 1) script = u16_to_le_bytes (of_nat (length d)) @ d @ post"
    using drop_tail [of pc script "[OP_PUSHDATA2]" "u16_to_le_bytes (of_nat (length d)) @ d @ post"] d 4 by simp
  have t2: "drop (pc + 1 + 2) script = d @ post" using drop_tail [OF t1] by simp
  have ne: "d \<noteq> []" using 4 by auto
  have u: "unat (of_nat (length d) :: u16) = length d" using 4 by (simp add: unat_of_nat)
  have "execute_opcode E script h OP_PUSHDATA2 (pc + 1) s = Inr (pc + 1 + 2 + length d, push d s)"
    using script_read_u16_drop [OF t1] read_push_drop [OF t2 ne] u
    by (simp add: execute_opcode_def OP_PUSHDATA1_def OP_PUSHDATA2_def word_le_nat_alt)
  then show ?thesis using d 4 by (subst execute_from_step) simp_all
next
  case 5
  have t1: "drop (pc + 1) script = u32_to_le_bytes (of_nat (length d)) @ d @ post"
    using drop_tail [of pc script "[OP_PUSHDATA4]" "u32_to_le_bytes (of_nat (length d)) @ d @ post"] d 5 by simp
  have t2: "drop (pc + 1 + 4) script = d @ post" using drop_tail [OF t1] by simp
  have ne: "d \<noteq> []" using 5 by auto
  have u: "unat (of_nat (length d) :: u32) = length d" using small by (simp add: unat_of_nat)
  have "execute_opcode E script h OP_PUSHDATA4 (pc + 1) s = Inr (pc + 1 + 4 + length d, push d s)"
    using script_read_u32_drop [OF t1] read_push_drop [OF t2 ne] u
    by (simp add: execute_opcode_def OP_PUSHDATA1_def OP_PUSHDATA2_def OP_PUSHDATA4_def word_le_nat_alt)
  then have "execute_from E script h pc s = execute_from E script h (pc + 1 + 4 + length d) (push d s)"
    using d 5 by (intro execute_from_step [where post = "u32_to_le_bytes (of_nat (length d)) @ d @ post"]) simp_all
  moreover have "pc + 1 + 4 + length d = pc + length (push_data d)" using 5 by simp
  ultimately show ?thesis by (simp only:)
qed

section \<open>Pay to public key hash\<close>

lemma execute_script_sig:
  assumes "length sig < 2 ^ 32" "length pk < 2 ^ 32"
  shows "execute_script E (p2pkh_script_sig sig pk) new_stack h = Inr \<lparr>items = [sig, pk]\<rparr>"
proof -
  let ?script = "push_data sig @ push_data pk"
  have "execute_from E ?script h 0 new_stack = execute_from E ?script h (0 + length (push_data sig)) (push sig new_stack)"
    using assms by (intro execute_push_data) simp_all
  also have "\<dots> = execute_from E ?script h (0 + length (push_data sig) + length (push_data pk)) (push pk (push sig new_stack))"
    using assms by (intro execute_push_data [where post = "[]"]) simp_all
  also have "\<dots> = Inr \<lparr>items = [sig, pk]\<rparr>"
    by (simp add: push_def new_stack_def)
  finally show ?thesis by (simp add: execute_script_def p2pkh_script_sig_def)
qed

lemma pop_append [simp]: "pop \<lparr>items = xs @ [x]\<rparr> = Inr (x, \<lparr>items = xs\<rparr>)"
  by (simp add: pop_def)

lemma pop_pair [simp]: "pop \<lparr>items = [x, y]\<rparr> = Inr (y, \<lparr>items = [x]\<rparr>)" "pop \<lparr>items = [x]\<rparr> = Inr (x, \<lparr>items = []\<rparr>)"
  "pop \<lparr>items = [x, y, z]\<rparr> = Inr (z, \<lparr>items = [x, y]\<rparr>)" "pop \<lparr>items = [x, y, z, w]\<rparr> = Inr (w, \<lparr>items = [x, y, z]\<rparr>)"
  by (simp_all add: pop_def)

lemma execute_single_opcodes:
  "execute_opcode E script h OP_DUP pc s = and_then (dup s) (\<lambda>s. Inr (pc, s))"
  "execute_opcode E script h OP_HASH160 pc s = and_then (pop s) (\<lambda>(item, s). Inr (pc, push (hash160 E item) s))"
  "execute_opcode E script h OP_EQUALVERIFY pc s =
     and_then (pop s) (\<lambda>(right, s). and_then (pop s) (\<lambda>(left, s).
       if left \<noteq> right then Inl EqualVerifyFailed else Inr (pc, s)))"
  "execute_opcode E script h OP_CHECKSIG pc s =
     and_then (pop s) (\<lambda>(pubkey, s). and_then (pop s) (\<lambda>(signature, s).
       and_then (map_err (\<lambda>_. CheckSigFailed) (verify_der_signature E signature pubkey h)) (\<lambda>_.
         Inr (pc, push [1] s))))"
  by (simp_all add: execute_opcode_def opcode_defs word_le_nat_alt)

lemma execute_script_pubkey:
  assumes len: "length pkh = 20"
  shows "execute_script E (p2pkh_script_pubkey pkh) \<lparr>items = [sig, pk]\<rparr> h =
    (if hash160 E pk \<noteq> pkh then Inl EqualVerifyFailed
     else and_then (map_err (\<lambda>_. CheckSigFailed) (verify_der_signature E sig pk h)) (\<lambda>_. Inr \<lparr>items = [[1]]\<rparr>))"
proof -
  let ?s = "p2pkh_script_pubkey pkh"
  let ?run = "execute_from E ?s h"
  have d0: "drop 0 ?s = OP_DUP # [OP_HASH160] @ push_data pkh @ [OP_EQUALVERIFY, OP_CHECKSIG]"
    and d1: "drop 1 ?s = OP_HASH160 # push_data pkh @ [OP_EQUALVERIFY, OP_CHECKSIG]"
    and d2: "drop 2 ?s = push_data pkh @ [OP_EQUALVERIFY, OP_CHECKSIG]"
    and d23: "drop 23 ?s = OP_EQUALVERIFY # [OP_CHECKSIG]"
    and d24: "drop 24 ?s = OP_CHECKSIG # []"
    using len by (auto simp: p2pkh_script_pubkey_def push_data_def numeral_2_eq_2)
  have "?run 0 \<lparr>items = [sig, pk]\<rparr> = ?run 1 \<lparr>items = [sig, pk, pk]\<rparr>"
    by (rule execute_from_step [OF d0]) (simp add: execute_single_opcodes dup_def top_item_def push_def)
  also have "\<dots> = ?run 2 \<lparr>items = [sig, pk, hash160 E pk]\<rparr>"
    by (rule execute_from_step [OF d1]) (simp add: execute_single_opcodes push_def)
  also have "\<dots> = ?run 23 \<lparr>items = [sig, pk, hash160 E pk, pkh]\<rparr>"
    using execute_push_data [OF d2, of E h] len by (simp add: push_def push_data_def)
  also have "\<dots> = (if hash160 E pk \<noteq> pkh then Inl EqualVerifyFailed else ?run 24 \<lparr>items = [sig, pk]\<rparr>)"
  proof (cases "hash160 E pk = pkh")
    case True
    then have "?run 23 \<lparr>items = [sig, pk, hash160 E pk, pkh]\<rparr> = ?run 24 \<lparr>items = [sig, pk]\<rparr>"
      by (intro execute_from_step [OF d23]) (simp add: execute_single_opcodes)
    then show ?thesis using True by simp
  next
    case False
    then show ?thesis
      using execute_from_error [OF d23] by (simp add: execute_single_opcodes)
  qed
  also have "?run 24 \<lparr>items = [sig, pk]\<rparr> =
      and_then (map_err (\<lambda>_. CheckSigFailed) (verify_der_signature E sig pk h)) (\<lambda>_. Inr \<lparr>items = [[1]]\<rparr>)"
  proof (cases "verify_der_signature E sig pk h")
    case (Inl e)
    then show ?thesis using execute_from_error [OF d24] by (simp add: execute_single_opcodes)
  next
    case (Inr u)
    then have "?run 24 \<lparr>items = [sig, pk]\<rparr> = ?run 25 \<lparr>items = [[1]]\<rparr>"
      by (intro execute_from_step [OF d24]) (simp add: execute_single_opcodes push_def)
    then show ?thesis using Inr len by (simp add: p2pkh_script_pubkey_def)
  qed
  finally show ?thesis by (simp only: execute_script_def)
qed

lemma verify_p2pkh_outcome:
  assumes "length pkh = 20" "length sig < 2 ^ 32" "length pk < 2 ^ 32"
  shows "verify_script E (p2pkh_script_sig sig pk) (p2pkh_script_pubkey pkh) h =
    (if hash160 E pk \<noteq> pkh then Inl EqualVerifyFailed
     else if is_ok (verify_der_signature E sig pk h) then Inr () else Inl CheckSigFailed)"
proof -
  have "verify_script E (p2pkh_script_sig sig pk) (p2pkh_script_pubkey pkh) h =
      and_then (execute_script E (p2pkh_script_pubkey pkh) \<lparr>items = [sig, pk]\<rparr> h) (\<lambda>s.
      and_then (top_is_true s) (\<lambda>b. if b then Inr () else Inl EvalFalse))"
    using execute_script_sig [OF assms(2,3)] by (simp add: verify_script_def)
  then show ?thesis
    unfolding execute_script_pubkey [OF assms(1)]
    by (cases "verify_der_signature E sig pk h") (simp_all add: top_is_true_def top_item_def script_bool_def)
qed

text \<open>
  C26. Pay-to-public-key-hash: run on the standard templates, the interpreter accepts exactly when the
  public key hashes to the committed hash and the signature verifies under it; otherwise it reports
  \<open>EqualVerifyFailed\<close> for a wrong key and \<open>CheckSigFailed\<close> for a bad signature, and it never runs off the
  end, underflows the stack or leaves a false value.
\<close>

theorem verify_p2pkh:
  assumes "length pkh = 20" "length sig < 2 ^ 32" "length pk < 2 ^ 32"
  shows "verify_script E (p2pkh_script_sig sig pk) (p2pkh_script_pubkey pkh) h =
    (if hash160 E pk \<noteq> pkh then Inl EqualVerifyFailed
     else if is_ok (verify_der_signature E sig pk h) then Inr () else Inl CheckSigFailed)"
  using assms by (rule verify_p2pkh_outcome)

theorem verify_p2pkh_witness:
  "verify_script toy_env (p2pkh_script_sig (sign_der_with_hashtype toy_env (replicate 33 1) (replicate 32 7) 1) (replicate 33 1))
     (p2pkh_script_pubkey (hash160 toy_env (replicate 33 1))) (replicate 32 7) = Inr ()"
proof -
  let ?sk = "replicate 33 (1 :: u8)" and ?sig = "sign_der_with_hashtype toy_env (replicate 33 1) (replicate 32 7) 1"
  have sk: "secret_key_from_slice toy_env ?sk = Some ?sk" "public_key_from_secret toy_env ?sk = ?sk"
    "public_key_serialize toy_env ?sk = ?sk"
    by (simp_all add: toy_env_def)
  have "verify_der_signature toy_env ?sig ?sk (replicate 32 7) = Inr ()"
    using verify_der_signature_sign [OF toy_ecdsa_ok sk(1), of "replicate 32 7" 1] sk by simp
  then show ?thesis
    using verify_p2pkh [of "hash160 toy_env ?sk" ?sig ?sk toy_env "replicate 32 7"]
      length_signature(2) [OF toy_ecdsa_ok sk(1), of "replicate 32 7" 1]
    by (simp add: length_hash160 [OF toy_hash_ok])
qed

end
