(* ===== verification/Merkle.thy ===== *)
theory Merkle
  imports Crypto
begin

text \<open>
  \<open>crates/bitrst-core/src/merkle.rs\<close> and the constants of \<open>limits.rs\<close>: the Merkle root of the
  transaction ids of a block, and its equality with the recursive definition of the tree.
\<close>

section \<open>Limits\<close>

definition MAX_BLOCK_SERIALIZED_SIZE :: nat where
  "MAX_BLOCK_SERIALIZED_SIZE = 4000000"

definition MAX_TRANSACTION_SERIALIZED_SIZE :: nat where
  "MAX_TRANSACTION_SERIALIZED_SIZE = MAX_BLOCK_SERIALIZED_SIZE"

definition MAX_ORPHAN_BLOCKS :: nat where
  "MAX_ORPHAN_BLOCKS = 256"

definition MAX_TRANSACTIONS_PER_BLOCK :: nat where
  "MAX_TRANSACTIONS_PER_BLOCK = 25000"

definition MAX_TRANSACTION_INPUTS :: nat where
  "MAX_TRANSACTION_INPUTS = 25000"

definition MAX_TRANSACTION_OUTPUTS :: nat where
  "MAX_TRANSACTION_OUTPUTS = 25000"

definition MAX_SCRIPT_SIZE :: nat where
  "MAX_SCRIPT_SIZE = 10000"

definition MAX_MONEY :: u64 where
  "MAX_MONEY = 21000000 * 100000000"

definition DEFAULT_MAX_MEMPOOL_TX_COUNT :: nat where
  "DEFAULT_MAX_MEMPOOL_TX_COUNT = 5000"

definition DEFAULT_MAX_MEMPOOL_BYTES :: nat where
  "DEFAULT_MAX_MEMPOOL_BYTES = 300000000"

definition DEFAULT_CHAIN_EVENT_JOURNAL_CAPACITY :: nat where
  "DEFAULT_CHAIN_EVENT_JOURNAL_CAPACITY = 256"

definition DEFAULT_DISCONNECTED_BLOCK_JOURNAL_CAPACITY :: nat where
  "DEFAULT_DISCONNECTED_BLOCK_JOURNAL_CAPACITY = DEFAULT_CHAIN_EVENT_JOURNAL_CAPACITY"

section \<open>Definitions\<close>

text \<open>One level: \<open>level.chunks(2)\<close>, an odd last hash paired with itself.\<close>

fun next_level :: "env \<Rightarrow> hash32 list \<Rightarrow> hash32 list" where
  "next_level E [] = []"
| "next_level E [left] = [sha256d E (left @ left)]"
| "next_level E (left # right # rest) = sha256d E (left @ right) # next_level E rest"

lemma length_next_level: "length (next_level E level) = (length level + 1) div 2"
  by (induction E level rule: next_level.induct) auto

text \<open>The \<open>while level.len() > 1\<close> loop, with the final \<open>level[0]\<close>.\<close>

function merkle_levels :: "env \<Rightarrow> hash32 list \<Rightarrow> hash32" where
  "merkle_levels E level =
     (if length level > 1 then merkle_levels E (next_level E level) else level ! 0)"
  by pat_completeness auto
termination
  by (relation "measure (length \<circ> snd)") (auto simp: length_next_level)

declare merkle_levels.simps [simp del]

definition merkle_root :: "env \<Rightarrow> hash32 list \<Rightarrow> hash32 option" where
  "merkle_root E txids =
     (if txids = [] \<or> length txids > MAX_TRANSACTIONS_PER_BLOCK then None
      else Some (merkle_levels E txids))"

section \<open>The tree the levels compute\<close>

text \<open>
  The reference: the subtree of height \<open>h\<close> whose leaves start at leaf \<open>k * 2 ^ h\<close>; where the right
  half has no leaf at all, the left half is hashed with itself.
\<close>

fun subtree :: "env \<Rightarrow> hash32 list \<Rightarrow> nat \<Rightarrow> nat \<Rightarrow> hash32" where
  "subtree E leaves 0 k = leaves ! k"
| "subtree E leaves (Suc h) k =
     sha256d E (subtree E leaves h (2 * k) @
       (if (2 * k + 1) * 2 ^ h < length leaves then subtree E leaves h (2 * k + 1)
        else subtree E leaves h (2 * k)))"

definition tree_height :: "nat \<Rightarrow> nat" where
  "tree_height n = (LEAST h. n \<le> 2 ^ h)"

lemma next_level_nth:
  "k < length (next_level E level) \<Longrightarrow>
     next_level E level ! k =
       sha256d E (level ! (2 * k) @ (if 2 * k + 1 < length level then level ! (2 * k + 1) else level ! (2 * k)))"
  by (induction E level arbitrary: k rule: next_level.induct) (auto simp: nth_Cons split: nat.split)

lemma subtree_next_level:
  "k * 2 ^ h < length (next_level E level) \<Longrightarrow>
     subtree E (next_level E level) h k = subtree E level (Suc h) k"
proof (induction h arbitrary: k)
  case 0
  then show ?case by (simp add: next_level_nth)
next
  case (Suc h)
  have "2 * k * 2 ^ h < length (next_level E level)" using Suc.prems by (simp add: mult.commute mult.left_commute)
  moreover have "(2 * k + 1) * 2 ^ h < length (next_level E level) \<longleftrightarrow> (2 * k + 1) * 2 ^ Suc h < length level"
    unfolding length_next_level by auto
  ultimately show ?case using Suc.IH [of "2 * k"] Suc.IH [of "2 * k + 1"]
    by (simp del: subtree.simps(2) add: subtree.simps(2) [of E "next_level E level"] subtree.simps(2) [of E level "Suc h"])
qed

lemma subtree_single: "length level = 1 \<Longrightarrow> subtree E level 0 0 = level ! 0"
  by simp

lemma tree_height_le_1: "n \<le> 1 \<Longrightarrow> tree_height n = 0"
  by (simp add: tree_height_def Least_eq_0)

lemma tree_height_step: "1 < n \<Longrightarrow> tree_height n = Suc (tree_height ((n + 1) div 2))"
proof -
  assume n: "1 < n"
  have step: "n \<le> 2 ^ Suc h \<longleftrightarrow> (n + 1) div 2 \<le> 2 ^ h" for h by auto
  have "n \<le> 2 ^ n" using less_exp [of n] by simp
  then have "(LEAST h. n \<le> 2 ^ h) = Suc (LEAST h. n \<le> 2 ^ Suc h)"
    by (rule Least_Suc) (use n in simp)
  then show ?thesis by (simp only: tree_height_def step)
qed

lemma merkle_levels_subtree:
  "level \<noteq> [] \<Longrightarrow> merkle_levels E level = subtree E level (tree_height (length level)) 0"
proof (induction E level rule: merkle_levels.induct)
  case (1 E level)
  show ?case
  proof (cases "length level > 1")
    case True
    then have "next_level E level \<noteq> []" by (cases level rule: remdups_adj.cases) auto
    then have "merkle_levels E level = subtree E (next_level E level) (tree_height (length (next_level E level))) 0"
      using 1 True by (subst merkle_levels.simps) simp
    also have "\<dots> = subtree E level (tree_height (length level)) 0"
      using \<open>next_level E level \<noteq> []\<close> True tree_height_step [OF True] by (simp add: subtree_next_level length_next_level del: subtree.simps)
    finally show ?thesis .
  next
    case False
    then have "length level = 1" using 1 by (cases level) auto
    then show ?thesis by (subst merkle_levels.simps) (simp add: tree_height_le_1)
  qed
qed

text \<open>
  C37. Merkle root: it exists exactly for 1 to 25,000 transaction ids, and the level-by-level loop
  computes the root of the binary hash tree of least height, an empty right subtree being replaced
  by the left one.
\<close>

theorem merkle_root_is_tree:
  "merkle_root E txids =
     (if 1 \<le> length txids \<and> length txids \<le> 25000
      then Some (subtree E txids (tree_height (length txids)) 0) else None)"
  by (cases txids) (auto simp: merkle_root_def merkle_levels_subtree MAX_TRANSACTIONS_PER_BLOCK_def)

text \<open>
  The known weakness of the duplication rule, which block validation has to live with: a list
  of three ids and the list that repeats its last one have the same root.
\<close>

theorem merkle_root_duplicate: "merkle_root E [a, b, c] = merkle_root E [a, b, c, c]"
  by (simp add: merkle_root_def MAX_TRANSACTIONS_PER_BLOCK_def merkle_levels.simps)

end
