(* ===== verification/Wire.thy ===== *)
theory Wire
  imports Prelude
begin

text \<open>
  \<open>crates/bitrst-core/src/wire.rs\<close> and the CompactSize writer of \<open>transaction.rs\<close>: a cursor over
  the input bytes, its bounded readers, and the locale \<open>codec\<close>, the contract by which every decoder of
  the repository accepts exactly the bytes its encoder writes.
\<close>

section \<open>Definitions\<close>

datatype decode_error =
    Truncated string nat nat
  | NonCanonicalCompactSize string u64
  | LimitExceeded string u64 nat
  | TrailingBytes string nat

record wire_reader =
  input_bytes :: bytes
  position :: nat

definition new_reader :: "bytes \<Rightarrow> wire_reader" where
  "new_reader bs = \<lparr>input_bytes = bs, position = 0\<rparr>"

definition remaining :: "wire_reader \<Rightarrow> nat" where
  "remaining r = length (input_bytes r) - position r"

definition read_bytes :: "nat \<Rightarrow> string \<Rightarrow> wire_reader \<Rightarrow> decode_error + bytes \<times> wire_reader" where
  "read_bytes n ctx r =
     (if remaining r < n then Inl (Truncated ctx n (remaining r))
      else
        let start = position r;
            r' = r\<lparr>position := position r + n\<rparr>
        in Inr (take (position r' - start) (drop start (input_bytes r')), r'))"

definition read_array :: "nat \<Rightarrow> string \<Rightarrow> wire_reader \<Rightarrow> decode_error + bytes \<times> wire_reader" where
  "read_array n ctx r =
     (if remaining r < n then Inl (Truncated ctx n (remaining r))
      else Inr (take n (drop (position r) (input_bytes r)), r\<lparr>position := position r + n\<rparr>))"

definition read_u32 :: "string \<Rightarrow> wire_reader \<Rightarrow> decode_error + u32 \<times> wire_reader" where
  "read_u32 ctx r = map_sum id (map_prod u32_from_le_bytes id) (read_array 4 ctx r)"

definition read_i32 :: "string \<Rightarrow> wire_reader \<Rightarrow> decode_error + i32 \<times> wire_reader" where
  "read_i32 ctx r = map_sum id (map_prod u32_from_le_bytes id) (read_array 4 ctx r)"

definition read_u64 :: "string \<Rightarrow> wire_reader \<Rightarrow> decode_error + u64 \<times> wire_reader" where
  "read_u64 ctx r = map_sum id (map_prod u64_from_le_bytes id) (read_array 8 ctx r)"

text \<open>The \<open>match\<close> on the first byte, and the minimality check after it.\<close>

definition compact_size_tail :: "string \<Rightarrow> u8 \<Rightarrow> wire_reader \<Rightarrow> decode_error + u64 \<times> wire_reader" where
  "compact_size_tail ctx first r =
     (if first \<le> 0xfc then Inr (ucast first, r)
      else
        and_then
          (if first = 0xfd then
             map_sum id (map_prod (\<lambda>bs. (ucast (u16_from_le_bytes bs), 0xfd)) id) (read_array 2 ctx r)
           else if first = 0xfe then
             map_sum id (map_prod (\<lambda>bs. (ucast (u32_from_le_bytes bs), 0x10000)) id) (read_array 4 ctx r)
           else
             map_sum id (map_prod (\<lambda>bs. (u64_from_le_bytes bs, 0x100000000)) id) (read_array 8 ctx r))
          (\<lambda>((val, minimum), r').
             if val < minimum then Inl (NonCanonicalCompactSize ctx val) else Inr (val, r')))"

definition read_compact_size :: "string \<Rightarrow> wire_reader \<Rightarrow> decode_error + u64 \<times> wire_reader" where
  "read_compact_size ctx r =
     and_then (read_array 1 ctx r) (\<lambda>(tag, r'). compact_size_tail ctx (tag ! 0) r')"

definition read_limited_len :: "string \<Rightarrow> nat \<Rightarrow> wire_reader \<Rightarrow> decode_error + nat \<times> wire_reader" where
  "read_limited_len ctx limit r =
     and_then (read_compact_size ctx r) (\<lambda>(val, r1).
       let len = unat val in
       if len > limit then Inl (LimitExceeded ctx val limit) else Inr (len, r1))"

definition finish :: "string \<Rightarrow> wire_reader \<Rightarrow> decode_error + unit" where
  "finish ctx r = (if remaining r \<noteq> 0 then Inl (TrailingBytes ctx (remaining r)) else Inr ())"

text \<open>A \<open>for _ in 0..count\<close> loop that pushes what its body reads.\<close>

fun read_many :: "(wire_reader \<Rightarrow> 'e + 'a \<times> wire_reader) \<Rightarrow> nat \<Rightarrow> wire_reader \<Rightarrow> 'e + 'a list \<times> wire_reader" where
  "read_many f 0 r = Inr ([], r)"
| "read_many f (Suc n) r =
     and_then (f r) (\<lambda>(x, r1). and_then (read_many f n r1) (\<lambda>(xs, r2). Inr (x # xs, r2)))"

definition compact_size_encoded_len :: "u64 \<Rightarrow> nat" where
  "compact_size_encoded_len v =
     (if v \<le> 0xfc then 1 else if v \<le> 0xffff then 3 else if v \<le> 0xffffffff then 5 else 9)"

definition write_compact_size :: "u64 \<Rightarrow> bytes" where
  "write_compact_size v =
     (if v \<le> 0xfc then [ucast v]
      else if v \<le> 0xffff then 0xfd # u16_to_le_bytes (ucast v)
      else if v \<le> 0xffffffff then 0xfe # u32_to_le_bytes (ucast v)
      else 0xff # u64_to_le_bytes v)"

section \<open>The cursor\<close>

definition rest :: "wire_reader \<Rightarrow> bytes" where
  "rest r = drop (position r) (input_bytes r)"

definition advance :: "nat \<Rightarrow> wire_reader \<Rightarrow> wire_reader" where
  "advance n r = r\<lparr>position := position r + n\<rparr>"

lemma remaining_rest: "remaining r = length (rest r)"
  by (simp add: remaining_def rest_def)

lemma rest_advance [simp]: "rest (advance n r) = drop n (rest r)"
  by (simp add: rest_def advance_def add.commute)

lemma advance_advance [simp]: "advance m (advance n r) = advance (n + m) r"
  by (simp add: advance_def add.assoc)

lemma advance_0 [simp]: "advance 0 r = r"
  by (simp add: advance_def)

lemma rest_new_reader [simp]: "rest (new_reader bs) = bs"
  by (simp add: rest_def new_reader_def)

text \<open>The unread input starts with the bytes \<open>w\<close>.\<close>

definition starts :: "wire_reader \<Rightarrow> bytes \<Rightarrow> bool" where
  "starts r w \<longleftrightarrow> take (length w) (rest r) = w"

lemma starts_iff: "starts r w \<longleftrightarrow> (\<exists>ys. rest r = w @ ys)"
  by (auto simp: starts_def) (metis append_take_drop_id)

lemma starts_Nil [simp]: "starts r []"
  by (simp add: starts_def)

lemma starts_append: "starts r (u @ v) \<longleftrightarrow> starts r u \<and> starts (advance (length u) r) v"
  unfolding starts_iff by (auto simp: append_eq_conv_conj)

lemma starts_Cons: "starts r (b # v) \<longleftrightarrow> starts r [b] \<and> starts (advance 1 r) v"
  using starts_append [of r "[b]" v] by simp

lemma whole_input: "bs = w \<longleftrightarrow> starts (new_reader bs) w \<and> length bs \<le> length w"
  by (auto simp: starts_def)

lemma starts_same_length:
  "length v = length w \<Longrightarrow> starts r v \<Longrightarrow> starts r w \<Longrightarrow> v = w"
  by (simp add: starts_def)

lemma read_bytes_Inr_iff:
  "read_bytes n ctx r = Inr (x, r') \<longleftrightarrow> length x = n \<and> starts r x \<and> r' = advance n r"
proof -
  have "read_bytes n ctx r = (if length (rest r) < n then Inl (Truncated ctx n (remaining r))
      else Inr (take n (rest r), advance n r))"
    by (simp add: read_bytes_def remaining_rest Let_def rest_def advance_def)
  then show ?thesis by (auto simp: not_less starts_def)
qed

lemma read_array_eq_read_bytes: "read_array n ctx r = read_bytes n ctx r"
  by (simp add: read_array_def read_bytes_def Let_def)

lemma finish_Inr_iff [simp]: "finish ctx r = Inr u \<longleftrightarrow> rest r = []"
  by (simp add: finish_def remaining_rest)

section \<open>The contract of a decoder\<close>

text \<open>
  \<open>read\<close> succeeds exactly when the unread input starts with the encoding of a valid value; it
  returns that value and leaves the cursor right after the encoding.
\<close>

locale codec =
  fixes read :: "wire_reader \<Rightarrow> 'e + 'a \<times> wire_reader"
    and encode :: "'a \<Rightarrow> bytes"
    and valid :: "'a \<Rightarrow> bool"
  assumes read_iff: "read r = Inr (x, r') \<longleftrightarrow>
    valid x \<and> starts r (encode x) \<and> r' = advance (length (encode x)) r"
begin

lemma read_encode:
  "valid x \<Longrightarrow> rest r = encode x @ ys \<Longrightarrow> \<exists>r'. read r = Inr (x, r') \<and> rest r' = ys"
  by (simp add: read_iff starts_def)

text \<open>A loop of \<open>n\<close> reads.\<close>

lemma read_many_iff:
  "read_many read n r = Inr (xs, r') \<longleftrightarrow>
     length xs = n \<and> list_all valid xs \<and> starts r (concat (map encode xs)) \<and>
     r' = advance (length (concat (map encode xs))) r"
proof (induction n arbitrary: r xs)
  case 0
  then show ?case by auto
next
  case (Suc n)
  show ?case
  proof (cases xs)
    case Nil
    then show ?thesis by (auto simp: and_then_Inr_iff)
  next
    case (Cons x ys)
    then show ?thesis
      by (auto simp: and_then_Inr_iff read_iff Suc.IH starts_append)
  qed
qed

text \<open>A complete top-level value: read from a fresh cursor, then \<open>finish\<close>.\<close>

lemma read_finish_iff:
  "and_then (read (new_reader bs)) (\<lambda>(y, r). and_then (map_err f (finish ctx r)) (\<lambda>_. Inr y)) = Inr x \<longleftrightarrow>
     valid x \<and> bs = encode x"
  by (auto simp: and_then_Inr_iff read_iff starts_def)

end

section \<open>The primitive codecs\<close>

lemma read_word_Inr_iff:
  "map_sum id (map_prod from id) (read_array n ctx r) = Inr (x, r') \<longleftrightarrow>
     (\<exists>bs. length bs = n \<and> from bs = x \<and> starts r bs \<and> r' = advance n r)"
proof -
  have "map_sum id (map_prod from id) (read_bytes n ctx r) = Inr (x, r') \<longleftrightarrow>
      (\<exists>bs. read_bytes n ctx r = Inr (bs, r') \<and> from bs = x)"
    by (cases "read_bytes n ctx r") auto
  then show ?thesis unfolding read_array_eq_read_bytes read_bytes_Inr_iff by auto
qed

lemma ex_bytes_iff:
  "(\<exists>bs. length bs = 2 \<and> u16_from_le_bytes bs = a \<and> P bs) \<longleftrightarrow> P (u16_to_le_bytes a)"
  "(\<exists>bs. length bs = 4 \<and> u32_from_le_bytes bs = b \<and> Q bs) \<longleftrightarrow> Q (u32_to_le_bytes b)"
  "(\<exists>bs. length bs = 8 \<and> u64_from_le_bytes bs = c \<and> R bs) \<longleftrightarrow> R (u64_to_le_bytes c)"
  by (metis from_le_to_le length_to_le_bytes to_le_from_le)+

interpretation u32_codec: codec "read_u32 ctx" u32_to_le_bytes "\<lambda>_. True"
  by unfold_locales (simp add: read_u32_def read_word_Inr_iff ex_bytes_iff)

interpretation i32_codec: codec "read_i32 ctx" u32_to_le_bytes "\<lambda>_. True"
  by unfold_locales (simp add: read_i32_def read_word_Inr_iff ex_bytes_iff)

interpretation u64_codec: codec "read_u64 ctx" u64_to_le_bytes "\<lambda>_. True"
  by unfold_locales (simp add: read_u64_def read_word_Inr_iff ex_bytes_iff)

interpretation bytes_codec: codec "read_bytes n ctx" id "\<lambda>x. length x = n"
  by unfold_locales (auto simp: read_bytes_Inr_iff)

section \<open>CompactSize\<close>

lemma u8_cases: 
  obtains "(b :: u8) \<le> 0xfc" | "b = 0xfd" | "b = 0xfe" | "b = 0xff"
proof -
  have "unat b \<le> 252 \<or> unat b = 253 \<or> unat b = 254 \<or> unat b = 255" using unat_u8_lt [of b] by linarith
  then show thesis
  proof (elim disjE)
    assume "unat b \<le> 252" then show thesis using that(1) by (simp add: word_le_nat_alt)
  next
    assume "unat b = 253" then show thesis using that(2) by (simp add: word_unat_eq_iff)
  next
    assume "unat b = 254" then show thesis using that(3) by (simp add: word_unat_eq_iff)
  next
    assume "unat b = 255" then show thesis using that(4) by (simp add: word_unat_eq_iff unat_minus_1)
  qed
qed

lemma narrow:
  "(ucast (a :: u8) :: u64) = v \<longleftrightarrow> unat v < 2 ^ 8 \<and> a = ucast v"
  "(ucast (b :: u16) :: u64) = v \<longleftrightarrow> unat v < 2 ^ 16 \<and> b = ucast v"
  "(ucast (c :: u32) :: u64) = v \<longleftrightarrow> unat v < 2 ^ 32 \<and> c = ucast v"
  using unat_lt [of a] unat_lt [of b] unat_lt [of c]
  by (auto simp: word_unat_eq_iff unat_ucast_mod)

lemma ex_bytes_widen_iff:
  "(\<exists>bs. length bs = 2 \<and> (ucast (u16_from_le_bytes bs) :: u64) = x \<and> P bs) \<longleftrightarrow>
     unat x < 2 ^ 16 \<and> P (u16_to_le_bytes (ucast x))"
  "(\<exists>bs. length bs = 4 \<and> (ucast (u32_from_le_bytes bs) :: u64) = x \<and> P bs) \<longleftrightarrow>
     unat x < 2 ^ 32 \<and> P (u32_to_le_bytes (ucast x))"
  unfolding narrow
  using ex_bytes_iff(1) [of "ucast x" "\<lambda>bs. unat x < 2 ^ 16 \<and> P bs"]
    ex_bytes_iff(2) [of "ucast x" "\<lambda>bs. unat x < 2 ^ 32 \<and> P bs"]
  by blast+

lemma read_payload_iff:
  "and_then (map_sum id (map_prod (\<lambda>bs. (f bs, m)) id) (read_array n ctx r))
      (\<lambda>((val, minimum), r'). if val < minimum then Inl (NonCanonicalCompactSize ctx val) else Inr (val, r'))
     = Inr (x, r') \<longleftrightarrow>
   m \<le> x \<and> (\<exists>bs. length bs = n \<and> f bs = x \<and> starts r bs \<and> r' = advance n r)"
proof -
  have "map_sum id (map_prod (\<lambda>bs. (f bs, m)) id) (read_array n ctx r) = Inr ((v, k), r'') \<longleftrightarrow>
      (\<exists>bs. length bs = n \<and> f bs = v \<and> m = k \<and> starts r bs \<and> r'' = advance n r)" for v k r''
    by (subst read_word_Inr_iff) auto
  then show ?thesis by (auto simp: and_then_Inr_iff not_less split: if_splits)
qed

lemma compact_size_tail_iff:
  "compact_size_tail ctx b r = Inr (x, r') \<longleftrightarrow>
     (b \<le> 0xfc \<and> x = ucast b \<and> r' = r \<or>
      b = 0xfd \<and> 0xfd \<le> x \<and> unat x < 2 ^ 16 \<and> starts r (u16_to_le_bytes (ucast x)) \<and> r' = advance 2 r \<or>
      b = 0xfe \<and> 0x10000 \<le> x \<and> unat x < 2 ^ 32 \<and> starts r (u32_to_le_bytes (ucast x)) \<and> r' = advance 4 r \<or>
      b = 0xff \<and> 0x100000000 \<le> x \<and> starts r (u64_to_le_bytes x) \<and> r' = advance 8 r)"
proof (cases b rule: u8_cases)
  case 1
  then have "b \<noteq> 0xfd" "b \<noteq> 0xfe" "b \<noteq> 0xff" by auto
  with 1 show ?thesis by (auto simp: compact_size_tail_def)
next
  case 2
  then show ?thesis
    by (simp add: compact_size_tail_def read_payload_iff ex_bytes_widen_iff ex_bytes_iff)
next
  case 3
  then show ?thesis
    by (simp add: compact_size_tail_def read_payload_iff ex_bytes_widen_iff ex_bytes_iff)
next
  case 4
  then show ?thesis
    by (simp add: compact_size_tail_def read_payload_iff ex_bytes_widen_iff ex_bytes_iff)
qed

lemma write_compact_size_cases:
  obtains "unat x \<le> 0xfc" "write_compact_size x = [ucast x]"
  | "0xfd \<le> x" "unat x < 2 ^ 16" "write_compact_size x = 0xfd # u16_to_le_bytes (ucast x)"
  | "0x10000 \<le> x" "unat x < 2 ^ 32" "write_compact_size x = 0xfe # u32_to_le_bytes (ucast x)"
  | "0x100000000 \<le> x" "write_compact_size x = 0xff # u64_to_le_bytes x"
  by (cases "x \<le> 0xfc"; cases "x \<le> 0xffff"; cases "x \<le> 0xffffffff")
    (auto simp: write_compact_size_def word_le_nat_alt)

lemma read_compact_size_iff:
  "read_compact_size ctx r = Inr (x, r') \<longleftrightarrow>
     (\<exists>b. starts r [b] \<and> compact_size_tail ctx b (advance 1 r) = Inr (x, r'))"
  unfolding read_compact_size_def and_then_Inr_iff read_array_eq_read_bytes
  by (auto simp: read_bytes_Inr_iff length_Suc_conv)

lemma starts_tag:
  "(\<exists>b. starts r [b] \<and> b = t \<and> starts (advance 1 r) w \<and> r' = advance (length w) (advance 1 r)) \<longleftrightarrow>
     starts r (t # w) \<and> r' = advance (length (t # w)) r"
  using starts_Cons [of r t w] by auto

lemma small_tag: "unat x \<le> 0xfc \<Longrightarrow> b \<le> 0xfc \<and> x = ucast b \<longleftrightarrow> b = ucast x"
  for b :: u8 and x :: u64
  by (auto simp: word_unat_eq_iff word_le_nat_alt unat_ucast_mod)

lemma large_tag: "0xfd \<le> x \<Longrightarrow> \<not> (b \<le> 0xfc \<and> x = ucast b)"
  for b :: u8 and x :: u64
  by (auto simp: word_le_nat_alt)

interpretation compact_size_codec: codec "read_compact_size ctx" write_compact_size "\<lambda>_. True"
proof unfold_locales
  fix r x r'
  note iffs = read_compact_size_iff compact_size_tail_iff
  have "read_compact_size ctx r = Inr (x, r') \<longleftrightarrow>
      starts r (write_compact_size x) \<and> r' = advance (length (write_compact_size x)) r"
  proof (cases x rule: write_compact_size_cases)
    case 1
    then have "\<not> 0xfd \<le> x" "\<not> 0x10000 \<le> x" "\<not> 0x100000000 \<le> x"
      by (simp_all add: word_le_nat_alt)
    then have "read_compact_size ctx r = Inr (x, r') \<longleftrightarrow>
        (\<exists>b. starts r [b] \<and> b = ucast x \<and> starts (advance 1 r) [] \<and> r' = advance (length []) (advance 1 r))"
      using small_tag [OF 1(1)] unfolding iffs by (simp, metis)
    then show ?thesis unfolding 1(2) by (rule trans [OF _ starts_tag])
  next
    case 2
    have "\<not> 0x10000 \<le> x" "\<not> 0x100000000 \<le> x" using 2 by (simp_all add: word_le_nat_alt)
    then have "read_compact_size ctx r = Inr (x, r') \<longleftrightarrow>
        (\<exists>b. starts r [b] \<and> b = 0xfd \<and> starts (advance 1 r) (u16_to_le_bytes (ucast x)) \<and>
           r' = advance (length (u16_to_le_bytes (ucast x))) (advance 1 r))"
      using large_tag 2(1,2) unfolding iffs length_to_le_bytes by blast
    then show ?thesis unfolding 2(3) by (rule trans [OF _ starts_tag])
  next
    case 3
    have "0xfd \<le> x" "\<not> unat x < 2 ^ 16" "\<not> 0x100000000 \<le> x" using 3 by (simp_all add: word_le_nat_alt)
    then have "read_compact_size ctx r = Inr (x, r') \<longleftrightarrow>
        (\<exists>b. starts r [b] \<and> b = 0xfe \<and> starts (advance 1 r) (u32_to_le_bytes (ucast x)) \<and>
           r' = advance (length (u32_to_le_bytes (ucast x))) (advance 1 r))"
      using large_tag 3(1,2) unfolding iffs length_to_le_bytes by blast
    then show ?thesis unfolding 3(3) by (rule trans [OF _ starts_tag])
  next
    case 4
    have "0xfd \<le> x" "\<not> unat x < 2 ^ 16" "\<not> unat x < 2 ^ 32" using 4 by (simp_all add: word_le_nat_alt)
    then have "read_compact_size ctx r = Inr (x, r') \<longleftrightarrow>
        (\<exists>b. starts r [b] \<and> b = 0xff \<and> starts (advance 1 r) (u64_to_le_bytes x) \<and>
           r' = advance (length (u64_to_le_bytes x)) (advance 1 r))"
      using large_tag 4(1) unfolding iffs length_to_le_bytes by blast
    then show ?thesis unfolding 4(2) by (rule trans [OF _ starts_tag])
  qed
  then show "read_compact_size ctx r = Inr (x, r') \<longleftrightarrow>
      True \<and> starts r (write_compact_size x) \<and> r' = advance (length (write_compact_size x)) r"
    by simp
qed

lemma length_write_compact_size: "length (write_compact_size v) = compact_size_encoded_len v"
  by (simp add: write_compact_size_def compact_size_encoded_len_def)

text \<open>A length below its limit, and the vector of bytes that follows it.\<close>

interpretation limited_len_codec: codec "read_limited_len ctx limit" "\<lambda>n. write_compact_size (of_nat n)"
  "\<lambda>n. n \<le> limit \<and> n < 2 ^ 64"
proof unfold_locales
  fix r :: wire_reader and n :: nat and r'
  have "read_limited_len ctx limit r = Inr (n, r') \<longleftrightarrow>
      (\<exists>v. read_compact_size ctx r = Inr (v, r') \<and> unat v = n \<and> n \<le> limit)"
    by (auto simp: read_limited_len_def and_then_Inr_iff Let_def not_less split: if_splits)
  also have "\<dots> \<longleftrightarrow> n \<le> limit \<and> n < 2 ^ 64 \<and> read_compact_size ctx r = Inr (of_nat n, r')"
    using unat_lt [where 'a = 64] by (auto simp: unat_of_nat)
  finally show "read_limited_len ctx limit r = Inr (n, r') \<longleftrightarrow>
      (n \<le> limit \<and> n < 2 ^ 64) \<and> starts r (write_compact_size (of_nat n)) \<and>
      r' = advance (length (write_compact_size (of_nat n))) r"
    by (simp add: compact_size_codec.read_iff)
qed

end
