(* ===== verification/Transaction.thy ===== *)
theory Transaction
  imports Merkle Wire
begin

text \<open>
  \<open>crates/bitrst-core/src/transaction.rs\<close>: transactions, their wire format and their identifiers.  The
  decoder and the encoder are related by an interpretation of \<open>codec\<close>: a byte string decodes to a
  transaction exactly when it is the encoding of that transaction, which is within the limits.
\<close>

section \<open>Definitions\<close>

record tx_input =
  previous_output :: hash32
  prev_index :: u32
  script_sig :: bytes
  sequence_no :: u32

record tx_output =
  out_value :: u64
  script_pubkey :: bytes

record transaction =
  tx_version :: i32
  inputs :: "tx_input list"
  outputs :: "tx_output list"
  lock_time :: u32

definition coinbase_tx :: "u32 \<Rightarrow> u64 \<Rightarrow> transaction" where
  "coinbase_tx height reward = \<lparr>
     tx_version = 1,
     inputs = [\<lparr>previous_output = replicate 32 0, prev_index = - 1,
                script_sig = u32_to_le_bytes height, sequence_no = - 1\<rparr>],
     outputs = [\<lparr>out_value = reward, script_pubkey = []\<rparr>],
     lock_time = 0\<rparr>"

definition serialize_input :: "tx_input \<Rightarrow> bytes" where
  "serialize_input i =
     previous_output i @ u32_to_le_bytes (prev_index i) @
     write_compact_size (of_nat (length (script_sig i))) @ script_sig i @
     u32_to_le_bytes (sequence_no i)"

definition serialize_output :: "tx_output \<Rightarrow> bytes" where
  "serialize_output out =
     u64_to_le_bytes (out_value out) @
     write_compact_size (of_nat (length (script_pubkey out))) @ script_pubkey out"

definition serialize_tx :: "transaction \<Rightarrow> bytes" where
  "serialize_tx tx =
     u32_to_le_bytes (tx_version tx) @
     write_compact_size (of_nat (length (inputs tx))) @ concat (map serialize_input (inputs tx)) @
     write_compact_size (of_nat (length (outputs tx))) @ concat (map serialize_output (outputs tx)) @
     u32_to_le_bytes (lock_time tx)"

definition read_input :: "wire_reader \<Rightarrow> decode_error + tx_input \<times> wire_reader" where
  "read_input r =
     and_then (read_bytes 32 ''previous output hash'' r) (\<lambda>(prev, r).
     and_then (read_u32 ''previous output index'' r) (\<lambda>(idx, r).
     and_then (read_limited_len ''scriptSig'' MAX_SCRIPT_SIZE r) (\<lambda>(script_len, r).
     and_then (read_bytes script_len ''scriptSig'' r) (\<lambda>(script, r).
     and_then (read_u32 ''input sequence'' r) (\<lambda>(sq, r).
       Inr (\<lparr>previous_output = prev, prev_index = idx, script_sig = script, sequence_no = sq\<rparr>, r))))))"

definition read_output :: "wire_reader \<Rightarrow> decode_error + tx_output \<times> wire_reader" where
  "read_output r =
     and_then (read_u64 ''output value'' r) (\<lambda>(v, r).
     and_then (read_limited_len ''scriptPubKey'' MAX_SCRIPT_SIZE r) (\<lambda>(script_len, r).
     and_then (read_bytes script_len ''scriptPubKey'' r) (\<lambda>(script, r).
       Inr (\<lparr>out_value = v, script_pubkey = script\<rparr>, r))))"

definition decode_tx_from :: "wire_reader \<Rightarrow> decode_error + transaction \<times> wire_reader" where
  "decode_tx_from r =
     and_then (read_i32 ''transaction version'' r) (\<lambda>(ver, r).
     and_then (read_limited_len ''transaction input count'' MAX_TRANSACTION_INPUTS r) (\<lambda>(input_count, r).
     and_then (read_many read_input input_count r) (\<lambda>(ins, r).
     and_then (read_limited_len ''transaction output count'' MAX_TRANSACTION_OUTPUTS r) (\<lambda>(output_count, r).
     and_then (read_many read_output output_count r) (\<lambda>(outs, r).
     and_then (read_u32 ''transaction locktime'' r) (\<lambda>(lt, r).
       Inr (\<lparr>tx_version = ver, inputs = ins, outputs = outs, lock_time = lt\<rparr>, r)))))))"

definition deserialize_tx :: "bytes \<Rightarrow> decode_error + transaction" where
  "deserialize_tx bs =
     (if length bs > MAX_TRANSACTION_SERIALIZED_SIZE then
        Inl (LimitExceeded ''transaction size'' (of_nat (length bs)) MAX_TRANSACTION_SERIALIZED_SIZE)
      else
        and_then (decode_tx_from (new_reader bs)) (\<lambda>(tx, r).
        and_then (finish ''transaction'' r) (\<lambda>_. Inr tx)))"

definition tx_serialized_size :: "transaction \<Rightarrow> nat" where
  "tx_serialized_size tx =
     4 + compact_size_encoded_len (of_nat (length (inputs tx)))
       + sum_list (map (\<lambda>input. 32 + 4 + compact_size_encoded_len (of_nat (length (script_sig input)))
                                + length (script_sig input) + 4) (inputs tx))
       + compact_size_encoded_len (of_nat (length (outputs tx)))
       + sum_list (map (\<lambda>output. 8 + compact_size_encoded_len (of_nat (length (script_pubkey output)))
                                 + length (script_pubkey output)) (outputs tx))
       + 4"

definition txid :: "env \<Rightarrow> transaction \<Rightarrow> hash32" where
  "txid E tx = sha256d E (serialize_tx tx)"

section \<open>Well-formedness\<close>

text \<open>
  \<open>shaped_tx\<close> is what the Rust types give (a 32-byte hash in every input); \<open>valid_tx\<close> adds the limits of
  the decoder.
\<close>

definition shaped_tx :: "transaction \<Rightarrow> bool" where
  "shaped_tx tx \<longleftrightarrow> list_all (\<lambda>i. length (previous_output i) = 32) (inputs tx)"

definition valid_input :: "tx_input \<Rightarrow> bool" where
  "valid_input i \<longleftrightarrow> length (previous_output i) = 32 \<and> length (script_sig i) \<le> MAX_SCRIPT_SIZE"

definition valid_output :: "tx_output \<Rightarrow> bool" where
  "valid_output out \<longleftrightarrow> length (script_pubkey out) \<le> MAX_SCRIPT_SIZE"

definition valid_tx :: "transaction \<Rightarrow> bool" where
  "valid_tx tx \<longleftrightarrow>
     list_all valid_input (inputs tx) \<and> length (inputs tx) \<le> MAX_TRANSACTION_INPUTS \<and>
     list_all valid_output (outputs tx) \<and> length (outputs tx) \<le> MAX_TRANSACTION_OUTPUTS"

lemmas limit_defs = MAX_SCRIPT_SIZE_def MAX_TRANSACTION_INPUTS_def MAX_TRANSACTION_OUTPUTS_def
  MAX_TRANSACTIONS_PER_BLOCK_def MAX_TRANSACTION_SERIALIZED_SIZE_def MAX_BLOCK_SERIALIZED_SIZE_def

section \<open>Encoding and decoding\<close>

lemmas prim_read_iffs = bytes_codec.read_iff u32_codec.read_iff i32_codec.read_iff u64_codec.read_iff
  limited_len_codec.read_iff

interpretation input_codec: codec read_input serialize_input valid_input
proof unfold_locales
  fix r x r'
  show "read_input r = Inr (x, r') \<longleftrightarrow>
      valid_input x \<and> starts r (serialize_input x) \<and> r' = advance (length (serialize_input x)) r"
    by (cases x) (auto simp: read_input_def and_then_Inr_iff prim_read_iffs serialize_input_def
        valid_input_def starts_append limit_defs add.assoc)
qed

interpretation output_codec: codec read_output serialize_output valid_output
proof unfold_locales
  fix r x r'
  show "read_output r = Inr (x, r') \<longleftrightarrow>
      valid_output x \<and> starts r (serialize_output x) \<and> r' = advance (length (serialize_output x)) r"
    by (cases x) (auto simp: read_output_def and_then_Inr_iff prim_read_iffs serialize_output_def
        valid_output_def starts_append limit_defs add.assoc)
qed

interpretation tx_codec: codec decode_tx_from serialize_tx valid_tx
proof unfold_locales
  fix r x r'
  show "decode_tx_from r = Inr (x, r') \<longleftrightarrow>
      valid_tx x \<and> starts r (serialize_tx x) \<and> r' = advance (length (serialize_tx x)) r"
    by (cases x) (auto simp: decode_tx_from_def and_then_Inr_iff prim_read_iffs serialize_tx_def
        input_codec.read_many_iff output_codec.read_many_iff
        valid_tx_def starts_append limit_defs add.assoc)
qed

lemma length_serialize_tx:
  "shaped_tx tx \<Longrightarrow> length (serialize_tx tx) = tx_serialized_size tx"
proof -
  assume "shaped_tx tx"
  then have ins: "length (concat (map serialize_input (inputs tx))) =
      sum_list (map (\<lambda>input. 32 + 4 + compact_size_encoded_len (of_nat (length (script_sig input)))
                              + length (script_sig input) + 4) (inputs tx))"
    unfolding sum_list_concat_map_length
    by (intro arg_cong [where f = sum_list] map_cong refl)
      (auto simp: shaped_tx_def list_all_iff serialize_input_def length_write_compact_size)
  have outs: "length (concat (map serialize_output (outputs tx))) =
      sum_list (map (\<lambda>output. 8 + compact_size_encoded_len (of_nat (length (script_pubkey output)))
                               + length (script_pubkey output)) (outputs tx))"
    unfolding sum_list_concat_map_length
    by (intro arg_cong [where f = sum_list] map_cong refl)
      (simp add: serialize_output_def length_write_compact_size)
  show ?thesis
    using ins outs by (simp add: serialize_tx_def tx_serialized_size_def length_write_compact_size)
qed

lemma valid_shaped_tx: "valid_tx tx \<Longrightarrow> shaped_tx tx"
  by (simp add: valid_tx_def shaped_tx_def valid_input_def list_all_iff)

lemma deserialize_tx_Inr_iff:
  "deserialize_tx bs = Inr tx \<longleftrightarrow>
     bs = serialize_tx tx \<and> valid_tx tx \<and> length bs \<le> MAX_TRANSACTION_SERIALIZED_SIZE"
  using tx_codec.read_finish_iff [where f = id and bs = bs and ctx = "''transaction''" and x = tx]
  by (auto simp: deserialize_tx_def map_err_id)

text \<open>
  C24. Transaction wire format: a byte string decodes to a transaction exactly when it is the encoding of
  that transaction, every hash has 32 bytes, scripts and counts are within their limits and the
  whole is at most 4,000,000 bytes; so decoding inverts encoding, every truncation, trailing
  byte and non-canonical length is rejected, and two encodings never decode to the same transaction.
  \<open>serialized_size\<close> is the length of the encoding.
\<close>

theorem deserialize_tx_iff:
  "(deserialize_tx bs = Inr tx \<longleftrightarrow>
     bs = serialize_tx tx \<and> list_all valid_input (inputs tx) \<and> length (inputs tx) \<le> 25000 \<and>
     list_all valid_output (outputs tx) \<and> length (outputs tx) \<le> 25000 \<and> tx_serialized_size tx \<le> 4000000)"
  using deserialize_tx_Inr_iff [of bs tx] length_serialize_tx [OF valid_shaped_tx, of tx]
  by (auto simp: valid_tx_def limit_defs)

lemma shaped_coinbase_tx [simp]: "shaped_tx (coinbase_tx height reward)"
  by (simp add: shaped_tx_def coinbase_tx_def)

lemma valid_coinbase_tx [simp]: "valid_tx (coinbase_tx height reward)"
  by (simp add: valid_tx_def coinbase_tx_def valid_input_def valid_output_def limit_defs)

lemma tx_serialized_size_coinbase [simp]: "tx_serialized_size (coinbase_tx height reward) = 64"
  by (simp add: tx_serialized_size_def coinbase_tx_def compact_size_encoded_len_def)

end
