(* ===== verification/Sighash.thy ===== *)
theory Sighash
  imports Transaction
begin

text \<open>
  \<open>crates/bitrst-core/src/sighash.rs\<close>: the legacy \<open>SIGHASH_ALL\<close> digest that an input signature commits to.
\<close>

definition SIGHASH_ALL :: u32 where
  "SIGHASH_ALL = 1"

datatype sighash_error = InputIndexOutOfRange | PrevScriptCountMismatch

text \<open>One turn of the loop over the inputs: only the signed input carries a script.\<close>

definition sighash_input :: "nat \<Rightarrow> bytes list \<Rightarrow> nat \<times> tx_input \<Rightarrow> bytes" where
  "sighash_input input_index prev_script_pubkeys entry =
     (case entry of (i, input) \<Rightarrow>
        let script = (if i = input_index then prev_script_pubkeys ! i else []) in
        previous_output input @ u32_to_le_bytes (prev_index input) @
        write_compact_size (of_nat (length script)) @ script @
        u32_to_le_bytes (sequence_no input))"

definition sighash_preimage :: "transaction \<Rightarrow> nat \<Rightarrow> bytes list \<Rightarrow> bytes" where
  "sighash_preimage tx input_index prev_script_pubkeys =
     u32_to_le_bytes (tx_version tx) @
     write_compact_size (of_nat (length (inputs tx))) @
     concat (map (sighash_input input_index prev_script_pubkeys) (enumerate 0 (inputs tx))) @
     write_compact_size (of_nat (length (outputs tx))) @
     concat (map (\<lambda>output. u64_to_le_bytes (out_value output) @
                    write_compact_size (of_nat (length (script_pubkey output))) @ script_pubkey output)
              (outputs tx)) @
     u32_to_le_bytes (lock_time tx) @
     u32_to_le_bytes SIGHASH_ALL"

definition sighash_all :: "env \<Rightarrow> transaction \<Rightarrow> nat \<Rightarrow> bytes list \<Rightarrow> sighash_error + hash32" where
  "sighash_all E tx input_index prev_script_pubkeys =
     (if input_index \<ge> length (inputs tx) then Inl InputIndexOutOfRange
      else if length prev_script_pubkeys \<noteq> length (inputs tx) then Inl PrevScriptCountMismatch
      else Inr (sha256d E (sighash_preimage tx input_index prev_script_pubkeys)))"

section \<open>What a signature commits to\<close>

text \<open>
  The preimage is the wire encoding of the transaction whose scripts are emptied, except that of
  the signed input which becomes the script it spends, followed by the hash type.
\<close>

definition signed_form :: "transaction \<Rightarrow> nat \<Rightarrow> bytes \<Rightarrow> transaction" where
  "signed_form tx k script =
     tx\<lparr>inputs := map (\<lambda>(i, input). input\<lparr>script_sig := if i = k then script else []\<rparr>) (enumerate 0 (inputs tx))\<rparr>"

lemma sighash_preimage_signed_form:
  "sighash_preimage tx k scripts = serialize_tx (signed_form tx k (scripts ! k)) @ u32_to_le_bytes SIGHASH_ALL"
proof -
  have "map (sighash_input k scripts) (enumerate 0 (inputs tx)) =
      map serialize_input (inputs (signed_form tx k (scripts ! k)))"
    by (auto simp: sighash_input_def signed_form_def serialize_input_def Let_def)
  moreover have "(\<lambda>output. u64_to_le_bytes (out_value output) @
                    write_compact_size (of_nat (length (script_pubkey output))) @ script_pubkey output)
      = serialize_output"
    by (simp add: serialize_output_def fun_eq_iff)
  ultimately show ?thesis
    by (simp add: sighash_preimage_def serialize_tx_def) (simp add: signed_form_def)
qed

lemma prefix_free_tx:
  assumes "valid_tx t" "valid_tx u" "serialize_tx t @ v = serialize_tx u @ w"
  shows "t = u \<and> v = w"
proof -
  let ?r = "new_reader (serialize_tx t @ v)"
  have "decode_tx_from ?r = Inr (t, advance (length (serialize_tx t)) ?r)"
    using assms(1) by (simp add: tx_codec.read_iff starts_def)
  moreover have "decode_tx_from ?r = Inr (u, advance (length (serialize_tx u)) ?r)"
    unfolding assms(3) using assms(2) by (simp add: tx_codec.read_iff starts_def)
  ultimately have "t = u" by simp
  then show ?thesis using assms(3) by simp
qed

lemma valid_signed_form: "valid_tx tx \<Longrightarrow> length script \<le> MAX_SCRIPT_SIZE \<Longrightarrow> valid_tx (signed_form tx k script)"
  by (auto simp: valid_tx_def signed_form_def valid_input_def list_all_iff in_set_enumerate_eq)

lemma signed_form_fields:
  "map previous_output (inputs (signed_form tx k s)) = map previous_output (inputs tx)"
  "map prev_index (inputs (signed_form tx k s)) = map prev_index (inputs tx)"
  "map sequence_no (inputs (signed_form tx k s)) = map sequence_no (inputs tx)"
  "length (inputs (signed_form tx k s)) = length (inputs tx)"
  by (simp_all add: signed_form_def list_eq_iff_nth_eq nth_enumerate_eq)

lemma script_sig_signed_form:
  "i < length (inputs tx) \<Longrightarrow> script_sig (inputs (signed_form tx k s) ! i) = (if i = k then s else [])"
  by (simp add: signed_form_def nth_enumerate_eq)

text \<open>
  C36. Commitment of the signature hash: for transactions within the wire limits, the bytes hashed for an
  input determine everything but the unlocking scripts - version, lock time, every
  outpoint and sequence number, every output - and the index and locking script of the signed input.
\<close>

theorem sighash_commits:
  assumes "valid_tx tx" "valid_tx tx'" "k < length (inputs tx)" "k' < length (inputs tx')"
    and "length (scripts ! k) \<le> 10000" "length (scripts' ! k') \<le> 10000" "scripts ! k \<noteq> []"
    and "sighash_preimage tx k scripts = sighash_preimage tx' k' scripts'"
  shows "tx_version tx = tx_version tx' \<and> lock_time tx = lock_time tx' \<and> outputs tx = outputs tx' \<and>
    map previous_output (inputs tx) = map previous_output (inputs tx') \<and>
    map prev_index (inputs tx) = map prev_index (inputs tx') \<and>
    map sequence_no (inputs tx) = map sequence_no (inputs tx') \<and>
    k = k' \<and> scripts ! k = scripts' ! k'"
proof -
  let ?f = "signed_form tx k (scripts ! k)" and ?g = "signed_form tx' k' (scripts' ! k')"
  have "valid_tx ?f" "valid_tx ?g"
    using assms by (auto intro!: valid_signed_form simp: MAX_SCRIPT_SIZE_def)
  then have eq: "?f = ?g"
    using assms(8) prefix_free_tx unfolding sighash_preimage_signed_form by blast
  have ins: "inputs ?f = inputs ?g" using eq by simp
  have sigs: "script_sig (inputs ?f ! k) = script_sig (inputs ?g ! k)" and len: "length (inputs tx) = length (inputs tx')"
    using ins signed_form_fields(4) by metis+
  have "k = k'"
    using sigs assms(3,4,7) len by (simp add: script_sig_signed_form split: if_splits)
  moreover have "scripts ! k = scripts' ! k'"
    using sigs assms(3,4) len \<open>k = k'\<close> by (simp add: script_sig_signed_form)
  moreover have "map previous_output (inputs tx) = map previous_output (inputs tx')"
    "map prev_index (inputs tx) = map prev_index (inputs tx')"
    "map sequence_no (inputs tx) = map sequence_no (inputs tx')"
    using ins signed_form_fields by metis+
  moreover have "tx_version ?f = tx_version ?g" "lock_time ?f = lock_time ?g" "outputs ?f = outputs ?g"
    using eq by simp_all
  ultimately show ?thesis by (simp add: signed_form_def)
qed

definition sample_tx :: transaction where
  "sample_tx = \<lparr>tx_version = 1,
     inputs = [\<lparr>previous_output = replicate 32 7, prev_index = 0, script_sig = [], sequence_no = 0\<rparr>],
     outputs = [\<lparr>out_value = 90, script_pubkey = [0x51]\<rparr>], lock_time = 0\<rparr>"

theorem sighash_commits_witness:
  "outputs sample_tx = outputs (sample_tx\<lparr>inputs := map (script_sig_update (\<lambda>_. [1])) (inputs sample_tx)\<rparr>)"
  using sighash_commits [of sample_tx "sample_tx\<lparr>inputs := map (script_sig_update (\<lambda>_. [1])) (inputs sample_tx)\<rparr>"
      0 0 "[[0x51]]" "[[0x51]]"]
  by (simp add: sample_tx_def valid_tx_def valid_input_def valid_output_def limit_defs
      sighash_preimage_def sighash_input_def)

end
