(* ===== verification/Block.thy ===== *)
theory Block
  imports Transaction
begin

text \<open>
  \<open>crates/bitrst-core/src/block.rs\<close>: block headers and blocks, their wire format, hashes and Merkle
  commitment.
\<close>

section \<open>Definitions\<close>

record block_header =
  version :: i32
  prev_blockhash :: hash32
  hdr_merkle_root :: hash32
  time :: u32
  bits :: u32
  nonce :: u32

record block =
  header :: block_header
  transactions :: "transaction list"

definition serialize_header :: "block_header \<Rightarrow> bytes" where
  "serialize_header h =
     copy_at 76 (u32_to_le_bytes (nonce h))
    (copy_at 72 (u32_to_le_bytes (bits h))
    (copy_at 68 (u32_to_le_bytes (time h))
    (copy_at 36 (hdr_merkle_root h)
    (copy_at 4 (prev_blockhash h)
    (copy_at 0 (u32_to_le_bytes (version h)) (replicate 80 0))))))"

definition decode_header_from :: "wire_reader \<Rightarrow> decode_error + block_header \<times> wire_reader" where
  "decode_header_from r =
     and_then (read_i32 ''block version'' r) (\<lambda>(ver, r).
     and_then (read_bytes 32 ''previous block hash'' r) (\<lambda>(prev, r).
     and_then (read_bytes 32 ''merkle root'' r) (\<lambda>(root, r).
     and_then (read_u32 ''block time'' r) (\<lambda>(tm, r).
     and_then (read_u32 ''block bits'' r) (\<lambda>(bts, r).
     and_then (read_u32 ''block nonce'' r) (\<lambda>(nnc, r).
       Inr (\<lparr>version = ver, prev_blockhash = prev, hdr_merkle_root = root,
             time = tm, bits = bts, nonce = nnc\<rparr>, r)))))))"

definition deserialize_header :: "bytes \<Rightarrow> decode_error + block_header" where
  "deserialize_header bs =
     and_then (decode_header_from (new_reader bs)) (\<lambda>(h, r).
     and_then (finish ''block header'' r) (\<lambda>_. Inr h))"

definition hash_header :: "env \<Rightarrow> block_header \<Rightarrow> hash32" where
  "hash_header E h = sha256d E (serialize_header h)"

definition new_block :: "block_header \<Rightarrow> transaction list \<Rightarrow> block" where
  "new_block h txs = \<lparr>header = h, transactions = txs\<rparr>"

definition merkle_root_from_transactions :: "env \<Rightarrow> transaction list \<Rightarrow> hash32 option" where
  "merkle_root_from_transactions E txs =
     (if txs = [] then None else merkle_root E (map (txid E) txs))"

definition coinbase_block :: "env \<Rightarrow> block_header \<Rightarrow> u32 \<Rightarrow> u64 \<Rightarrow> block" where
  "coinbase_block E h height reward =
     (let txs = [coinbase_tx height reward] in
      \<lparr>header = (case merkle_root_from_transactions E txs of
                   Some root \<Rightarrow> h\<lparr>hdr_merkle_root := root\<rparr>
                 | None \<Rightarrow> h),
       transactions = txs\<rparr>)"

definition block_serialized_size :: "block \<Rightarrow> nat" where
  "block_serialized_size b =
     80 + compact_size_encoded_len (of_nat (length (transactions b)))
        + sum_list (map tx_serialized_size (transactions b))"

definition serialize_block :: "block \<Rightarrow> bytes" where
  "serialize_block b =
     serialize_header (header b) @
     write_compact_size (of_nat (length (transactions b))) @ concat (map serialize_tx (transactions b))"

definition deserialize_block :: "bytes \<Rightarrow> decode_error + block" where
  "deserialize_block bs =
     (if length bs > MAX_BLOCK_SERIALIZED_SIZE then
        Inl (LimitExceeded ''block size'' (of_nat (length bs)) MAX_BLOCK_SERIALIZED_SIZE)
      else
        and_then (decode_header_from (new_reader bs)) (\<lambda>(h, r).
        and_then (read_limited_len ''block transaction count'' MAX_TRANSACTIONS_PER_BLOCK r) (\<lambda>(cnt, r).
        and_then (read_many decode_tx_from cnt r) (\<lambda>(txs, r).
        and_then (finish ''block'' r) (\<lambda>_. Inr \<lparr>header = h, transactions = txs\<rparr>)))))"

definition hash_block :: "env \<Rightarrow> block \<Rightarrow> hash32" where
  "hash_block E b = hash_header E (header b)"

definition block_merkle_root :: "env \<Rightarrow> block \<Rightarrow> hash32 option" where
  "block_merkle_root E b = merkle_root_from_transactions E (transactions b)"

definition header_merkle_root_matches :: "env \<Rightarrow> block \<Rightarrow> bool" where
  "header_merkle_root_matches E b =
     (case block_merkle_root E b of None \<Rightarrow> False | Some root \<Rightarrow> root = hdr_merkle_root (header b))"

section \<open>Encoding and decoding\<close>

definition shaped_header :: "block_header \<Rightarrow> bool" where
  "shaped_header h \<longleftrightarrow> length (prev_blockhash h) = 32 \<and> length (hdr_merkle_root h) = 32"

definition shaped_block :: "block \<Rightarrow> bool" where
  "shaped_block b \<longleftrightarrow> shaped_header (header b) \<and> list_all shaped_tx (transactions b)"

lemma serialize_header_concat:
  assumes "shaped_header h"
  shows "serialize_header h =
    u32_to_le_bytes (version h) @ prev_blockhash h @ hdr_merkle_root h @ u32_to_le_bytes (time h) @
    u32_to_le_bytes (bits h) @ u32_to_le_bytes (nonce h)"
  using assms by (simp add: serialize_header_def shaped_header_def copy_at_def)

lemma length_serialize_header: "shaped_header h \<Longrightarrow> length (serialize_header h) = 80"
  by (simp add: serialize_header_concat) (simp add: shaped_header_def)

interpretation header_codec: codec decode_header_from serialize_header shaped_header
proof unfold_locales
  fix r x r'
  show "decode_header_from r = Inr (x, r') \<longleftrightarrow>
      shaped_header x \<and> starts r (serialize_header x) \<and> r' = advance (length (serialize_header x)) r"
  proof (cases "shaped_header x")
    case True
    then show ?thesis
      unfolding serialize_header_concat [OF True]
      by (cases x) (auto simp: decode_header_from_def and_then_Inr_iff prim_read_iffs
          shaped_header_def starts_append)
  next
    case False
    then show ?thesis
      by (cases x) (auto simp: decode_header_from_def and_then_Inr_iff prim_read_iffs shaped_header_def)
  qed
qed

lemma length_serialize_block: "shaped_block b \<Longrightarrow> length (serialize_block b) = block_serialized_size b"
proof -
  assume "shaped_block b"
  then have "sum_list (map (\<lambda>t. length (serialize_tx t)) (transactions b)) =
      sum_list (map tx_serialized_size (transactions b))"
    by (intro arg_cong [where f = sum_list] map_cong refl)
      (auto simp: shaped_block_def list_all_iff length_serialize_tx)
  with \<open>shaped_block b\<close> show ?thesis
    by (simp add: serialize_block_def block_serialized_size_def shaped_block_def length_serialize_header
        length_write_compact_size sum_list_concat_map_length)
qed

definition valid_block_encoding :: "block \<Rightarrow> bool" where
  "valid_block_encoding b \<longleftrightarrow>
     shaped_header (header b) \<and> list_all valid_tx (transactions b) \<and>
     length (transactions b) \<le> MAX_TRANSACTIONS_PER_BLOCK \<and> block_serialized_size b \<le> MAX_BLOCK_SERIALIZED_SIZE"

lemma valid_block_encoding_shaped: "valid_block_encoding b \<Longrightarrow> shaped_block b"
  by (auto simp: valid_block_encoding_def shaped_block_def list_all_iff valid_shaped_tx)

lemma deserialize_block_Inr_iff:
  "deserialize_block bs = Inr b \<longleftrightarrow> bs = serialize_block b \<and> valid_block_encoding b"
proof -
  have "deserialize_block bs = Inr b \<longleftrightarrow> length bs \<le> MAX_BLOCK_SERIALIZED_SIZE \<and>
      shaped_header (header b) \<and> list_all valid_tx (transactions b) \<and>
      length (transactions b) \<le> MAX_TRANSACTIONS_PER_BLOCK \<and> bs = serialize_block b"
    unfolding whole_input [of bs "serialize_block b"]
    by (cases b) (auto simp: deserialize_block_def and_then_Inr_iff header_codec.read_iff
        limited_len_codec.read_iff tx_codec.read_many_iff serialize_block_def starts_append limit_defs)
  then show ?thesis
    using length_serialize_block [OF valid_block_encoding_shaped, of b]
    by (auto simp: valid_block_encoding_def shaped_block_def list_all_iff valid_shaped_tx length_serialize_block)
qed

text \<open>
  C25. Block wire format: a byte string decodes to a block exactly when it is the encoding of that block,
  its hashes have 32 bytes, its transactions are within their limits, it has at most 25,000 of them
  and its \<open>serialized_size\<close>, which is the length of its encoding, is at most 4,000,000; a header
  decodes from exactly the 80 bytes it encodes to.
\<close>

theorem deserialize_block_iff:
  "(deserialize_block bs = Inr b \<longleftrightarrow>
     bs = serialize_block b \<and> shaped_header (header b) \<and> list_all valid_tx (transactions b) \<and>
     length (transactions b) \<le> 25000 \<and> block_serialized_size b \<le> 4000000) \<and>
   (deserialize_header bs = Inr h \<longleftrightarrow> bs = serialize_header h \<and> shaped_header h)"
  using header_codec.read_finish_iff [where f = id and bs = bs and ctx = "''block header''" and x = h]
  by (auto simp: deserialize_block_Inr_iff deserialize_header_def valid_block_encoding_def limit_defs)

section \<open>The Merkle commitment\<close>

lemma hash_ok_merkle: "hash_ok E \<Longrightarrow> length (txid E tx) = 32"
  by (simp add: txid_def length_sha256d)

lemma coinbase_block_merkle: "header_merkle_root_matches E (coinbase_block E h height reward)"
  by (simp add: header_merkle_root_matches_def block_merkle_root_def merkle_root_from_transactions_def
      coinbase_block_def merkle_root_def MAX_TRANSACTIONS_PER_BLOCK_def)

lemma header_merkle_root_matches_iff:
  "header_merkle_root_matches E b \<longleftrightarrow>
     transactions b \<noteq> [] \<and> merkle_root E (map (txid E) (transactions b)) = Some (hdr_merkle_root (header b))"
  by (auto simp: header_merkle_root_matches_def block_merkle_root_def merkle_root_from_transactions_def
      split: option.splits)

end
