(* ===== verification/Events.thy ===== *)
theory Events
  imports Block
begin

text \<open>
  \<open>chain_events.rs\<close>, \<open>chain_event_journal.rs\<close> and \<open>disconnected_block_journal.rs\<close>: the events a chain emits,
  and the two bounded journals that retain the latest events and the latest disconnected blocks.  Both
  are rings of the same shape, which the locale \<open>ring\<close> states and from which completeness of what a
  consumer reads is proved once.
\<close>

section \<open>Events and journals\<close>

datatype eviction_reason = PoolFull

datatype chain_event =
    BlockConnected u32 hash32 nat
  | BlockDisconnected u32 hash32
  | ChainReorg u32 hash32 hash32
  | OrphanAdded hash32 nat
  | OrphanEvicted hash32 eviction_reason

record chain_event_cursor =
  last_seq :: u64

record chain_event_cursor_error =
  cursor_seq :: u64
  oldest_available :: u64

record chain_event_journal =
  next_seq :: u64
  journal_entries :: "(u64 \<times> chain_event) list"
  journal_capacity :: nat
  wallet_high_water :: u64

definition journal_with_capacity :: "nat \<Rightarrow> chain_event_journal" where
  "journal_with_capacity c =
     \<lparr>next_seq = 1, journal_entries = [], journal_capacity = max c 1, wallet_high_water = 0\<rparr>"

definition default_journal :: chain_event_journal where
  "default_journal = journal_with_capacity DEFAULT_CHAIN_EVENT_JOURNAL_CAPACITY"

definition journal_push :: "chain_event \<Rightarrow> chain_event_journal \<Rightarrow> chain_event_journal \<times> u64" where
  "journal_push event j =
     (let sq = next_seq j;
          es = (if length (journal_entries j) \<ge> journal_capacity j then tl (journal_entries j)
                else journal_entries j)
      in (j\<lparr>next_seq := saturating_add (next_seq j) 1, journal_entries := es @ [(sq, event)]\<rparr>, sq))"

definition oldest_seq :: "chain_event_journal \<Rightarrow> u64 option" where
  "oldest_seq j = (case journal_entries j of [] \<Rightarrow> None | e # _ \<Rightarrow> Some (fst e))"

definition latest_seq :: "chain_event_journal \<Rightarrow> u64" where
  "latest_seq j = (if journal_entries j = [] then 0 else fst (last (journal_entries j)))"

definition journal_event_cursor :: "chain_event_journal \<Rightarrow> chain_event_cursor" where
  "journal_event_cursor j = \<lparr>last_seq = latest_seq j\<rparr>"

text \<open>The test with which both consumers of the events, and the recovery of blocks, begin.\<close>

definition lag_error :: "u64 option \<Rightarrow> u64 \<Rightarrow> chain_event_cursor_error option" where
  "lag_error oldest_retained since =
     (case oldest_retained of
        Some oldest \<Rightarrow>
          if since < saturating_sub oldest 1
          then Some \<lparr>cursor_seq = since, oldest_available = oldest\<rparr> else None
      | None \<Rightarrow> None)"

definition journal_take_events ::
  "chain_event_journal \<Rightarrow> chain_event_cursor_error + chain_event list \<times> chain_event_journal" where
  "journal_take_events j =
     (case lag_error (oldest_seq j) (wallet_high_water j) of
           Some e \<Rightarrow> Inl e
         | None \<Rightarrow>
             let events = map snd (filter (\<lambda>entry. fst entry > wallet_high_water j) (journal_entries j));
                 j' = (if journal_entries j = [] then j
                       else j\<lparr>wallet_high_water := fst (last (journal_entries j))\<rparr>)
             in Inr (events, j'))"

definition journal_collect_events ::
  "chain_event_journal \<Rightarrow> chain_event_cursor \<Rightarrow>
     chain_event_cursor_error + chain_event list \<times> chain_event_cursor" where
  "journal_collect_events j cur =
     (case lag_error (oldest_seq j) (last_seq cur) of
           Some e \<Rightarrow> Inl e
         | None \<Rightarrow>
             let newer = filter (\<lambda>entry. fst entry > last_seq cur) (journal_entries j);
                 cur' = (if newer = [] then cur else cur\<lparr>last_seq := fst (last newer)\<rparr>)
             in Inr (map snd newer, cur'))"

record disconnected_block_journal =
  dj_entries :: "(u64 \<times> block) list"
  dj_capacity :: nat

definition dj_with_capacity :: "nat \<Rightarrow> disconnected_block_journal" where
  "dj_with_capacity c = \<lparr>dj_entries = [], dj_capacity = max c 1\<rparr>"

definition default_dj :: disconnected_block_journal where
  "default_dj = dj_with_capacity DEFAULT_DISCONNECTED_BLOCK_JOURNAL_CAPACITY"

definition dj_record :: "u64 \<Rightarrow> block \<Rightarrow> disconnected_block_journal \<Rightarrow> disconnected_block_journal" where
  "dj_record event_seq b j =
     (let es = (if length (dj_entries j) \<ge> dj_capacity j then tl (dj_entries j) else dj_entries j)
      in j\<lparr>dj_entries := es @ [(event_seq, b)]\<rparr>)"

definition dj_blocks_since ::
  "disconnected_block_journal \<Rightarrow> u64 \<Rightarrow> chain_event_cursor_error + block list" where
  "dj_blocks_since j since_event_seq =
     (case lag_error (case dj_entries j of [] \<Rightarrow> None | oldest # _ \<Rightarrow> Some (fst oldest)) since_event_seq of
           Some e \<Rightarrow> Inl e
         | None \<Rightarrow> Inr (map snd (filter (\<lambda>entry. fst entry > since_event_seq) (dj_entries j))))"

section \<open>The ring both journals are\<close>

definition latest :: "nat \<Rightarrow> 'a list \<Rightarrow> 'a list" where
  "latest n xs = drop (length xs - n) xs"

lemma length_latest [simp]: "length (latest n xs) = min n (length xs)"
  by (simp add: latest_def)

lemma latest_step:
  assumes "0 < n"
  shows "(if length (latest n xs) \<ge> n then tl (latest n xs) else latest n xs) @ [x] = latest n (xs @ [x])"
  using assms by (auto simp: latest_def drop_Suc [symmetric] Suc_diff_le tl_drop)

locale ring =
  fixes buffer :: "'j \<Rightarrow> (u64 \<times> 'a) list"
    and limit :: "'j \<Rightarrow> nat"
    and add :: "'i \<Rightarrow> 'j \<Rightarrow> 'j"
    and entry :: "'i \<Rightarrow> 'j \<Rightarrow> u64 \<times> 'a"
  assumes limit_add: "limit (add i j) = limit j"
    and buffer_add: "buffer (add i j) =
      (if length (buffer j) \<ge> limit j then tl (buffer j) else buffer j) @ [entry i j]"
begin

text \<open>The buffer holds the latest entries of the whole \<open>history\<close>.\<close>

definition retains :: "'j \<Rightarrow> (u64 \<times> 'a) list \<Rightarrow> bool" where
  "retains j history \<longleftrightarrow> 0 < limit j \<and> buffer j = latest (limit j) history"

lemma retains_add: "retains j history \<Longrightarrow> retains (add i j) (history @ [entry i j])"
  unfolding retains_def limit_add buffer_add using latest_step [of "limit j" history "entry i j"] by metis

lemma retains_bounded: "retains j history \<Longrightarrow> length (buffer j) \<le> limit j"
  by (simp add: retains_def)

text \<open>Entries after a position that is not older than the buffer are all retained.\<close>

lemma retains_newer:
  assumes "retains j history" "sorted_wrt (<) (map fst history)" "buffer j = e # es"
    and "unat (fst e) \<le> unat s + 1"
  shows "filter (\<lambda>x. fst x > s) (buffer j) = filter (\<lambda>x. fst x > s) history"
proof -
  obtain old where h: "history = old @ buffer j"
    using assms(1) by (metis retains_def latest_def append_take_drop_id)
  then have "\<forall>x\<in>set old. fst x < fst e"
    using assms(2,3) by (auto simp: sorted_wrt_append)
  then have "\<forall>x\<in>set old. \<not> fst x > s"
    using assms(4) by (auto simp: word_less_nat_alt not_less)
  then show ?thesis unfolding h by (simp add: filter_empty_conv)
qed

end

interpretation event_ring: ring journal_entries journal_capacity "\<lambda>e j. fst (journal_push e j)"
  "\<lambda>e j. (next_seq j, e)"
  by unfold_locales (simp_all add: journal_push_def Let_def)

interpretation block_ring: ring dj_entries dj_capacity "\<lambda>(s, b). dj_record s b" "\<lambda>(s, b) j. (s, b)"
  by unfold_locales (auto simp: dj_record_def Let_def)

section \<open>What consumers read\<close>

text \<open>The sequence numbers of a history: the first event gets 1.\<close>

definition tagged :: "chain_event list \<Rightarrow> (u64 \<times> chain_event) list" where
  "tagged h = map (\<lambda>i. (of_nat (Suc i), h ! i)) [0..<length h]"

definition journal_of :: "nat \<Rightarrow> chain_event list \<Rightarrow> chain_event_journal" where
  "journal_of cap h = foldl (\<lambda>j e. fst (journal_push e j)) (journal_with_capacity cap) h"

lemma tagged_append: "tagged (h @ [e]) = tagged h @ [(of_nat (Suc (length h)), e)]"
  by (simp add: tagged_def nth_append)

lemma journal_of_snoc: "journal_of cap (h @ [e]) = fst (journal_push e (journal_of cap h))"
  by (simp add: journal_of_def)

lemma journal_of_retains:
  "length h + 1 < 2 ^ 64 \<Longrightarrow>
     next_seq (journal_of cap h) = of_nat (length h + 1) \<and> journal_capacity (journal_of cap h) = max cap 1 \<and>
     event_ring.retains (journal_of cap h) (tagged h)"
proof (induction h rule: rev_induct)
  case Nil
  then show ?case
    by (simp add: journal_of_def journal_with_capacity_def tagged_def latest_def event_ring.retains_def)
next
  case (snoc e h)
  let ?j = "journal_of cap h"
  have IH: "next_seq ?j = of_nat (length h + 1)" "journal_capacity ?j = max cap 1" "event_ring.retains ?j (tagged h)"
    using snoc by auto
  have "unat (of_nat (length h + 1) :: u64) = length h + 1"
    using snoc.prems unfolding unat_of_nat by (intro mod_less) simp
  then have "saturating_add (next_seq ?j) 1 = of_nat (length h + 1) + 1"
    unfolding IH(1) saturating_add_def using snoc.prems by simp
  then have "saturating_add (next_seq ?j) 1 = of_nat (length h + 2)" by simp
  moreover have "event_ring.retains (journal_of cap (h @ [e])) (tagged (h @ [e]))"
    unfolding journal_of_snoc tagged_append
    using event_ring.retains_add [OF IH(3), of e] IH(1) by simp
  ultimately show ?case
    using IH(2) event_ring.limit_add [of e ?j] unfolding journal_of_snoc
    by (simp add: journal_push_def Let_def)
qed

lemma latest_tagged: "latest n (tagged h) = map (\<lambda>i. (of_nat (Suc i), h ! i)) [length h - n..<length h]"
  by (simp add: latest_def tagged_def drop_map)

lemma filter_upt_ge: "filter (\<lambda>i. c \<le> i) [a..<b] = [max a c..<b]"
proof (induction b)
  case (Suc b)
  then show ?case by (cases "a \<le> b"; cases "c \<le> b") (auto simp: max_def)
qed simp

lemma newer_events:
  assumes "length h < 2 ^ 64" "length h - n \<le> c" "c \<le> length h"
  shows "filter (\<lambda>entry. fst entry > of_nat c) (latest n (tagged h)) = map (\<lambda>i. (of_nat (Suc i), h ! i)) [c..<length h]"
proof -
  have "filter (\<lambda>entry. fst entry > of_nat c) (latest n (tagged h))
      = map (\<lambda>i. (of_nat (Suc i), h ! i)) (filter (\<lambda>i. (of_nat (Suc i) :: u64) > of_nat c) [length h - n..<length h])"
    unfolding latest_tagged filter_map by (simp add: o_def)
  also have "filter (\<lambda>i. (of_nat (Suc i) :: u64) > of_nat c) [length h - n..<length h] = filter (\<lambda>i. c \<le> i) [length h - n..<length h]"
    using assms by (intro filter_cong refl) (auto simp: word_less_nat_alt unat_of_nat simp del: of_nat_Suc)
  finally show ?thesis unfolding filter_upt_ge using assms(2) by (simp add: max_def)
qed

lemma map_nth_upt: "map ((!) h) [c..<length h] = drop c h"
  by (metis drop_map drop_upt add_0 map_nth)

text \<open>The lag test both consumers make, and what they read when it passes.\<close>

lemma journal_of_facts:
  assumes h: "length h + 1 < 2 ^ 64" and c: "c \<le> length h"
  shows "lag_error (oldest_seq (journal_of cap h)) (of_nat c) =
         (if c + max cap 1 < length h
          then Some \<lparr>cursor_seq = of_nat c, oldest_available = of_nat (length h - max cap 1 + 1)\<rparr> else None)"
    and "c + max cap 1 \<ge> length h \<Longrightarrow>
      filter (\<lambda>entry. fst entry > of_nat c) (journal_entries (journal_of cap h)) =
      map (\<lambda>i. (of_nat (Suc i), h ! i)) [c..<length h]"
    and "journal_entries (journal_of cap h) = [] \<longleftrightarrow> h = []"
    and "h \<noteq> [] \<Longrightarrow> fst (last (journal_entries (journal_of cap h))) = of_nat (length h)"
proof -
  let ?n = "max cap 1"
  have buf: "journal_entries (journal_of cap h) = latest ?n (tagged h)"
    using journal_of_retains [OF h, of cap] by (simp add: event_ring.retains_def)
  show empty: "journal_entries (journal_of cap h) = [] \<longleftrightarrow> h = []"
    unfolding buf latest_tagged by (cases h) auto
  show "fst (last (journal_entries (journal_of cap h))) = of_nat (length h)" if "h \<noteq> []"
  proof -
    have "Suc (length h - 1) = length h" "length h - ?n < length h" using that
      by (simp_all add: less_max_iff_disj)
    then show ?thesis unfolding buf latest_tagged by (subst last_map) (auto simp del: of_nat_Suc)
  qed
  show "filter (\<lambda>entry. fst entry > of_nat c) (journal_entries (journal_of cap h)) =
      map (\<lambda>i. (of_nat (Suc i), h ! i)) [c..<length h]" if "c + max cap 1 \<ge> length h"
    unfolding buf using h c that by (intro newer_events) auto
  show "lag_error (oldest_seq (journal_of cap h)) (of_nat c) =
         (if c + max cap 1 < length h
          then Some \<lparr>cursor_seq = of_nat c, oldest_available = of_nat (length h - max cap 1 + 1)\<rparr> else None)"
  proof (cases "h = []")
    case True
    then show ?thesis using empty by (simp add: oldest_seq_def lag_error_def)
  next
    case False
    then have "length h - ?n < length h" by (intro diff_less) (simp_all add: less_max_iff_disj)
    then have "oldest_seq (journal_of cap h) = Some (of_nat (Suc (length h - ?n)))"
      unfolding oldest_seq_def buf latest_tagged by (simp add: upt_conv_Cons del: of_nat_Suc)
    moreover have "(of_nat c :: u64) < saturating_sub (of_nat (Suc (length h - ?n))) 1 \<longleftrightarrow> c + ?n < length h"
      using h c by (auto simp: word_less_nat_alt unat_saturating_sub unat_of_nat simp del: of_nat_Suc)
    ultimately show ?thesis by (simp add: lag_error_def)
  qed
qed

text \<open>
  C35. Event delivery: after any sequence \<open>h\<close> of pushes, a consumer that has read the first \<open>c\<close> events
  gets exactly the remaining ones, in order and once, and moves to the end; only when more than the
  capacity are missing does it get the lag error instead, so no event is ever skipped
  silently.  This holds for cursors and for the wallet's high-water mark alike.
\<close>

theorem journal_delivers:
  assumes "length h + 1 < 2 ^ 64" and "c \<le> length h"
  shows "journal_collect_events (journal_of cap h) \<lparr>last_seq = of_nat c\<rparr> =
     (if c + max cap 1 < length h
      then Inl \<lparr>cursor_seq = of_nat c, oldest_available = of_nat (length h - max cap 1 + 1)\<rparr>
      else Inr (drop c h, \<lparr>last_seq = of_nat (length h)\<rparr>)) \<and>
    journal_take_events ((journal_of cap h)\<lparr>wallet_high_water := of_nat c\<rparr>) =
     (if c + max cap 1 < length h
      then Inl \<lparr>cursor_seq = of_nat c, oldest_available = of_nat (length h - max cap 1 + 1)\<rparr>
      else Inr (drop c h, (journal_of cap h)\<lparr>wallet_high_water := of_nat (length h)\<rparr>))"
proof -
  let ?j = "journal_of cap h"
  note facts = journal_of_facts [OF assms, of cap]
  have newer: "map snd (map (\<lambda>i. (of_nat (Suc i) :: u64, h ! i)) [c..<length h]) = drop c h"
    using map_nth_upt [of h c] by (simp add: o_def)
  have last_newer: "fst (last (map (\<lambda>i. (of_nat (Suc i) :: u64, h ! i)) [c..<length h])) = of_nat (length h)"
    if "c < length h"
  proof -
    have "Suc (length h - 1) = length h" using that by simp
    then show ?thesis using that by (subst last_map) (auto simp del: of_nat_Suc)
  qed
  have same: "oldest_seq (j\<lparr>wallet_high_water := w\<rparr>) = oldest_seq j" for w and j :: chain_event_journal
    by (simp add: oldest_seq_def)
  show ?thesis
  proof (cases "c + max cap 1 < length h")
    case True
    then show ?thesis using facts(1)
      by (simp add: journal_collect_events_def journal_take_events_def same Let_def)
  next
    case False
    have f: "filter (\<lambda>entry. fst entry > of_nat c) (journal_entries ?j) = map (\<lambda>i. (of_nat (Suc i), h ! i)) [c..<length h]"
      using facts(2) False by simp
    have "journal_collect_events ?j \<lparr>last_seq = of_nat c\<rparr> = Inr (drop c h, \<lparr>last_seq = of_nat (length h)\<rparr>)"
    proof (cases "c < length h")
      case True
      then show ?thesis
        using facts(1) False newer last_newer by (auto simp: journal_collect_events_def f Let_def)
    next
      case False
      then have "c = length h" using assms(2) by simp
      then show ?thesis
        using facts(1) f by (simp add: journal_collect_events_def Let_def)
    qed
    moreover have "journal_take_events (?j\<lparr>wallet_high_water := of_nat c\<rparr>) =
        Inr (drop c h, ?j\<lparr>wallet_high_water := of_nat (length h)\<rparr>)"
      using facts(1,3,4) False newer assms(2)
      by (cases "h = []") (simp_all add: journal_take_events_def f same Let_def)
    ultimately show ?thesis using False by simp
  qed
qed

theorem journal_delivers_witness:
  "journal_collect_events (journal_of 2 [OrphanAdded [] 1, OrphanAdded [] 2, OrphanAdded [] 3]) \<lparr>last_seq = 1\<rparr> =
     Inr ([OrphanAdded [] 2, OrphanAdded [] 3], \<lparr>last_seq = 3\<rparr>)"
  using journal_delivers [of "[OrphanAdded [] 1, OrphanAdded [] 2, OrphanAdded [] 3]" 1 2] by simp

definition dj_of :: "nat \<Rightarrow> (u64 \<times> block) list \<Rightarrow> disconnected_block_journal" where
  "dj_of cap hist = foldl (\<lambda>j (sq, b). dj_record sq b j) (dj_with_capacity cap) hist"

lemma dj_of_retains: "block_ring.retains (dj_of cap hist) hist"
proof (induction hist rule: rev_induct)
  case Nil
  then show ?case by (simp add: dj_of_def dj_with_capacity_def block_ring.retains_def latest_def)
next
  case (snoc x hist)
  then show ?case
    using block_ring.retains_add [of "dj_of cap hist" hist x] by (cases x) (simp add: dj_of_def)
qed

text \<open>
  Recovery of disconnected blocks is exact or refused: for blocks recorded with increasing event
  numbers, a successful \<open>blocks_since\<close> returns every block recorded after the given event, also those
  that a shorter ring would have evicted, in order; it never returns a truncated list.
\<close>

theorem blocks_since_complete:
  assumes "sorted_wrt (<) (map fst hist)" and "dj_blocks_since (dj_of cap hist) s = Inr bs"
  shows "bs = map snd (filter (\<lambda>x. fst x > s) hist)"
proof (cases "dj_entries (dj_of cap hist)")
  case Nil
  then have "hist = []"
    using dj_of_retains [of cap hist] length_latest [of "dj_capacity (dj_of cap hist)" hist]
    unfolding block_ring.retains_def by (metis list.size(3) length_0_conv min_def neq0_conv)
  then show ?thesis using assms(2) Nil by (simp add: dj_blocks_since_def lag_error_def)
next
  case (Cons e es)
  then have "\<not> s < saturating_sub (fst e) 1" and bs: "bs = map snd (filter (\<lambda>x. fst x > s) (dj_entries (dj_of cap hist)))"
    using assms(2) by (auto simp: dj_blocks_since_def lag_error_def split: if_splits)
  then have "unat (fst e) \<le> unat s + 1"
    by (simp add: word_less_nat_alt unat_saturating_sub not_less)
  then show ?thesis
    using block_ring.retains_newer [OF dj_of_retains assms(1) Cons] bs by simp
qed

definition sample_block :: "nat \<Rightarrow> block" where
  "sample_block n = new_block \<lparr>version = 1, prev_blockhash = replicate 32 0, hdr_merkle_root = replicate 32 0,
     time = of_nat n, bits = 0x1d00ffff, nonce = 0\<rparr> []"

theorem blocks_since_complete_witness:
  "dj_blocks_since (dj_of 2 [(3, sample_block 1), (5, sample_block 2), (6, sample_block 3)]) 4 =
     Inr [sample_block 2, sample_block 3]"
proof -
  have ok: "\<exists>bs. dj_blocks_since (dj_of 2 [(3, sample_block 1), (5, sample_block 2), (6, sample_block 3)]) 4 = Inr bs"
    by (simp add: dj_blocks_since_def dj_of_def dj_with_capacity_def dj_record_def lag_error_def saturating_sub_def)
  then obtain bs where bs: "dj_blocks_since (dj_of 2 [(3, sample_block 1), (5, sample_block 2), (6, sample_block 3)]) 4 = Inr bs" by blast
  show ?thesis using blocks_since_complete [OF _ bs] bs by simp
qed

end
