(* ===== verification/Store.thy ===== *)
theory Store
  imports Block "HOL-Library.AList"
begin

text \<open>
  \<open>crates/bitrst-core/src/store.rs\<close>: the errors of the block stores, the store in memory, and the trait
  \<open>BlockStore\<close> with its laws as the locale \<open>block_store\<close>.  The memory store interprets it here, the file store
  in \<open>FileStore\<close>.
\<close>

section \<open>Definitions\<close>

datatype store_error =
    NotFound
  | CommitFailed
  | InvalidPath
  | Corrupt string
  | HashMismatch hash32 hash32
  | Io string string

record memory_block_store =
  stored_blocks :: "hash32 \<rightharpoonup> block"

definition new_memory_store :: memory_block_store where
  "new_memory_store = \<lparr>stored_blocks = Map.empty\<rparr>"

definition memory_put_block :: "env \<Rightarrow> block \<Rightarrow> memory_block_store \<Rightarrow> store_error + memory_block_store" where
  "memory_put_block E b s = Inr (s\<lparr>stored_blocks := (stored_blocks s)(hash_block E b \<mapsto> b)\<rparr>)"

definition memory_get_block :: "hash32 \<Rightarrow> memory_block_store \<Rightarrow> store_error + block option" where
  "memory_get_block h s = Inr (stored_blocks s h)"

definition memory_commit :: "memory_block_store \<Rightarrow> store_error + memory_block_store" where
  "memory_commit s = Inr s"

section \<open>The interface\<close>

locale block_store =
  fixes put :: "block \<Rightarrow> 's \<Rightarrow> (store_error + unit) \<times> 's"
    and get :: "hash32 \<Rightarrow> 's \<Rightarrow> store_error + block option"
    and key :: "block \<Rightarrow> hash32"
    and storable :: "block \<Rightarrow> bool"
    and ready :: "'s \<Rightarrow> bool"
  assumes ready_put: "storable b \<Longrightarrow> ready s \<Longrightarrow> put b s = (r, s') \<Longrightarrow> ready s'"
    and get_put_same: "storable b \<Longrightarrow> ready s \<Longrightarrow> put b s = (Inr (), s') \<Longrightarrow> get (key b) s' = Inr (Some b)"
    and get_put_other: "storable b \<Longrightarrow> storable c \<Longrightarrow> ready s \<Longrightarrow> put b s = (r, s') \<Longrightarrow> key c \<noteq> key b \<Longrightarrow>
      get (key c) s' = get (key c) s"
begin

text \<open>Several writes, stopping at the first error.\<close>

fun put_all :: "block list \<Rightarrow> 's \<Rightarrow> (store_error + unit) \<times> 's" where
  "put_all [] s = (Inr (), s)"
| "put_all (b # bs) s = (case put b s of (Inl e, s') \<Rightarrow> (Inl e, s') | (Inr _, s') \<Rightarrow> put_all bs s')"

lemma put_all_keeps:
  "put_all bs s = (r, s') \<Longrightarrow> list_all storable bs \<Longrightarrow> ready s \<Longrightarrow> storable c \<Longrightarrow> key c \<notin> key ` set bs \<Longrightarrow>
     get (key c) s' = get (key c) s"
proof (induction bs arbitrary: s)
  case (Cons b bs)
  obtain r1 s1 where put: "put b s = (r1, s1)" by fastforce
  have one: "get (key c) s1 = get (key c) s" using get_put_other [OF _ _ _ put] Cons.prems by auto
  have ready: "ready s1" using ready_put [OF _ _ put] Cons.prems by auto
  show ?case
  proof (cases r1)
    case (Inl e)
    then show ?thesis using Cons.prems put one by simp
  next
    case (Inr u)
    then show ?thesis using Cons put one ready by simp
  qed
qed simp

lemma put_all_stored:
  "put_all bs s = (Inr (), s') \<Longrightarrow> list_all storable bs \<Longrightarrow> ready s \<Longrightarrow> distinct (map key bs) \<Longrightarrow> b \<in> set bs \<Longrightarrow>
     get (key b) s' = Inr (Some b)"
proof (induction bs arbitrary: s)
  case (Cons c bs)
  then obtain s1 where put: "put c s = (Inr (), s1)" "put_all bs s1 = (Inr (), s')"
    by (auto split: prod.splits sum.splits)
  have ready: "ready s1" using ready_put [OF _ _ put(1)] Cons.prems by auto
  show ?case
  proof (cases "b = c")
    case True
    then show ?thesis
      using get_put_same [OF _ _ put(1)] put_all_keeps [OF put(2), of c] Cons.prems ready by simp
  next
    case False
    then show ?thesis using Cons put ready by simp
  qed
qed simp

end

interpretation memory_store: block_store "\<lambda>b s. (Inr (), case memory_put_block E b s of Inr s' \<Rightarrow> s' | Inl _ \<Rightarrow> s)"
  memory_get_block "hash_block E" "\<lambda>_. True" "\<lambda>_. True"
  by unfold_locales (auto simp: memory_put_block_def memory_get_block_def)

lemma length_hash_block: "hash_ok E \<Longrightarrow> length (hash_block E b) = 32"
  by (simp add: hash_block_def hash_header_def length_sha256d)

end
