(* ===== verification/U256.thy ===== *)
theory U256
  imports Prelude
begin

text \<open>
  \<open>crates/bitrst-core/src/uint256.rs\<close>: 256-bit integers as 32 little-endian bytes.  The lemmas
  relate every routine to arithmetic on \<open>le_val\<close>, the number the bytes stand for.  Arithmetic on
  \<open>u8\<close> is that of a release build: it wraps (a build with overflow checks panics instead, which
  matters in one place, the sum \<open>right[index] + borrow\<close> of \<open>sub_u256_le\<close>).
\<close>

section \<open>Definitions\<close>

fun lex_cmp :: "bytes \<Rightarrow> bytes \<Rightarrow> ordering" where
  "lex_cmp [] [] = Equal"
| "lex_cmp [] (_ # _) = Less"
| "lex_cmp (_ # _) [] = Greater"
| "lex_cmp (a # as) (b # bs) =
     (if a < b then Less else if b < a then Greater else lex_cmp as bs)"

definition cmp_le :: "bytes \<Rightarrow> bytes \<Rightarrow> ordering" where
  "cmp_le left right = lex_cmp (rev left) (rev right)"

fun add_loop :: "u64 \<Rightarrow> bytes \<Rightarrow> bytes option" where
  "add_loop carry [] = (if carry = 0 then Some [] else None)"
| "add_loop carry (b # bs) =
     (case checked_add (ucast b) carry of
        None \<Rightarrow> None
      | Some acc \<Rightarrow>
          if drop_bit 8 acc = 0 then Some (ucast acc # bs)
          else map_option ((#) (ucast acc)) (add_loop (drop_bit 8 acc) bs))"

definition add_u256_le :: "bytes \<Rightarrow> u64 \<Rightarrow> bytes option" where
  "add_u256_le v addend = add_loop addend v"

definition not_u256_le :: "bytes \<Rightarrow> bytes" where
  "not_u256_le v = map (\<lambda>b. NOT b) v"

fun shl_loop :: "u8 \<Rightarrow> bytes \<Rightarrow> bytes" where
  "shl_loop carry [] = []"
| "shl_loop carry (b # bs) = (push_bit 1 b OR carry) # shl_loop (drop_bit 7 b) bs"

definition shl_one_u256_le :: "bytes \<Rightarrow> bytes" where
  "shl_one_u256_le v = shl_loop 0 v"

fun sub_loop :: "u8 \<Rightarrow> bytes \<Rightarrow> bytes \<Rightarrow> bytes \<times> u8" where
  "sub_loop borrow (l # ls) (r # rs) =
     (case sub_loop (if l < r + borrow then 1 else 0) ls rs of
        (out, borrow') \<Rightarrow> ((l - (r + borrow)) # out, borrow'))"
| "sub_loop borrow _ _ = ([], borrow)"

definition sub_u256_le :: "bytes \<Rightarrow> bytes \<Rightarrow> bytes option" where
  "sub_u256_le left right =
     (let (out, borrow) = sub_loop 0 left right in if borrow \<noteq> 0 then None else Some out)"

definition bit_is_set :: "bytes \<Rightarrow> nat \<Rightarrow> bool" where
  "bit_is_set v n = (let byte_index = n div 8; bit_index = n mod 8 in
     (v ! byte_index) AND push_bit bit_index 1 \<noteq> 0)"

definition set_bit_le :: "bytes \<Rightarrow> nat \<Rightarrow> bytes" where
  "set_bit_le v n = (let byte_index = n div 8; bit_index = n mod 8 in
     v[byte_index := (v ! byte_index) OR push_bit bit_index 1])"

text \<open>
  The body of the loop of \<open>div_u256_le\<close> for one \<open>bit\<close>, on the pair of quotient and remainder, and
  the loop over \<open>(0..256).rev()\<close>: \<open>div_loop dividend divisor n\<close> handles the bits \<open>n - 1, \<dots>, 0\<close>.
\<close>

definition shifted_remainder :: "bytes \<Rightarrow> nat \<Rightarrow> bytes \<Rightarrow> bytes" where
  "shifted_remainder dividend n rmd =
     (let r1 = shl_one_u256_le rmd in
      if bit_is_set dividend n then r1[0 := (r1 ! 0) OR 1] else r1)"

definition div_step :: "bytes \<Rightarrow> bytes \<Rightarrow> nat \<Rightarrow> bytes \<times> bytes \<Rightarrow> (bytes \<times> bytes) option" where
  "div_step dividend divisor n st =
     (let r2 = shifted_remainder dividend n (snd st) in
      if cmp_le divisor r2 \<noteq> Greater then
        (case sub_u256_le r2 divisor of
           None \<Rightarrow> None
         | Some r3 \<Rightarrow> Some (set_bit_le (fst st) n, r3))
      else Some (fst st, r2))"

fun div_loop :: "bytes \<Rightarrow> bytes \<Rightarrow> nat \<Rightarrow> bytes \<times> bytes \<Rightarrow> bytes option" where
  "div_loop dividend divisor 0 st = Some (fst st)"
| "div_loop dividend divisor (Suc n) st =
     (case div_step dividend divisor n st of
        None \<Rightarrow> None
      | Some st' \<Rightarrow> div_loop dividend divisor n st')"

definition zero_u256 :: bytes where
  "zero_u256 = replicate 32 0"

definition div_u256_le :: "bytes \<Rightarrow> bytes \<Rightarrow> bytes option" where
  "div_u256_le dividend divisor =
     (if divisor = zero_u256 then None
      else if cmp_le dividend divisor = Less then Some zero_u256
      else div_loop dividend divisor 256 (zero_u256, zero_u256))"

definition work_from_target :: "bytes \<Rightarrow> bytes option" where
  "work_from_target threshold =
     (if threshold = zero_u256 then None
      else case add_u256_le threshold 1 of
        None \<Rightarrow> None
      | Some target_plus_one \<Rightarrow>
          (case div_u256_le (not_u256_le threshold) target_plus_one of
             None \<Rightarrow> None
           | Some quot \<Rightarrow> add_u256_le quot 1))"

text \<open>
  Whether \<open>right[index] + borrow\<close> leaves the range of \<open>u8\<close> in a subtraction, in the subtractions of the long
  division, in the computation of the work: a build with overflow checks panics exactly then.
\<close>

fun sub_overflows :: "u8 \<Rightarrow> bytes \<Rightarrow> bytes \<Rightarrow> bool" where
  "sub_overflows borrow (l # ls) (r # rs) =
     (checked_add r borrow = None \<or> sub_overflows (if l < r + borrow then 1 else 0) ls rs)"
| "sub_overflows borrow _ _ = False"

fun div_overflows :: "bytes \<Rightarrow> bytes \<Rightarrow> nat \<Rightarrow> bytes \<times> bytes \<Rightarrow> bool" where
  "div_overflows dividend divisor 0 st = False"
| "div_overflows dividend divisor (Suc n) st =
     (let r2 = shifted_remainder dividend n (snd st) in
      cmp_le divisor r2 \<noteq> Greater \<and> sub_overflows 0 r2 divisor \<or>
      (case div_step dividend divisor n st of
         None \<Rightarrow> False
       | Some st' \<Rightarrow> div_overflows dividend divisor n st'))"

definition work_overflows :: "bytes \<Rightarrow> bool" where
  "work_overflows threshold =
     (case add_u256_le threshold 1 of
        None \<Rightarrow> False
      | Some target_plus_one \<Rightarrow>
          cmp_le (not_u256_le threshold) target_plus_one \<noteq> Less \<and>
          div_overflows (not_u256_le threshold) target_plus_one 256 (zero_u256, zero_u256))"

section \<open>Comparison\<close>

definition compare_nat :: "nat \<Rightarrow> nat \<Rightarrow> ordering" where
  "compare_nat a b = (if a < b then Less else if b < a then Greater else Equal)"

lemma compare_nat_iffs [simp]:
  "compare_nat a b = Less \<longleftrightarrow> a < b"
  "compare_nat a b = Greater \<longleftrightarrow> b < a"
  "compare_nat a b = Equal \<longleftrightarrow> a = b"
  by (auto simp: compare_nat_def)

lemma place_value_less:
  fixes a b x y B :: nat
  assumes "x < y" and "a < B"
  shows "a + B * x < b + B * y"
proof -
  have "B * Suc x \<le> B * y" using assms(1) by (intro mult_le_mono) auto
  with assms(2) show ?thesis by simp
qed

lemma lex_cmp_le_val:
  "length xs = length ys \<Longrightarrow> lex_cmp xs ys = compare_nat (le_val (rev xs)) (le_val (rev ys))"
proof (induction xs ys rule: list_induct2)
  case Nil
  then show ?case by (simp add: compare_nat_def)
next
  case (Cons x xs y ys)
  let ?B = "256 ^ length xs"
  have bounds: "le_val (rev xs) < ?B" "le_val (rev ys) < ?B"
    using le_val_bound [of "rev xs"] le_val_bound [of "rev ys"] Cons.hyps by simp_all
  consider "x < y" | "y < x" | "x = y" by fastforce
  then show ?case
  proof cases
    case 1
    then have "le_val (rev xs) + ?B * unat x < le_val (rev ys) + ?B * unat y"
      using bounds by (intro place_value_less) (simp_all add: word_less_nat_alt)
    with 1 Cons.hyps show ?thesis by (simp add: le_val_append compare_nat_def)
  next
    case 2
    then have "le_val (rev ys) + ?B * unat y < le_val (rev xs) + ?B * unat x"
      using bounds by (intro place_value_less) (simp_all add: word_less_nat_alt)
    with 2 Cons.hyps show ?thesis by (simp add: le_val_append compare_nat_def)
  next
    case 3
    with Cons show ?thesis by (simp add: le_val_append compare_nat_def)
  qed
qed

lemma cmp_le_val:
  "length a = length b \<Longrightarrow> cmp_le a b = compare_nat (le_val a) (le_val b)"
  by (simp add: cmp_le_def lex_cmp_le_val)

text \<open>\<open>cmp_le\<close> is a total order on byte strings of any length.\<close>

lemma lex_cmp_refl [simp]: "lex_cmp a a = Equal"
  by (induction a) auto

lemma lex_cmp_Equal_iff [simp]: "lex_cmp a b = Equal \<longleftrightarrow> a = b"
  by (induction a b rule: lex_cmp.induct) auto

lemma lex_cmp_Greater_iff: "lex_cmp a b = Greater \<longleftrightarrow> lex_cmp b a = Less"
  by (induction a b rule: lex_cmp.induct) auto

lemma lex_cmp_trans: "lex_cmp a b = Less \<Longrightarrow> lex_cmp b c = Less \<Longrightarrow> lex_cmp a c = Less"
proof (induction a b arbitrary: c rule: lex_cmp.induct)
  case (2 b bs)
  then show ?case by (cases c) auto
next
  case (4 a as b bs)
  then show ?case by (cases c) (auto split: if_splits)
qed auto

lemma cmp_le_order:
  "cmp_le a b = Equal \<longleftrightarrow> a = b"
  "cmp_le a b = Greater \<longleftrightarrow> cmp_le b a = Less"
  "cmp_le a b = Less \<Longrightarrow> cmp_le b c = Less \<Longrightarrow> cmp_le a c = Less"
  by (auto simp: cmp_le_def lex_cmp_Greater_iff intro: lex_cmp_trans)

section \<open>Addition of a small constant, complement\<close>

lemma unat_carry_step:
  fixes acc :: u64
  shows "unat (ucast acc :: u8) + 256 * unat (drop_bit 8 acc) = unat acc"
  unfolding unat_drop_bit_eq unat_ucast_mod by (simp add: drop_bit_eq_div)

lemma add_loop_exact:
  "add_loop carry bs = Some r \<Longrightarrow>
     le_val r = le_val bs + unat carry \<and> length r = length bs"
proof (induction carry bs arbitrary: r rule: add_loop.induct)
  case (1 carry)
  then show ?case by (auto split: if_splits)
next
  case (2 carry b bs)
  then obtain acc where acc: "checked_add (ucast b) carry = Some acc"
    by (auto split: option.splits)
  then have val: "unat acc = unat b + unat carry"
    by (simp add: checked_add_Some_iff)
  show ?case
  proof (cases "drop_bit 8 acc = 0")
    case True
    with 2 acc have "r = ucast acc # bs" by simp
    then show ?thesis using unat_carry_step [of acc] val True by simp
  next
    case False
    with 2 acc obtain r' where r': "add_loop (drop_bit 8 acc) bs = Some r'" "r = ucast acc # r'"
      by auto
    with "2.IH" [OF acc False r'(1)] show ?thesis
      using unat_carry_step [of acc] val by simp
  qed
qed


lemma add_loop_succeeds:
  "unat carry + 255 < 2 ^ 64 \<Longrightarrow> le_val bs + unat carry < 256 ^ length bs \<Longrightarrow>
     \<exists>r. add_loop carry bs = Some r"
proof (induction carry bs rule: add_loop.induct)
  case (1 carry)
  then show ?case by (simp add: unat_eq_0)
next
  case (2 carry b bs)
  then obtain acc where acc: "checked_add (ucast b) carry = Some acc"
    using unat_u8_lt [of b] by (auto simp: checked_add_def)
  then have val: "unat acc = unat b + unat carry"
    by (simp add: checked_add_Some_iff)
  have step: "unat (ucast acc :: u8) + 256 * unat (drop_bit 8 acc) = unat b + unat carry"
    using unat_carry_step [of acc] val by simp
  show ?case
  proof (cases "drop_bit 8 acc = 0")
    case True
    with acc show ?thesis by simp
  next
    case False
    have "unat (drop_bit 8 acc) \<le> unat carry"
      using step unat_u8_lt [of b] by linarith
    moreover have "le_val bs + unat (drop_bit 8 acc) < 256 ^ length bs"
      using step "2.prems"(2) by simp
    ultimately obtain r where "add_loop (drop_bit 8 acc) bs = Some r"
      using "2.IH" [OF acc False] "2.prems"(1) by auto
    with acc False show ?thesis by simp
  qed
qed

lemma add_u256_le_exact:
  "add_u256_le v a = Some r \<Longrightarrow> le_val r = le_val v + unat a \<and> length r = length v"
  by (simp add: add_u256_le_def add_loop_exact)

lemma add_u256_le_succeeds:
  "unat a + 255 < 2 ^ 64 \<Longrightarrow> le_val v + unat a < 256 ^ length v \<Longrightarrow>
     \<exists>r. add_u256_le v a = Some r \<and> le_val r = le_val v + unat a \<and> length r = length v"
  using add_loop_succeeds [of a v] add_u256_le_exact [of v a] by (auto simp: add_u256_le_def)

lemma add_u256_le_overflow:
  "256 ^ length v \<le> le_val v + unat a \<Longrightarrow> add_u256_le v a = None"
  using add_u256_le_exact [of v a] le_val_bound [of "the (add_u256_le v a)"]
  by (cases "add_u256_le v a") auto

lemma unat_not_u8: "unat (NOT b :: u8) = 255 - unat b"
proof -
  have "NOT b = - 1 - b" by (simp add: not_eq_complement)
  moreover have "(- 1 :: u8) = 255" by simp
  ultimately have "unat (NOT b) = unat (255 - b)" by simp
  also have "\<dots> = 255 - unat b"
    using unat_u8_lt [of b] by (simp add: unat_sub word_le_nat_alt)
  finally show ?thesis .
qed

lemma not_u256_le_val:
  "le_val (not_u256_le v) + le_val v = 256 ^ length v - 1 \<and> length (not_u256_le v) = length v"
proof (induction v)
  case Nil
  then show ?case by (simp add: not_u256_le_def)
next
  case (Cons b bs)
  have "le_val bs < 256 ^ length bs" by (rule le_val_bound)
  with Cons show ?case using unat_u8_lt [of b] by (simp add: not_u256_le_def unat_not_u8)
qed


section \<open>Bits\<close>

lemma bit_le_val:
  "bit (le_val bs) n \<longleftrightarrow> n < 8 * length bs \<and> bit (bs ! (n div 8)) (n mod 8)"
proof (induction bs arbitrary: n)
  case Nil
  then show ?case by simp
next
  case (Cons b bs)
  have no_bit: "\<not> bit b m" if "8 \<le> m" for m
    using that bit_imp_le_length [of b m] by auto
  have "unat b AND push_bit 8 (le_val bs) = 0"
    by (rule bit_eqI) (auto simp: bit_simps no_bit)
  then have "unat b + push_bit 8 (le_val bs) = unat b OR push_bit 8 (le_val bs)"
    by (rule disjunctive_add_eq_or)
  then have eq: "le_val (b # bs) = unat b OR push_bit 8 (le_val bs)"
    by (simp add: push_bit_eq_mult)
  show ?case
  proof (cases "n < 8")
    case True
    then show ?thesis unfolding eq by (simp add: bit_simps)
  next
    case False
    then have "n div 8 = Suc ((n - 8) div 8)" "n mod 8 = (n - 8) mod 8"
      by (simp_all add: le_div_geq le_mod_geq)
    with False show ?thesis unfolding eq by (auto simp: bit_simps no_bit Cons)
  qed
qed

lemma bit_is_set_iff:
  "n < 8 * length v \<Longrightarrow> bit_is_set v n \<longleftrightarrow> odd (le_val v div 2 ^ n)"
proof -
  assume "n < 8 * length v"
  then have "bit (le_val v) n \<longleftrightarrow> bit (v ! (n div 8)) (n mod 8)"
    by (simp add: bit_le_val)
  also have "\<dots> \<longleftrightarrow> bit_is_set v n"
    by (simp add: bit_is_set_def Let_def bit_iff_and_push_bit_not_eq_0)
  finally show ?thesis by (simp add: bit_iff_odd)
qed

lemma length_set_bit_le [simp]: "length (set_bit_le v n) = length v"
  by (simp add: set_bit_le_def Let_def)

lemma set_bit_le_val:
  assumes "n < 8 * length v" and "2 ^ Suc n dvd le_val v"
  shows "le_val (set_bit_le v n) = le_val v + 2 ^ n"
proof -
  have clear: "\<not> bit (le_val v) n"
    using assms(2) by (auto simp: bit_iff_odd dvd_def)
  have "le_val v AND push_bit n 1 = 0"
    by (rule bit_eqI) (use clear in \<open>auto simp: bit_simps\<close>)
  then have sum: "le_val v + push_bit n 1 = le_val v OR push_bit n 1"
    by (rule disjunctive_add_eq_or)
  have idx: "n div 8 < length v" using assms(1) by (simp add: less_mult_imp_div_less mult.commute)
  have "le_val (set_bit_le v n) = le_val v OR push_bit n 1"
  proof (rule bit_eqI)
    fix m
    have neq: "m = n \<longleftrightarrow> m div 8 = n div 8 \<and> m mod 8 = n mod 8"
      by (metis div_mult_mod_eq)
    show "bit (le_val (set_bit_le v n)) m \<longleftrightarrow> bit (le_val v OR push_bit n 1) m"
      using assms(1) idx neq
      by (auto simp: bit_le_val bit_or_iff bit_push_bit_iff bit_1_iff set_bit_le_def Let_def
          nth_list_update bit_simps split: if_splits)
  qed
  then show ?thesis using sum by (simp add: push_bit_eq_mult)
qed

section \<open>Shift and subtraction\<close>

lemma shl_arith:
  fixes u v :: nat
  shows "u < 256 \<Longrightarrow> v \<le> 1 \<Longrightarrow> (2 * u + v) mod 256 + 256 * (u div 128) = 2 * u + v"
  by (cases "u < 128") (simp_all add: le_div_geq le_mod_geq)

lemma shl_step:
  fixes b c :: u8
  assumes "unat c \<le> 1"
  shows "unat (push_bit 1 b OR c) + 256 * unat (drop_bit 7 b) = 2 * unat b + unat c"
    and "unat (drop_bit 7 b) \<le> 1"
proof -
  have c: "c = 0 \<or> c = 1"
    using assms by (auto simp: word_unat_eq_iff)
  have "push_bit 1 b AND c = 0"
    using c by (auto intro!: bit_eqI simp: bit_simps bit_0)
  then have "push_bit 1 b OR c = push_bit 1 b + c"
    by (simp add: disjunctive_add_eq_or)
  then have "unat (push_bit 1 b OR c) = (2 * unat b + unat c) mod 256"
    by (simp add: push_bit_eq_mult unat_word_ariths mod_simps mult.commute)
  moreover have "unat (drop_bit 7 b) = unat b div 128"
    unfolding unat_drop_bit_eq by (simp add: drop_bit_eq_div)
  ultimately show "unat (push_bit 1 b OR c) + 256 * unat (drop_bit 7 b) = 2 * unat b + unat c"
    and "unat (drop_bit 7 b) \<le> 1"
    using shl_arith [OF unat_u8_lt assms] unat_u8_lt [of b] by (simp_all add: less_mult_imp_div_less
        less_Suc_eq_le [symmetric])
qed

lemma place_mod:
  fixes x y B :: nat
  shows "x < 256 \<Longrightarrow> (x + 256 * y) mod (256 * B) = x + 256 * (y mod B)"
  by (simp add: mod_mult2_eq)

lemma shl_loop_val:
  "unat c \<le> 1 \<Longrightarrow>
     le_val (shl_loop c bs) = (2 * le_val bs + unat c) mod 256 ^ length bs \<and>
     length (shl_loop c bs) = length bs"
proof (induction c bs rule: shl_loop.induct)
  case (1 carry)
  then show ?case by simp
next
  case (2 carry b bs)
  let ?c = "drop_bit 7 b" and ?B = "256 ^ length bs"
  have step: "unat (push_bit 1 b OR carry) + 256 * unat ?c = 2 * unat b + unat carry"
    and c1: "unat ?c \<le> 1"
    using shl_step [OF "2.prems", of b] by simp_all
  have "le_val (shl_loop carry (b # bs)) =
      unat (push_bit 1 b OR carry) + 256 * ((2 * le_val bs + unat ?c) mod ?B)"
    using "2.IH" [OF c1] by simp
  also have "\<dots> = (2 * le_val (b # bs) + unat carry) mod 256 ^ length (b # bs)"
  proof -
    have "2 * le_val (b # bs) + unat carry =
        unat (push_bit 1 b OR carry) + 256 * (2 * le_val bs + unat ?c)"
      using step by simp
    then show ?thesis
      by (simp only: place_mod [OF unat_u8_lt] length_Cons power_Suc)
  qed
  finally show ?case using "2.IH" [OF c1] by simp
qed

lemma shl_one_u256_le_val:
  "le_val (shl_one_u256_le v) = 2 * le_val v mod 256 ^ length v"
  "length (shl_one_u256_le v) = length v"
  using shl_loop_val [of 0 v] by (simp_all add: shl_one_u256_le_def)

text \<open>
  One byte of the subtraction.  The borrow leaves the byte correctly as long as
  \<open>right[index] + borrow\<close> does not overflow \<open>u8\<close>.
\<close>

lemma sub_step:
  fixes l r borrow :: u8
  assumes "unat r + unat borrow < 256"
  shows "unat l + 256 * (if l < r + borrow then 1 else 0) =
      unat (l - (r + borrow)) + unat r + unat borrow"
proof -
  have s: "unat (r + borrow) = unat r + unat borrow"
    using assms by (simp add: unat_word_ariths)
  show ?thesis
    using unat_u8_lt [of l] assms
    by (auto simp: word_less_nat_alt unat_sub_if' s)
qed

definition no_ff :: "bytes \<Rightarrow> bool" where
  "no_ff bs \<longleftrightarrow> (\<forall>b \<in> set bs. b \<noteq> 255)"

lemma no_ff_simps [simp]: "no_ff []" "no_ff (b # bs) \<longleftrightarrow> b \<noteq> 255 \<and> no_ff bs"
  by (auto simp: no_ff_def)

lemma unat_not_ff: "b \<noteq> 255 \<Longrightarrow> unat (b :: u8) < 255"
  using unat_u8_lt [of b] by (cases "unat b = 255") (auto simp: word_unat_eq_iff)

lemma no_ff_sub: "no_ff r \<Longrightarrow> unat borrow \<le> 1 \<Longrightarrow> \<not> sub_overflows borrow l r"
proof (induction borrow l r rule: sub_overflows.induct)
  case (1 borrow l ls r rs)
  have "unat r + unat borrow < 256" using unat_not_ff [of r] 1(2,3) by simp
  then show ?case using 1 by (auto simp: checked_add_def)
qed auto

lemma sub_loop_exact:
  "length l = length r \<Longrightarrow> \<not> sub_overflows borrow l r \<Longrightarrow> unat borrow \<le> 1 \<Longrightarrow> sub_loop borrow l r = (out, b') \<Longrightarrow>
     le_val l + 256 ^ length l * unat b' = le_val out + le_val r + unat borrow \<and>
     length out = length l \<and> unat b' \<le> 1"
proof (induction borrow l r arbitrary: out b' rule: sub_loop.induct)
  case (1 borrow l ls r rs)
  let ?bw = "if l < r + borrow then 1 else (0 :: u8)"
  obtain out' where rec: "sub_loop ?bw ls rs = (out', b')" and out: "out = (l - (r + borrow)) # out'"
    using "1.prems"(4) by (auto split: prod.splits)
  have IH: "le_val ls + 256 ^ length ls * unat b' = le_val out' + le_val rs + unat ?bw \<and>
      length out' = length ls \<and> unat b' \<le> 1"
    using "1.IH" [OF _ _ _ rec] "1.prems" by auto
  have "unat r + unat borrow < 256"
    using "1.prems"(2) by (auto simp: checked_add_def split: if_splits)
  from sub_step [OF this, of l] IH show ?case
    by (cases "l < r + borrow") (simp_all add: out mult.assoc)
qed auto

lemma sub_u256_le_exact:
  assumes "length left = length right" and "\<not> sub_overflows 0 left right" and "le_val right \<le> le_val left"
  shows "\<exists>d. sub_u256_le left right = Some d \<and> le_val d = le_val left - le_val right \<and>
    length d = length left"
proof -
  obtain out b where loop: "sub_loop 0 left right = (out, b)" by fastforce
  have *: "le_val left + 256 ^ length left * unat b = le_val out + le_val right"
    "length out = length left" "unat b \<le> 1"
    using sub_loop_exact [OF assms(1,2) _ loop] by simp_all
  have "unat b = 0"
  proof (rule ccontr)
    assume "unat b \<noteq> 0"
    then have "unat b = 1" using *(3) by simp
    with *(1) assms(3) le_val_bound [of out] *(2) show False by simp
  qed
  with * loop show ?thesis by (auto simp: sub_u256_le_def unat_eq_0)
qed


section \<open>Division\<close>

lemma div_mod_double:
  fixes A D b :: nat
  assumes "0 < D" and "b \<le> 1"
  shows "D \<le> 2 * (A mod D) + b \<Longrightarrow>
      (2 * A + b) div D = 2 * (A div D) + 1 \<and> (2 * A + b) mod D = 2 * (A mod D) + b - D"
    and "2 * (A mod D) + b < D \<Longrightarrow>
      (2 * A + b) div D = 2 * (A div D) \<and> (2 * A + b) mod D = 2 * (A mod D) + b"
proof -
  let ?m = "A mod D"
  have split: "2 * A + b = D * (2 * (A div D)) + (2 * ?m + b)"
    using mult_div_mod_eq [of D A] by (metis add.assoc add_mult_distrib2 mult.left_commute)
  have m: "?m < D" using assms(1) by simp
  show "(2 * A + b) div D = 2 * (A div D) \<and> (2 * A + b) mod D = 2 * ?m + b"
    if "2 * ?m + b < D"
    using that by (simp add: split)
  show "(2 * A + b) div D = 2 * (A div D) + 1 \<and> (2 * A + b) mod D = 2 * ?m + b - D"
    if "D \<le> 2 * ?m + b"
  proof -
    have "2 * A + b = D * (2 * (A div D) + 1) + (2 * ?m + b - D)"
      using that split by (simp add: algebra_simps)
    moreover have "2 * ?m + b - D < D" using m assms(2) by linarith
    ultimately show ?thesis by (metis add_0 div_less div_mult_self4 less_not_refl mod_less
          mod_mult_self4 assms(1) div_mult_self2 add.commute mult.commute)
  qed
qed

lemma shifted_remainder_val:
  assumes "length dividend = 32" and "length rmd = 32" and "n < 256" and "2 * le_val rmd < 2 ^ 256"
  shows "le_val (shifted_remainder dividend n rmd) =
      2 * le_val rmd + (le_val dividend div 2 ^ n) mod 2 \<and>
      length (shifted_remainder dividend n rmd) = 32"
proof -
  let ?r1 = "shl_one_u256_le rmd"
  have r1: "le_val ?r1 = 2 * le_val rmd" "length ?r1 = 32"
    using assms(2,4) by (simp_all add: shl_one_u256_le_val)
  have upd: "?r1[0 := (?r1 ! 0) OR 1] = set_bit_le ?r1 0"
    by (simp add: set_bit_le_def)
  have "le_val (set_bit_le ?r1 0) = 2 * le_val rmd + 1"
    using set_bit_le_val [of 0 ?r1] r1 by simp
  then show ?thesis
    using assms(1,3) r1
    by (simp add: shifted_remainder_def Let_def upd bit_is_set_iff mod_2_eq_odd)
qed

lemma no_ff_div: "no_ff divisor \<Longrightarrow> \<not> div_overflows dividend divisor n st"
  by (induction n arbitrary: st) (auto simp: Let_def no_ff_sub split: option.splits)

lemma div_loop_exact:
  assumes "length dividend = 32" and "length divisor = 32" and "0 < le_val divisor"
  shows "n \<le> 256 \<Longrightarrow> length quot = 32 \<Longrightarrow> length rmd = 32 \<Longrightarrow>
      le_val rmd = (le_val dividend div 2 ^ n) mod le_val divisor \<Longrightarrow>
      le_val quot = ((le_val dividend div 2 ^ n) div le_val divisor) * 2 ^ n \<Longrightarrow>
      \<not> div_overflows dividend divisor n (quot, rmd) \<Longrightarrow>
      \<exists>q. div_loop dividend divisor n (quot, rmd) = Some q \<and>
        le_val q = le_val dividend div le_val divisor \<and> length q = 32"
proof (induction n arbitrary: quot rmd)
  case 0
  then show ?case by simp
next
  case (Suc n)
  let ?V = "le_val dividend" and ?D = "le_val divisor"
  let ?A = "?V div 2 ^ Suc n" and ?b = "(?V div 2 ^ n) mod 2"
  let ?r2 = "shifted_remainder dividend n rmd"
  have next_bit: "?V div 2 ^ n = 2 * ?A + ?b"
    by (simp add: div_mult2_eq mult.commute [of 2 "2 ^ n"])
  have "?V < 2 ^ 256"
    using le_val_bound [of dividend] assms(1) by (simp add: power_mult [symmetric])
  then have "?A < 2 ^ (256 - Suc n)"
    using Suc.prems(1) by (simp add: less_mult_imp_div_less power_add [symmetric] del: power_Suc)
  also have "\<dots> \<le> 2 ^ 255" by (rule power_increasing) simp_all
  finally have "?A < 2 ^ 255" .
  then have "le_val rmd < 2 ^ 255"
    unfolding Suc.prems(4) by (rule le_less_trans [OF mod_less_eq_dividend])
  then have small: "2 * le_val rmd < 2 ^ 256" by simp
  note pos = assms(3)
  have r2: "le_val ?r2 = 2 * (?A mod ?D) + ?b" "length ?r2 = 32"
    using shifted_remainder_val [OF assms(1) Suc.prems(3) _ small, of n] Suc.prems(1,4) by simp_all
  have cmp: "cmp_le divisor ?r2 \<noteq> Greater \<longleftrightarrow> ?D \<le> le_val ?r2"
    using assms(2) r2(2) by (auto simp: cmp_le_val)
  show ?case
  proof (cases "?D \<le> le_val ?r2")
    case True
    then obtain r3 where r3: "sub_u256_le ?r2 divisor = Some r3"
      "le_val r3 = le_val ?r2 - ?D" "length r3 = 32"
      using sub_u256_le_exact [of ?r2 divisor] assms(2) r2(2) Suc.prems(6) cmp by (auto simp: Let_def)
    have step: "(?V div 2 ^ n) div ?D = 2 * (?A div ?D) + 1"
      "(?V div 2 ^ n) mod ?D = le_val ?r2 - ?D"
      using div_mod_double(1) [OF pos, of ?b ?A] True r2(1) next_bit by simp_all
    have "le_val (set_bit_le quot n) = ((?V div 2 ^ n) div ?D) * 2 ^ n"
      using set_bit_le_val [of n quot] Suc.prems(1,2,5) step(1) by (simp add: algebra_simps)
    then show ?thesis
      using Suc.IH [of "set_bit_le quot n" r3] Suc.prems(1,2,6) r3 step(2) True cmp
      by (simp add: div_step_def Let_def)
  next
    case False
    have step: "(?V div 2 ^ n) div ?D = 2 * (?A div ?D)" "(?V div 2 ^ n) mod ?D = le_val ?r2"
      using div_mod_double(2) [OF pos, of ?b ?A] False r2(1) next_bit by simp_all
    then show ?thesis
      using Suc.IH [of quot ?r2] Suc.prems(1,2,5,6) r2 False cmp
      by (simp add: div_step_def Let_def mult.assoc mult.commute [of _ 2])
  qed
qed

lemma zero_u256_val [simp]: "le_val zero_u256 = 0" "length zero_u256 = 32"
  by (simp_all add: zero_u256_def)

lemma eq_zero_u256_iff: "length v = 32 \<Longrightarrow> v = zero_u256 \<longleftrightarrow> le_val v = 0"
  by (metis le_val_eq_0_iff zero_u256_def zero_u256_val(1))

lemma div_u256_le_exact:
  assumes "length dividend = 32" and "length divisor = 32"
    and "cmp_le dividend divisor \<noteq> Less \<Longrightarrow> \<not> div_overflows dividend divisor 256 (zero_u256, zero_u256)"
    and "divisor \<noteq> zero_u256"
  shows "\<exists>q. div_u256_le dividend divisor = Some q \<and>
    le_val q = le_val dividend div le_val divisor \<and> length q = 32"
proof (cases "cmp_le dividend divisor = Less")
  case True
  then show ?thesis using assms by (simp add: div_u256_le_def cmp_le_val)
next
  case False
  have "le_val dividend < 2 ^ 256"
    using le_val_bound [of dividend] assms(1) by simp
  then have "le_val dividend div 2 ^ 256 = 0" by simp
  then show ?thesis
    using False assms div_loop_exact [OF assms(1,2), of 256 zero_u256 zero_u256]
    by (auto simp: div_u256_le_def eq_zero_u256_iff)
qed


section \<open>Properties\<close>

text \<open>Long division: for 32-byte operands the quotient is the floor of the quotient of the
  numbers, whenever no byte of the divisor is \<open>0xff\<close> (the bytes on which the borrow of
  \<open>sub_u256_le\<close> can be lost).\<close>

theorem div_u256_le_floor:
  assumes "length dividend = 32" and "length divisor = 32" and "no_ff divisor"
    and "divisor \<noteq> zero_u256"
  shows "map_option le_val (div_u256_le dividend divisor) =
    Some (le_val dividend div le_val divisor)"
  using div_u256_le_exact [OF assms(1,2) no_ff_div [OF assms(3)] assms(4)] by auto

theorem div_u256_le_floor_witness:
  "map_option le_val (div_u256_le (100 # replicate 31 0) (7 # replicate 31 0)) = Some (100 div 7)"
proof -
  have "length (7 # replicate 31 0 :: bytes) = 32" "no_ff (7 # replicate 31 0)"
    "7 # replicate 31 0 \<noteq> zero_u256"
    by (simp_all add: zero_u256_def eval_simps)
  then show ?thesis
    using div_u256_le_floor [of "100 # replicate 31 0" "7 # replicate 31 0"] by simp
qed

text \<open>The identity behind \<open>GetBlockProof\<close>: \<open>(~t / (t + 1)) + 1\<close> is \<open>2^256 / (t + 1)\<close>.\<close>

lemma proof_identity:
  fixes t :: nat
  assumes "t + 1 \<le> N"
  shows "(N - 1 - t) div (t + 1) + 1 = N div (t + 1)"
proof -
  have "N - 1 - t = N - (t + 1)" by simp
  then show ?thesis using assms by (simp add: le_div_geq)
qed

lemma le_val_lt_256: "length v = 32 \<Longrightarrow> le_val v < 2 ^ 256"
  using le_val_bound [of v] by simp

lemma work_from_target_exact:
  assumes len: "length t = 32" and t0: "t \<noteq> zero_u256"
    and succ: "add_u256_le t 1 = Some t1" and safe: "\<not> work_overflows t"
  shows "map_option le_val (work_from_target t) = Some (2 ^ 256 div (le_val t + 1))"
proof -
  have t1: "le_val t1 = le_val t + 1" "length t1 = 32"
    using add_u256_le_exact [OF succ] len by simp_all
  have inv: "le_val (not_u256_le t) = 2 ^ 256 - 1 - le_val t" "length (not_u256_le t) = 32"
    using not_u256_le_val [of t] len by (auto simp: eq_diff_iff intro: add_implies_diff)
  have bound: "le_val t + 1 < 2 ^ 256"
    using le_val_lt_256 [OF t1(2)] t1(1) by simp
  have "t1 \<noteq> zero_u256" using t1 by auto
  then obtain q where q: "div_u256_le (not_u256_le t) t1 = Some q"
    "le_val q = (2 ^ 256 - 1 - le_val t) div (le_val t + 1)" "length q = 32"
    using div_u256_le_exact [OF inv(2) t1(2)] safe inv(1) t1(1) by (auto simp: work_overflows_def succ)
  have "0 < le_val t" using t0 len by (simp add: eq_zero_u256_iff)
  then have "2 ^ 256 div (le_val t + 1) < (2 ^ 256 :: nat)" by (simp add: int_div_less_self)
  moreover have work: "le_val q + 1 = 2 ^ 256 div (le_val t + 1)"
    unfolding q(2) by (rule proof_identity) (use bound in simp)
  ultimately obtain w where "add_u256_le q 1 = Some w" "le_val w = le_val q + 1"
    using add_u256_le_succeeds [of 1 q] q(3) by auto
  then show ?thesis using t0 succ q(1) work by (simp add: work_from_target_def)
qed

lemma no_ff_work: "add_u256_le t 1 = Some t1 \<Longrightarrow> no_ff t1 \<Longrightarrow> \<not> work_overflows t"
  by (simp add: work_overflows_def no_ff_div)

text \<open>Up to a prefix of the dividend that is less than the divisor the quotient is zero and the remainder the prefix.\<close>

lemma div_prefix:
  assumes "length dividend = 32" and "length divisor = 32" and "length r = 32"
    and "le_val dividend div 2 ^ n = le_val r" and "le_val r < le_val divisor"
  shows "m \<le> 256 \<Longrightarrow> n \<le> m \<Longrightarrow> length s = 32 \<Longrightarrow> le_val s = le_val dividend div 2 ^ m \<Longrightarrow>
    div_loop dividend divisor m (quot, s) = div_loop dividend divisor n (quot, r) \<and>
    div_overflows dividend divisor m (quot, s) = div_overflows dividend divisor n (quot, r)"
proof (induction m arbitrary: s)
  case 0
  then have "s = r" using assms(3,4) le_val_inj [of s r] by simp
  then show ?case using 0 by simp
next
  case (Suc m)
  show ?case
  proof (cases "n = Suc m")
    case True
    then have "s = r" using assms(3,4) Suc.prems(3,4) le_val_inj [of s r] by simp
    then show ?thesis using True by simp
  next
    case False
    let ?V = "le_val dividend" and ?r2 = "shifted_remainder dividend m s"
    have bit: "?V div 2 ^ m = 2 * (?V div 2 ^ Suc m) + (?V div 2 ^ m) mod 2"
      by (simp add: div_mult2_eq mult.commute [of 2 "2 ^ m"])
    have "?V div 2 ^ m \<le> ?V div 2 ^ n" using False Suc.prems(2) by (intro div_le_mono2 power_increasing) auto
    then have less: "?V div 2 ^ m < le_val divisor" using assms(4,5) by simp
    then have "2 * le_val s < 2 ^ 256"
      using bit le_val_bound [of divisor] assms(2) Suc.prems(4) by simp
    then have r2: "le_val ?r2 = ?V div 2 ^ m" "length ?r2 = 32"
      using shifted_remainder_val [OF assms(1) Suc.prems(3), of m] Suc.prems(1,4) bit by simp_all
    then have "cmp_le divisor ?r2 = Greater" using less assms(2) by (simp add: cmp_le_val)
    then have "div_step dividend divisor m (quot, s) = Some (quot, ?r2)" by (simp add: div_step_def Let_def)
    moreover note \<open>cmp_le divisor ?r2 = Greater\<close>
    moreover note Suc.IH [OF _ _ r2(2,1)]
    ultimately show ?thesis using Suc.prems(1,2) False by (simp add: Let_def)
  qed
qed

lemma div_from:
  assumes "length dividend = 32" and "length divisor = 32" and "length r = 32"
    and "le_val dividend div 2 ^ n = le_val r" and "le_val r < le_val divisor" and "n \<le> 256"
  shows "div_loop dividend divisor 256 (zero_u256, zero_u256) = div_loop dividend divisor n (zero_u256, r)"
    "div_overflows dividend divisor 256 (zero_u256, zero_u256) = div_overflows dividend divisor n (zero_u256, r)"
  using div_prefix [OF assms(1-5), of 256 zero_u256 zero_u256] le_val_bound [of dividend] assms(1,6) by simp_all

lemma div_loop_numeral:
  "div_loop dividend divisor (numeral k) st =
     (case div_step dividend divisor (pred_numeral k) st of
        None \<Rightarrow> None
      | Some st' \<Rightarrow> div_loop dividend divisor (pred_numeral k) st')"
  "div_overflows dividend divisor (numeral k) st =
     (let r2 = shifted_remainder dividend (pred_numeral k) (snd st) in
      cmp_le divisor r2 \<noteq> Greater \<and> sub_overflows 0 r2 divisor \<or>
      (case div_step dividend divisor (pred_numeral k) st of
         None \<Rightarrow> False
       | Some st' \<Rightarrow> div_overflows dividend divisor (pred_numeral k) st'))"
  by (simp_all only: numeral_eq_Suc [of k] div_loop.simps div_overflows.simps)

lemmas div_eval = div_loop_numeral eval_simps zero_u256_def div_step_def shifted_remainder_def
  shl_one_u256_le_def cmp_le_def bit_is_set_def sub_u256_le_def set_bit_le_def unat_minus_1


text \<open>The target of the bits \<open>0x1d00ffff\<close>, the easiest of the main network.\<close>

definition main_target :: bytes where
  "main_target = replicate 26 0 @ [0xff, 0xff] @ replicate 4 0"

lemma main_target_vals:
  "length main_target = 32" "le_val main_target = 0xffff * 2 ^ 208"
  "add_u256_le main_target 1 = Some (1 # replicate 25 0 @ [0xff, 0xff] @ replicate 4 0)"
  "not_u256_le main_target = replicate 26 0xff @ [0, 0] @ replicate 4 0xff"
  by (simp_all add: main_target_def le_val_append unat_minus_1 add_u256_le_def eval_simps checked_add_def not_u256_le_def)

lemma main_target_safe: "\<not> work_overflows main_target"
proof -
  let ?V = "replicate 26 0xff @ [0, 0] @ replicate 4 0xff :: bytes" and ?D = "1 # replicate 25 0 @ [0xff, 0xff] @ replicate 4 0 :: bytes"
  let ?r = "replicate 21 0xff @ [0x7f, 0, 0x80, 0xff, 0xff, 0xff, 0x7f] @ replicate 4 0 :: bytes"
  have "div_overflows ?V ?D 256 (zero_u256, zero_u256) = div_overflows ?V ?D 33 (zero_u256, ?r)"
    by (rule div_from) (simp_all add: le_val_append unat_minus_1 eval_simps)
  also have "\<dots> = False"
    by (simp add: div_eval Let_def checked_add_def)
  finally show ?thesis by (simp add: work_overflows_def main_target_vals)
qed


text \<open>
  C40. Per-block work: for a 32-byte target, \<open>work_from_target\<close> refuses zero and all ones and otherwise succeeds
  with \<open>floor(2 ^ 256 / (target + 1))\<close>, whenever no sum \<open>right[index] + borrow\<close> of its long division leaves the range of
  \<open>u8\<close>: a build with overflow checks never returns anything else (it panics), a release build returns the floor
  at least for these targets, the main network's easiest among them.
\<close>

theorem work_from_target_floor:
  assumes "length t = 32" and "\<not> work_overflows t"
  shows "map_option le_val (work_from_target t) =
    (if le_val t = 0 \<or> le_val t = 2 ^ 256 - 1 then None else Some (2 ^ 256 div (le_val t + 1)))"
proof (cases "le_val t = 0 \<or> le_val t = 2 ^ 256 - 1")
  case True
  then have "t = zero_u256 \<or> add_u256_le t 1 = None"
    using assms(1) add_u256_le_overflow [of t 1] by (auto simp: eq_zero_u256_iff)
  then show ?thesis using True by (auto simp: work_from_target_def)
next
  case False
  then have "le_val t + 1 < 2 ^ 256" using le_val_lt_256 [OF assms(1)] by simp
  then obtain t1 where "add_u256_le t 1 = Some t1"
    using add_u256_le_succeeds [of 1 t] assms(1) by auto
  then show ?thesis using work_from_target_exact [OF assms(1) _ _ assms(2)] False assms(1) by (simp add: eq_zero_u256_iff)
qed

theorem work_from_target_floor_witness:
  "map_option le_val (work_from_target main_target) = Some (2 ^ 256 div (0xffff * 2 ^ 208 + 1))"
  using work_from_target_floor [OF main_target_vals(1) main_target_safe] unfolding main_target_vals(2) by simp

text \<open>
  Outside these targets the work can be wrong: for the bits \<open>0x1c08ffe3\<close> a release build computes
  128781910016 instead of 122173965594.
\<close>

definition bad_target :: bytes where
  "bad_target = replicate 25 0 @ [0xe3, 0xff, 0x08] @ replicate 4 0"

theorem work_from_target_wrong:
  "map_option le_val (work_from_target bad_target) = Some 128781910016 \<and>
   2 ^ 256 div (le_val bad_target + 1) = 122173965594 \<and> work_overflows bad_target"
proof -
  let ?V = "replicate 25 0xff @ [0x1c, 0, 0xf7] @ replicate 4 0xff :: bytes" and ?D = "1 # replicate 24 0 @ [0xe3, 0xff, 0x08] @ replicate 4 0 :: bytes"
  let ?r = "replicate 20 0xff @ [0xe7, 0, 0xb8, 0xff, 0xff, 0xff, 0xff, 0x07] @ replicate 4 0 :: bytes"
  have vals: "le_val bad_target = 0x08ffe3 * 2 ^ 200" "add_u256_le bad_target 1 = Some ?D" "not_u256_le bad_target = ?V"
    "bad_target \<noteq> zero_u256" "?D \<noteq> zero_u256"
    by (simp_all add: bad_target_def le_val_append unat_minus_1 add_u256_le_def eval_simps checked_add_def not_u256_le_def zero_u256_def)
  have cmp: "cmp_le ?V ?D \<noteq> Less" by (simp add: cmp_le_def eval_simps)
  note from37 = div_from [of ?V ?D ?r 37]
  have pre: "length ?V = 32" "length ?D = 32" "length ?r = 32" "le_val ?V div 2 ^ 37 = le_val ?r" "le_val ?r < le_val ?D"
    by (simp_all add: le_val_append unat_minus_1 eval_simps)
  have "div_u256_le ?V ?D = div_loop ?V ?D 37 (zero_u256, ?r)"
    using cmp vals(5) from37(1) [OF pre] by (simp add: div_u256_le_def)
  also have "\<dots> = Some ([0xff, 0xff, 0xff, 0xfb, 0x1d] @ replicate 27 0)"
    by (simp add: div_eval Let_def)
  finally have quot: "div_u256_le ?V ?D = Some ([0xff, 0xff, 0xff, 0xfb, 0x1d] @ replicate 27 0)" .
  have "work_from_target bad_target = add_u256_le ([0xff, 0xff, 0xff, 0xfb, 0x1d] @ replicate 27 0) 1"
    unfolding work_from_target_def vals(2,3) option.case(2) quot using vals(4) by simp
  also have "\<dots> = Some ([0, 0, 0, 0xfc, 0x1d] @ replicate 27 0)"
    by (simp add: add_u256_le_def checked_add_def eval_simps)
  finally have "map_option le_val (work_from_target bad_target) = Some 128781910016"
    by (simp add: le_val_append)
  moreover have "div_overflows ?V ?D 37 (zero_u256, ?r)"
    by (simp add: div_eval Let_def checked_add_def)
  ultimately show ?thesis using from37(2) [OF pre] cmp by (simp add: work_overflows_def vals)
qed

text \<open>The lost borrow makes a wrong quotient: \<open>div_u256_le\<close> of \<open>0x20000\<close> by \<open>0xff01\<close> is 3 instead
  of 2, because \<open>right[index] + borrow\<close> wraps to 0 at the divisor byte \<open>0xff\<close> (a build with overflow
  checks panics there).\<close>

theorem div_u256_le_loses_borrow:
  "map_option le_val (div_u256_le ([0, 0, 2] @ replicate 29 0) ([1, 0xff] @ replicate 30 0)) = Some 3 \<and>
   le_val ([0, 0, 2] @ replicate 29 0) div le_val ([1, 0xff] @ replicate 30 0) = 2"
proof
  let ?V = "[0, 0, 2] @ replicate 29 0 :: bytes" and ?D = "[1, 0xff] @ replicate 30 0 :: bytes"
  have vals: "le_val ?V = 131072" "le_val ?D = 65281"
    by (simp_all add: le_val_append unat_minus_1)
  have "div_u256_le ?V ?D = div_loop ?V ?D 256 (zero_u256, zero_u256)"
    using vals by (auto simp: div_u256_le_def cmp_le_val eq_zero_u256_iff)
  also have "\<dots> = div_loop ?V ?D 18 (zero_u256, zero_u256)"
    by (rule div_from) (simp_all add: vals)
  also have "map_option le_val \<dots> = Some 3"
    by (simp add: div_eval)
  finally show "map_option le_val (div_u256_le ?V ?D) = Some 3" .
  show "le_val ?V div le_val ?D = 2"
    unfolding vals by simp
qed

end
