(* ===== verification/Pow.thy ===== *)
theory Pow
  imports U256
begin

text \<open>
  \<open>crates/bitrst-core/src/pow.rs\<close>: proof-of-work targets, Bitcoin's compact \<open>bits\<close> encoding and
  the comparison of a block hash with a target.
\<close>

section \<open>Definitions\<close>

record pow_target =
  threshold :: bytes

definition from_threshold :: "bytes \<Rightarrow> pow_target" where
  "from_threshold t = \<lparr>threshold = t\<rparr>"

definition from_bits :: "u32 \<Rightarrow> pow_target option" where
  "from_bits bits =
     (let ex = unat (drop_bit 24 bits);
          mantissa = bits AND 0x007fffff
      in if mantissa = 0 \<or> bits AND 0x00800000 \<noteq> 0 then None
         else if ex \<le> 3 then
           (let v = drop_bit (8 * (3 - ex)) mantissa
            in Some \<lparr>threshold = copy_at 0 (take 3 (u32_to_le_bytes v)) (replicate 32 0)\<rparr>)
         else
           (let offset = ex - 3
            in if offset + 3 > 32 then None
               else Some \<lparr>threshold = copy_at offset (take 3 (u32_to_le_bytes mantissa)) (replicate 32 0)\<rparr>))"

definition easy_target :: pow_target where
  "easy_target = \<lparr>threshold = replicate 32 0xff\<rparr>"

definition compare_internal_hash :: "bytes \<Rightarrow> bytes \<Rightarrow> ordering" where
  "compare_internal_hash left right = lex_cmp (rev left) (rev right)"

definition meets :: "pow_target \<Rightarrow> hash32 \<Rightarrow> bool" where
  "meets t h \<longleftrightarrow> compare_internal_hash h (threshold t) \<noteq> Greater"

definition to_work :: "pow_target \<Rightarrow> bytes option" where
  "to_work t = work_from_target (threshold t)"

text \<open>The scan of \<open>significant_size\<close> over \<open>(0..32).rev()\<close>.\<close>

fun significant_size_from :: "bytes \<Rightarrow> nat \<Rightarrow> nat option" where
  "significant_size_from t 0 = None"
| "significant_size_from t (Suc index) =
     (if t ! index \<noteq> 0 then Some (index + 1) else significant_size_from t index)"

definition significant_size :: "bytes \<Rightarrow> nat option" where
  "significant_size t = significant_size_from t 32"

definition to_bits :: "pow_target \<Rightarrow> u32 option" where
  "to_bits tgt =
     (case significant_size (threshold tgt) of
        None \<Rightarrow> None
      | Some size0 \<Rightarrow>
          let t = threshold tgt;
              mantissa0 =
                (if size0 \<le> 3 then
                   (let v = foldl (\<lambda>v index. v OR push_bit (8 * index) (ucast (t ! index) :: u64)) 0 [0..<size0]
                    in ucast (push_bit (8 * (3 - size0)) v))
                 else
                   (let offset = size0 - 3
                    in ucast (t ! offset) OR push_bit 8 (ucast (t ! (offset + 1)))
                       OR push_bit 16 (ucast (t ! (offset + 2))))) :: u32;
              (mantissa, size) =
                (if mantissa0 AND 0x00800000 \<noteq> 0
                 then (drop_bit 8 mantissa0, word_of_nat size0 + 1)
                 else (mantissa0, word_of_nat size0 :: u32))
          in if mantissa > 0x007fffff then None
             else Some (push_bit 24 size OR mantissa))"

section \<open>Comparison with the target\<close>

lemma meets_iff:
  "length h = 32 \<Longrightarrow> length (threshold t) = 32 \<Longrightarrow> meets t h \<longleftrightarrow> le_val h \<le> le_val (threshold t)"
  using cmp_le_val [of h "threshold t"]
  by (auto simp: meets_def compare_internal_hash_def cmp_le_def)

section \<open>Decoding\<close>

lemma and_7fffff: "unat (w AND 0x007fffff) = unat w mod 2 ^ 23" for w :: u32
proof -
  have "(0x007fffff :: u32) = mask 23" by (simp add: mask_eq_exp_minus_1)
  then show ?thesis using and_mask_unat [of w 23] by simp
qed

lemma and_800000: "w AND 0x00800000 \<noteq> 0 \<longleftrightarrow> odd (unat w div 2 ^ 23)" for w :: u32
proof -
  have "(0x00800000 :: u32) = push_bit 23 1" by (simp add: push_bit_eq_mult)
  then have "w AND 0x00800000 \<noteq> 0 \<longleftrightarrow> bit w 23"
    by (simp only: bit_iff_and_push_bit_not_eq_0)
  also have "\<dots> \<longleftrightarrow> bit (unat w) 23" by (simp add: bit_unsigned_iff)
  finally show ?thesis by (simp add: bit_iff_odd)
qed

lemma le_val_copy_at:
  assumes "off + length src \<le> 32"
  shows "le_val (copy_at off src (replicate 32 0)) = 256 ^ off * le_val src"
  using assms by (simp add: copy_at_def le_val_append min_def)

lemma le_val_take3: "unat w < 2 ^ 24 \<Longrightarrow> le_val (take 3 (u32_to_le_bytes w)) = unat w" for w :: u32
  by (simp add: le_val_take_drop le_val_to_le)

text \<open>The number a compact encoding stands for.\<close>

definition compact_value :: "nat \<Rightarrow> nat \<Rightarrow> nat" where
  "compact_value ex m = (if ex \<le> 3 then m div 256 ^ (3 - ex) else m * 256 ^ (ex - 3))"

lemma power_256: "256 ^ k = (2 :: nat) ^ (8 * k)"
  by (simp add: power_mult)

text \<open>\<open>from_bits\<close> with its conditions read as numbers.\<close>

lemma from_bits_alt:
  "from_bits bits =
     (let ex = unat bits div 2 ^ 24; m = unat bits mod 2 ^ 23
      in if m = 0 \<or> odd (unat bits div 2 ^ 23) then None
         else if ex \<le> 3 then
           Some \<lparr>threshold = copy_at 0 (take 3 (u32_to_le_bytes (drop_bit (8 * (3 - ex)) (bits AND 0x007fffff))))
                               (replicate 32 0)\<rparr>
         else if ex - 3 + 3 > 32 then None
         else Some \<lparr>threshold = copy_at (ex - 3) (take 3 (u32_to_le_bytes (bits AND 0x007fffff)))
                                    (replicate 32 0)\<rparr>)"
proof -
  have "bits AND 0x007fffff = 0 \<longleftrightarrow> unat bits mod 2 ^ 23 = 0"
    by (simp only: and_7fffff [symmetric] unat_eq_0)
  then show ?thesis
    unfolding from_bits_def Let_def unat_drop_bit_div and_800000 by (simp only:)
qed

lemma from_bits_Some:
  "from_bits bits = Some t \<Longrightarrow>
     length (threshold t) = 32 \<and>
     le_val (threshold t) = compact_value (unat bits div 2 ^ 24) (unat bits mod 2 ^ 23) \<and>
     unat bits div 2 ^ 24 \<le> 32 \<and> even (unat bits div 2 ^ 23) \<and> unat bits mod 2 ^ 23 \<noteq> 0"
proof -
  assume dec: "from_bits bits = Some t"
  define e m where "e = unat bits div 2 ^ 24" and "m = unat bits mod 2 ^ 23"
  note dec' = dec [unfolded from_bits_alt Let_def, folded e_def m_def]
  have w: "unat (bits AND 0x007fffff) = m" unfolding m_def by (rule and_7fffff)
  have m_lt: "m < 2 ^ 24" unfolding m_def by (rule less_trans [of _ "2 ^ 23"]) simp_all
  from dec' have rest: "m \<noteq> 0" "even (unat bits div 2 ^ 23)"
    by (auto simp only: split: if_splits)
  have "length (threshold t) = 32 \<and> le_val (threshold t) = compact_value e m \<and> e \<le> 32"
  proof (cases "e \<le> 3")
    case True
    let ?v = "drop_bit (8 * (3 - e)) (bits AND 0x007fffff)"
    have v: "unat ?v = m div 256 ^ (3 - e)"
      by (simp only: unat_drop_bit_div power_256 w)
    then have "unat ?v < 2 ^ 24"
      using m_lt by (metis div_le_dividend le_less_trans)
    moreover have "threshold t = copy_at 0 (take 3 (u32_to_le_bytes ?v)) (replicate 32 0)"
      using dec' rest True by auto
    ultimately show ?thesis
      using True v by (simp add: le_val_copy_at le_val_take3 compact_value_def)
  next
    case False
    then have "threshold t = copy_at (e - 3) (take 3 (u32_to_le_bytes (bits AND 0x007fffff))) (replicate 32 0)"
      and off: "e - 3 + 3 \<le> 32"
      using dec' rest by (auto split: if_splits)
    then show ?thesis
      using False w m_lt by (simp add: le_val_copy_at le_val_take3 compact_value_def mult.commute)
  qed
  then show ?thesis using rest unfolding e_def m_def by blast
qed

section \<open>Encoding\<close>

lemma significant_size_from_None: "significant_size_from t k = None \<longleftrightarrow> (\<forall>i<k. t ! i = 0)"
  by (induction k) (auto simp: less_Suc_eq)

lemma significant_size_from_Some:
  "significant_size_from t k = Some n \<Longrightarrow> 0 < n \<and> n \<le> k \<and> t ! (n - 1) \<noteq> 0 \<and> (\<forall>i. n \<le> i \<and> i < k \<longrightarrow> t ! i = 0)"
proof (induction k)
  case (Suc k)
  show ?case
  proof (cases "t ! k \<noteq> 0")
    case True
    then show ?thesis using Suc by auto
  next
    case False
    then show ?thesis using Suc by (auto simp: less_Suc_eq)
  qed
qed simp

lemma le_val_suffix_zero: "(\<forall>i. n \<le> i \<and> i < length t \<longrightarrow> t ! i = 0) \<Longrightarrow> le_val t < 256 ^ n"
proof -
  assume "\<forall>i. n \<le> i \<and> i < length t \<longrightarrow> t ! i = 0"
  then have "drop n t = replicate (length (drop n t)) 0"
    by (intro nth_equalityI) (auto simp: nth_append)
  then have "le_val (drop n t) = 0" by (metis le_val_replicate_0)
  then have "le_val t div 256 ^ n = 0" by (simp only: le_val_take_drop)
  then show ?thesis by (simp add: div_eq_0_iff)
qed

lemma le_val_nth_ge: "i < length t \<Longrightarrow> t ! i \<noteq> 0 \<Longrightarrow> 256 ^ i \<le> le_val t"
proof -
  assume "i < length t" "t ! i \<noteq> 0"
  then have "drop i t = t ! i # drop (Suc i) t" "0 < unat (t ! i)"
    by (auto simp: Cons_nth_drop_Suc unat_gt_0)
  then have "0 < le_val (drop i t)" by simp
  then have "0 < le_val t div 256 ^ i" by (simp only: le_val_take_drop)
  then show ?thesis by (simp add: div_greater_zero_iff)
qed

lemma significant_size_Some:
  assumes "significant_size t = Some n" and "length t = 32"
  shows "0 < n" "n \<le> 32" "256 ^ (n - 1) \<le> le_val t" "le_val t < 256 ^ n"
proof -
  note s = significant_size_from_Some [OF assms(1) [unfolded significant_size_def]]
  then show "0 < n" "n \<le> 32" by auto
  show "256 ^ (n - 1) \<le> le_val t" using s assms(2) by (intro le_val_nth_ge) auto
  show "le_val t < 256 ^ n" using s assms(2) by (intro le_val_suffix_zero) auto
qed

lemma significant_size_None:
  assumes "significant_size t = None" and "length t = 32"
  shows "le_val t = 0"
proof -
  have "\<forall>i<32. t ! i = 0" using assms(1) unfolding significant_size_def significant_size_from_None .
  then have "le_val t < 256 ^ 0" using assms(2) by (intro le_val_suffix_zero) auto
  then show ?thesis by simp
qed

lemma or_bytes_u32:
  "unat (ucast a OR push_bit 8 (ucast b) OR push_bit 16 (ucast c) :: u32) = le_val [a, b, c]"
  for a b c :: u8
proof -
  have c: "unat (push_bit 8 (ucast b) OR push_bit 16 (ucast c) :: u32) = 256 * (unat b + 256 * unat c)"
  proof -
    have "push_bit 8 (ucast b) OR push_bit 16 (ucast c :: u32) = push_bit 8 (push_bit 8 (ucast c) OR ucast b)"
      by (simp add: push_bit_or or.commute)
    moreover have u: "unat (push_bit 8 (ucast c) OR ucast b :: u32) = unat c * 2 ^ 8 + unat b"
      using unat_u8_lt [of b] unat_u8_lt [of c] by (subst unat_push_or) simp_all
    moreover have "unat (push_bit 8 (push_bit 8 (ucast c) OR ucast b) OR 0 :: u32) = (unat c * 2 ^ 8 + unat b) * 2 ^ 8"
      using unat_u8_lt [of b] unat_u8_lt [of c] u by (subst unat_push_or) simp_all
    ultimately show ?thesis by simp
  qed
  have "unat (push_bit 8 (push_bit 8 (ucast c) OR ucast b) OR ucast a :: u32)
      = (unat c * 2 ^ 8 + unat b) * 2 ^ 8 + unat a"
  proof -
    have u: "unat (push_bit 8 (ucast c) OR ucast b :: u32) = unat c * 2 ^ 8 + unat b"
      using unat_u8_lt [of b] unat_u8_lt [of c] by (subst unat_push_or) simp_all
    show ?thesis
      using unat_u8_lt [of a] unat_u8_lt [of b] unat_u8_lt [of c] u by (subst unat_push_or) simp_all
  qed
  moreover have "push_bit 8 (push_bit 8 (ucast c) OR ucast b) OR ucast a
      = (ucast a OR push_bit 8 (ucast b) OR push_bit 16 (ucast c) :: u32)"
    by (simp add: push_bit_or or.commute or.left_commute)
  ultimately show ?thesis by simp
qed

lemma or_bytes_u64:
  "unat (ucast a OR push_bit 8 (ucast b) :: u64) = le_val [a, b]"
  "unat ((ucast a OR push_bit 8 (ucast b)) OR push_bit 16 (ucast c) :: u64) = le_val [a, b, c]"
  for a b c :: u8
proof -
  show ab: "unat (ucast a OR push_bit 8 (ucast b) :: u64) = le_val [a, b]"
    using unat_u8_lt [of a] unat_u8_lt [of b] by (subst unat_push_or) simp_all
  then show "unat ((ucast a OR push_bit 8 (ucast b)) OR push_bit 16 (ucast c) :: u64) = le_val [a, b, c]"
    using unat_u8_lt [of a] unat_u8_lt [of b] unat_u8_lt [of c] by (subst unat_push_or) simp_all
qed

lemma take_3_drop:
  assumes "k + 3 \<le> length t"
  shows "take 3 (drop k t) = [t ! k, t ! (k + 1), t ! (k + 2)]"
  using assms by (simp add: numeral_3_eq_3 numeral_2_eq_2 Cons_nth_drop_Suc [symmetric] del: Cons_nth_drop_Suc)

text \<open>The mantissa before normalisation, as a number.\<close>

definition raw_mantissa :: "nat \<Rightarrow> nat \<Rightarrow> nat" where
  "raw_mantissa n v = (if n \<le> 3 then v * 256 ^ (3 - n) else v div 256 ^ (n - 3))"

lemma raw_mantissa_lt: "v < 256 ^ n \<Longrightarrow> raw_mantissa n v < 2 ^ 24"
proof -
  assume v: "v < 256 ^ n"
  show ?thesis
  proof (cases "n \<le> 3")
    case True
    then have "v * 256 ^ (3 - n) < 256 ^ n * 256 ^ (3 - n)" using v by simp
    also have "\<dots> = 256 ^ 3" using True by (simp flip: power_add)
    finally show ?thesis using True by (simp add: raw_mantissa_def)
  next
    case False
    then have "(256 :: nat) ^ n = 256 ^ 3 * 256 ^ (n - 3)" by (simp only: power_add [symmetric]) simp
    then have "v div 256 ^ (n - 3) < 256 ^ 3" using v by (simp add: less_mult_imp_div_less)
    then show ?thesis using False by (simp add: raw_mantissa_def)
  qed
qed

lemma raw_mantissa_ge: "0 < n \<Longrightarrow> 256 ^ (n - 1) \<le> v \<Longrightarrow> 2 ^ 16 \<le> raw_mantissa n v"
proof -
  assume n: "0 < n" and v: "256 ^ (n - 1) \<le> v"
  show ?thesis
  proof (cases "n \<le> 3")
    case True
    then have "(256 :: nat) ^ 2 = 256 ^ (n - 1) * 256 ^ (3 - n)" using n by (simp flip: power_add)
    also have "\<dots> \<le> v * 256 ^ (3 - n)" using v by simp
    finally show ?thesis using True by (simp add: raw_mantissa_def)
  next
    case False
    then have "n - 1 = 2 + (n - 3)" by simp
    then have "(256 :: nat) ^ (n - 1) = 256 ^ 2 * 256 ^ (n - 3)" by (metis power_add)
    then have "256 ^ 2 \<le> v div 256 ^ (n - 3)" using v
      by (metis div_le_mono div_mult_self_is_m zero_less_numeral zero_less_power)
    then show ?thesis using False by (simp add: raw_mantissa_def)
  qed
qed

definition mantissa_word :: "bytes \<Rightarrow> nat \<Rightarrow> u32" where
  "mantissa_word t n =
     (if n \<le> 3 then
        (let v = foldl (\<lambda>v index. v OR push_bit (8 * index) (ucast (t ! index) :: u64)) 0 [0..<n]
         in ucast (push_bit (8 * (3 - n)) v))
      else
        (let offset = n - 3
         in ucast (t ! offset) OR push_bit 8 (ucast (t ! (offset + 1)))
            OR push_bit 16 (ucast (t ! (offset + 2)))))"

lemma unat_mantissa_word:
  assumes "length t = 32" "0 < n" "n \<le> 32" "le_val t < 256 ^ n"
  shows "unat (mantissa_word t n) = raw_mantissa n (le_val t)"
proof (cases "n \<le> 3")
  case True
  let ?v = "foldl (\<lambda>v index. v OR push_bit (8 * index) (ucast (t ! index) :: u64)) 0 [0..<n]"
  have n: "n = 1 \<or> n = 2 \<or> n = 3" using assms True by linarith
  then have "take n t = map ((!) t) [0..<n]" using assms by (metis length_map map_nth take_map take_upt add_0 min.absorb2 assms(3))
  moreover have "le_val (take n t) = le_val t" using assms(4) by (simp add: le_val_take_drop)
  ultimately have val: "le_val t = le_val (map ((!) t) [0..<n])" by simp
  have upt: "[0..<1] = [0]" "[0..<2] = [0, 1]" "[0..<3] = [0, 1, 2 :: nat]" by (simp_all add: upt_rec)
  have v: "unat ?v = le_val t"
    unfolding val using n
  proof (elim disjE; hypsubst)
    show "unat (foldl (\<lambda>v index. v OR push_bit (8 * index) (ucast (t ! index) :: u64)) 0 [0..<1])
        = le_val (map ((!) t) [0..<1])"
      unfolding upt by simp
    show "unat (foldl (\<lambda>v index. v OR push_bit (8 * index) (ucast (t ! index) :: u64)) 0 [0..<2])
        = le_val (map ((!) t) [0..<2])"
      using or_bytes_u64(1) [of "t ! 0" "t ! 1"] unfolding upt by simp
    show "unat (foldl (\<lambda>v index. v OR push_bit (8 * index) (ucast (t ! index) :: u64)) 0 [0..<3])
        = le_val (map ((!) t) [0..<3])"
      using or_bytes_u64(2) [of "t ! 0" "t ! 1" "t ! 2"] unfolding upt by simp
  qed
  have lt: "le_val t * 256 ^ (3 - n) < 2 ^ 24"
    using raw_mantissa_lt [OF assms(4)] True by (simp add: raw_mantissa_def)
  have "unat (push_bit (8 * (3 - n)) ?v OR 0) = unat ?v * 2 ^ (8 * (3 - n)) + unat (0 :: u64)"
    using lt v by (intro unat_push_or) (simp_all add: power_256)
  then have "unat (push_bit (8 * (3 - n)) ?v) = le_val t * 256 ^ (3 - n)"
    using v by (simp add: power_256)
  then show ?thesis
    using lt True by (simp add: mantissa_word_def raw_mantissa_def unat_ucast_mod)
next
  case False
  let ?o = "n - 3"
  have "take 3 (drop ?o t) = [t ! ?o, t ! (?o + 1), t ! (?o + 2)]"
    using assms False by (intro take_3_drop) simp
  then have "unat (mantissa_word t n) = le_val (take 3 (drop ?o t))"
    using False or_bytes_u32 [of "t ! ?o" "t ! (?o + 1)" "t ! (?o + 2)"]
    by (simp only: mantissa_word_def if_False Let_def)
  also have "\<dots> = le_val t div 256 ^ ?o mod 256 ^ 3" by (simp only: le_val_take_drop)
  also have "\<dots> = le_val t div 256 ^ ?o"
    using raw_mantissa_lt [OF assms(4)] False by (simp add: raw_mantissa_def)
  finally show ?thesis using False by (simp add: raw_mantissa_def)
qed

text \<open>\<open>to_bits\<close> with its arithmetic read as numbers.\<close>

lemma to_bits_Some:
  assumes len: "length (threshold t) = 32" and nz: "le_val (threshold t) \<noteq> 0"
  obtains b n where "to_bits t = Some b" "0 < n" "n \<le> 32"
    "256 ^ (n - 1) \<le> le_val (threshold t)" "le_val (threshold t) < 256 ^ n"
    "unat b = (if raw_mantissa n (le_val (threshold t)) \<ge> 2 ^ 23
               then (n + 1) * 2 ^ 24 + raw_mantissa n (le_val (threshold t)) div 256
               else n * 2 ^ 24 + raw_mantissa n (le_val (threshold t)))"
proof -
  let ?T = "le_val (threshold t)"
  obtain n where n: "significant_size (threshold t) = Some n"
    using significant_size_None [OF _ len] nz by fastforce
  note sz = significant_size_Some [OF n len]
  let ?w = "mantissa_word (threshold t) n" and ?M = "raw_mantissa n ?T"
  have w: "unat ?w = ?M" using unat_mantissa_word [OF len sz(1,2,4)] .
  have M: "?M < 2 ^ 24" using raw_mantissa_lt [OF sz(4)] .
  have tb: "to_bits t =
      (case (if ?w AND 0x00800000 \<noteq> 0 then (drop_bit 8 ?w, word_of_nat n + 1) else (?w, word_of_nat n :: u32))
       of (m, s) \<Rightarrow> if m > 0x007fffff then None else Some (push_bit 24 s OR m))"
    by (simp only: to_bits_def n option.case Let_def mantissa_word_def)
  have sign: "?w AND 0x00800000 \<noteq> 0 \<longleftrightarrow> ?M \<ge> 2 ^ 23"
    unfolding and_800000 w using M by (auto simp: odd_iff_mod_2_eq_one)
  have un: "unat (word_of_nat n :: u32) = n" "unat (word_of_nat n + 1 :: u32) = n + 1"
    using sz(2) by (simp_all add: unat_of_nat unat_word_ariths)
  show thesis
  proof (cases "?M \<ge> 2 ^ 23")
    case True
    have d: "unat (drop_bit 8 ?w) = ?M div 256" by (simp add: unat_drop_bit_div w)
    have "\<not> drop_bit 8 ?w > 0x007fffff" unfolding word_less_nat_alt d using M by simp
    then have b: "to_bits t = Some (push_bit 24 (word_of_nat n + 1) OR drop_bit 8 ?w)"
      using tb sign True by simp
    have "unat (push_bit 24 (word_of_nat n + 1) OR drop_bit 8 ?w) = (n + 1) * 2 ^ 24 + ?M div 256"
      using M sz(2) by (subst unat_push_or) (simp_all add: un d)
    then show thesis using that [OF b sz] True by simp
  next
    case False
    then have "\<not> ?w > 0x007fffff" unfolding word_less_nat_alt w by simp
    then have b: "to_bits t = Some (push_bit 24 (word_of_nat n) OR ?w)"
      using tb sign False by simp
    have "unat (push_bit 24 (word_of_nat n) OR ?w) = n * 2 ^ 24 + ?M"
      using M sz(2) by (subst unat_push_or) (simp_all add: un w)
    then show thesis using that [OF b sz] False by simp
  qed
qed

section \<open>Encoding and decoding\<close>

lemma from_bits_fields:
  assumes b: "unat b = ex * 2 ^ 24 + m" and m: "m < 2 ^ 23" "m \<noteq> 0"
  shows "ex \<le> 32 \<Longrightarrow> \<exists>t. from_bits b = Some t \<and> length (threshold t) = 32 \<and>
           le_val (threshold t) = compact_value ex m"
    and "32 < ex \<Longrightarrow> from_bits b = None"
proof -
  have mod: "unat b mod 2 ^ 23 = m"
  proof -
    have "unat b = m + (2 * ex) * 2 ^ 23" unfolding b by simp
    then show ?thesis using m by (simp only: mod_mult_self1 mod_less)
  qed
  have div: "unat b div 2 ^ 24 = ex" and div23: "unat b div 2 ^ 23 = 2 * ex"
    unfolding b using m by simp_all
  note alt = from_bits_alt [of b, unfolded Let_def mod div div23]
  show "\<exists>t. from_bits b = Some t \<and> length (threshold t) = 32 \<and> le_val (threshold t) = compact_value ex m"
    if "ex \<le> 32"
  proof -
    have "from_bits b \<noteq> None" unfolding alt using m that by auto
    then obtain t where "from_bits b = Some t" by blast
    then show ?thesis using from_bits_Some [of b t] unfolding mod div by blast
  qed
  show "from_bits b = None" if "32 < ex" unfolding alt using m that by auto
qed

text \<open>
  The encoding keeps the number down to a power of 256 and at least 15 significant bits; it
  decodes again exactly when the number is below \<open>2 ^ 255\<close>.
\<close>

lemma to_bits_decodes:
  assumes len: "length (threshold t) = 32" and nz: "le_val (threshold t) \<noteq> 0"
  obtains b ex m where "to_bits t = Some b" "unat b = ex * 2 ^ 24 + m" "m < 2 ^ 23" "m \<noteq> 0"
    "256 ^ (ex - 1) \<le> 2 * le_val (threshold t)" "0 < ex" "ex = 33 \<longleftrightarrow> 2 ^ 255 \<le> le_val (threshold t)" "ex \<le> 33"
    "compact_value ex m = le_val (threshold t) div 256 ^ (ex - 3) * 256 ^ (ex - 3)"
proof -
  let ?T = "le_val (threshold t)"
  obtain b n where b: "to_bits t = Some b" and n: "0 < n" "n \<le> 32" "256 ^ (n - 1) \<le> ?T" "?T < 256 ^ n"
    and ub: "unat b = (if raw_mantissa n ?T \<ge> 2 ^ 23
               then (n + 1) * 2 ^ 24 + raw_mantissa n ?T div 256
               else n * 2 ^ 24 + raw_mantissa n ?T)"
    using to_bits_Some [OF assms] .
  let ?M = "raw_mantissa n ?T"
  have M: "2 ^ 16 \<le> ?M" "?M < 2 ^ 24" using raw_mantissa_ge [OF n(1,3)] raw_mantissa_lt [OF n(4)] .
  have exact: "?T * 256 ^ (3 - n) div 256 ^ (3 - n) = ?T" by simp
  show thesis
  proof (cases "2 ^ 23 \<le> ?M")
    case True
    have "256 ^ n \<le> 2 * ?T"
    proof (cases "n \<le> 3")
      case le: True
      have "(256 :: nat) ^ n * 256 ^ (3 - n) = 256 ^ 3" using le by (simp flip: power_add)
      then have "256 ^ n * 256 ^ (3 - n) \<le> 2 * ?T * 256 ^ (3 - n)"
        using True le by (simp add: raw_mantissa_def)
      then show ?thesis by simp
    next
      case gt: False
      then have "2 ^ 23 * 256 ^ (n - 3) \<le> ?T"
        using True by (simp add: raw_mantissa_def less_eq_div_iff_mult_less_eq)
      moreover have "(256 :: nat) ^ n = 2 * (2 ^ 23 * 256 ^ (n - 3))"
      proof -
        have "(256 :: nat) ^ n = 256 ^ 3 * 256 ^ (n - 3)" using gt by (simp only: power_add [symmetric]) simp
        then show ?thesis by simp
      qed
      ultimately show ?thesis by simp
    qed
    moreover have "compact_value (n + 1) (?M div 256) = ?T div 256 ^ (n + 1 - 3) * 256 ^ (n + 1 - 3)"
    proof (cases "n < 3")
      case lt: True
      then have "3 - n = Suc (3 - (n + 1))" by simp
      then have "?T * 256 ^ (3 - n) div 256 div 256 ^ (3 - (n + 1)) = ?T"
        using exact by (simp add: div_mult2_eq [symmetric])
      then show ?thesis using lt by (simp add: compact_value_def raw_mantissa_def)
    next
      case ge: False
      then have "raw_mantissa n ?T div 256 = ?T div 256 ^ (n + 1 - 3)"
        by (cases "n = 3") (simp_all add: raw_mantissa_def div_mult2_eq [symmetric] mult.commute flip: power_Suc,
          simp add: Suc_diff_le [symmetric])
      then show ?thesis using ge by (simp add: compact_value_def)
    qed
    moreover have "n + 1 = 33 \<longleftrightarrow> 2 ^ 255 \<le> ?T"
    proof
      assume "n + 1 = 33"
      then show "2 ^ 255 \<le> ?T" using \<open>256 ^ n \<le> 2 * ?T\<close> by simp
    next
      assume "2 ^ 255 \<le> ?T"
      then have "(2 :: nat) ^ 255 < 2 ^ (8 * n)" using n(4) unfolding power_256 by linarith
      then have "255 < 8 * n" by (rule power_less_imp_less_exp [rotated]) simp
      then show "n + 1 = 33" using n(2) by simp
    qed
    ultimately show thesis
      using that [OF b, of "n + 1" "?M div 256"] ub True M n by simp
  next
    case False
    have "compact_value n ?M = ?T div 256 ^ (n - 3) * 256 ^ (n - 3)"
      using exact by (simp add: compact_value_def raw_mantissa_def)
    moreover have "\<not> 2 ^ 255 \<le> ?T"
    proof
      assume T: "2 ^ 255 \<le> ?T"
      then have "(2 :: nat) ^ 255 < 2 ^ (8 * n)" using n(4) unfolding power_256 by linarith
      then have "255 < 8 * n" by (rule power_less_imp_less_exp [rotated]) simp
      then have "n = 32" using n(2) by simp
      then have "?M = ?T div 256 ^ 29" by (simp add: raw_mantissa_def)
      moreover have "2 ^ 255 div 256 ^ 29 \<le> ?T div 256 ^ 29" using T by (rule div_le_mono)
      ultimately show False using False by simp
    qed
    moreover have "256 ^ (n - 1) \<le> 2 * ?T" using n(3) by linarith
    ultimately show thesis
      using that [OF b, of n ?M] ub False M n by simp
  qed
qed

text \<open>What a decoded number becomes after an encoding and a decoding.\<close>

lemma from_bits_to_bits_cut:
  assumes len: "length (threshold t) = 32" and nz: "le_val (threshold t) \<noteq> 0"
    and small: "le_val (threshold t) < 2 ^ 255"
  obtains b t' ex where "to_bits t = Some b" "from_bits b = Some t'" "length (threshold t') = 32"
    "256 ^ (ex - 1) \<le> 2 * le_val (threshold t)" "0 < ex"
    "le_val (threshold t') = le_val (threshold t) div 256 ^ (ex - 3) * 256 ^ (ex - 3)"
proof -
  obtain b ex m where b: "to_bits t = Some b" "unat b = ex * 2 ^ 24 + m" "m < 2 ^ 23" "m \<noteq> 0"
    and ex: "256 ^ (ex - 1) \<le> 2 * le_val (threshold t)" "0 < ex" "ex = 33 \<longleftrightarrow> 2 ^ 255 \<le> le_val (threshold t)" "ex \<le> 33"
    and cv: "compact_value ex m = le_val (threshold t) div 256 ^ (ex - 3) * 256 ^ (ex - 3)"
    by (rule to_bits_decodes [OF len nz])
  have "ex \<le> 32" using ex small by linarith
  then obtain t' where "from_bits b = Some t'" "length (threshold t') = 32"
      "le_val (threshold t') = compact_value ex m"
    using from_bits_fields(1) [OF b(2,3,4)] by blast
  then show thesis using that [OF b(1)] ex cv by simp
qed

lemma compact_value_multiple:
  assumes m: "m < 2 ^ 23" and e: "256 ^ (e - 1) \<le> 2 * compact_value ex m" "0 < e"
  shows "256 ^ (e - 3) dvd compact_value ex m"
proof (cases "ex \<le> 3")
  case True
  then have "compact_value ex m \<le> m" by (simp add: compact_value_def div_le_dividend)
  then have "compact_value ex m < 2 ^ 23" using m by (rule le_less_trans)
  then have "(256 :: nat) ^ (e - 1) < 256 ^ 3" using e(1) by simp
  then have "e - 1 < 3" by (rule power_less_imp_less_exp [rotated]) simp
  then show ?thesis by simp
next
  case False
  then have "2 * compact_value ex m < 2 * 2 ^ 23 * 256 ^ (ex - 3)"
    using m by (simp add: compact_value_def)
  also have "\<dots> = 256 ^ 3 * 256 ^ (ex - 3)" by simp
  also have "\<dots> = 256 ^ ex" using False by (simp only: power_add [symmetric]) simp
  finally have "(256 :: nat) ^ (e - 1) < 256 ^ ex" using e(1) by linarith
  then have "e - 1 < ex" by (rule power_less_imp_less_exp [rotated]) simp
  then show ?thesis using False by (simp add: compact_value_def le_imp_power_dvd)
qed

lemma to_bits_from_bits:
  assumes dec: "from_bits bits = Some t" and nz: "le_val (threshold t) \<noteq> 0"
  shows "\<exists>b. to_bits t = Some b \<and> from_bits b = Some t"
proof -
  define ex m where "ex = unat bits div 2 ^ 24" and "m = unat bits mod 2 ^ 23"
  have m: "m < 2 ^ 23" unfolding m_def by simp
  have len: "length (threshold t) = 32" and val: "le_val (threshold t) = compact_value ex m" and ex: "ex \<le> 32"
    using from_bits_Some [OF dec] unfolding ex_def m_def by blast+
  have "compact_value ex m < 2 ^ 255"
  proof (cases "ex \<le> 3")
    case True
    then have "compact_value ex m \<le> m" by (simp add: compact_value_def div_le_dividend)
    also have "m < 2 ^ 255" using m by (rule less_trans) simp
    finally show ?thesis .
  next
    case False
    then have "compact_value ex m < 2 ^ 23 * 256 ^ (ex - 3)" using m by (simp add: compact_value_def)
    also have "\<dots> \<le> 2 ^ 23 * 256 ^ 29" using ex by (intro mult_left_mono power_increasing) auto
    finally show ?thesis by simp
  qed
  then obtain b t' e where b: "to_bits t = Some b" "from_bits b = Some t'" and len': "length (threshold t') = 32"
    and e: "256 ^ (e - 1) \<le> 2 * le_val (threshold t)" "0 < e"
    and v: "le_val (threshold t') = le_val (threshold t) div 256 ^ (e - 3) * 256 ^ (e - 3)"
    using from_bits_to_bits_cut [OF len nz] unfolding val by blast
  have "256 ^ (e - 3) dvd le_val (threshold t)"
    using compact_value_multiple [OF m] e unfolding val by blast
  then have "le_val (threshold t') = le_val (threshold t)" using v by simp
  then have "t' = t" using le_val_inj [of "threshold t'" "threshold t"] len len' by simp
  then show ?thesis using b by blast
qed

lemma to_bits_floor:
  assumes len: "length (threshold u) = 32" and nz: "le_val (threshold u) \<noteq> 0" and lt: "le_val (threshold u) < 2 ^ 255"
  shows "\<exists>b v. to_bits u = Some b \<and> from_bits b = Some v \<and> le_val (threshold v) \<le> le_val (threshold u) \<and>
         (le_val (threshold u) - le_val (threshold v)) * 2 ^ 15 < le_val (threshold u)"
proof -
  let ?U = "le_val (threshold u)"
  obtain b v e where b: "to_bits u = Some b" "from_bits b = Some v"
    and e: "256 ^ (e - 1) \<le> 2 * ?U" "0 < e" and v: "le_val (threshold v) = ?U div 256 ^ (e - 3) * 256 ^ (e - 3)"
    by (rule from_bits_to_bits_cut [OF len nz lt])
  have diff: "?U - le_val (threshold v) = ?U mod 256 ^ (e - 3)"
    unfolding v by (simp add: minus_div_mult_eq_mod)
  have "?U mod 256 ^ (e - 3) * 2 ^ 15 < ?U"
  proof (cases "e \<le> 3")
    case True
    then show ?thesis using nz by simp
  next
    case False
    then have "e - 1 = 2 + (e - 3)" by simp
    then have "(256 :: nat) ^ (e - 1) = 256 ^ 2 * 256 ^ (e - 3)" by (metis power_add)
    then have "256 ^ (e - 3) * 2 ^ 15 \<le> ?U" using e(1) by simp
    moreover have "?U mod 256 ^ (e - 3) * 2 ^ 15 < 256 ^ (e - 3) * 2 ^ 15" by simp
    ultimately show ?thesis by (rule less_le_trans [rotated])
  qed
  then have "(?U - le_val (threshold v)) * 2 ^ 15 < ?U" unfolding diff .
  moreover have "le_val (threshold v) \<le> ?U" unfolding v by (simp add: div_times_less_eq_dividend)
  ultimately show "\<exists>b v. to_bits u = Some b \<and> from_bits b = Some v \<and> le_val (threshold v) \<le> ?U \<and>
      (?U - le_val (threshold v)) * 2 ^ 15 < ?U" using b by blast
qed

lemma to_bits_zero:
  assumes "length (threshold t) = 32" "le_val (threshold t) = 0"
  shows "to_bits t = None"
proof (cases "significant_size (threshold t)")
  case None
  then show ?thesis by (simp add: to_bits_def)
next
  case (Some n)
  then show ?thesis using significant_size_Some(3) [OF Some assms(1)] assms(2) by simp
qed

text \<open>
  C39. Compact targets round-trip: a \<open>bits\<close> field that decodes to a non-zero target is encoded again to
  a field that decodes to the very same target, and the encoding of any non-zero target below \<open>2 ^ 255\<close>
  decodes to a target at most as easy as the one encoded that loses less than one part in \<open>2 ^ 15\<close>.
\<close>

theorem compact_roundtrip:
  "(from_bits bits = Some t \<and> le_val (threshold t) \<noteq> 0 \<longrightarrow>
      (\<exists>b. to_bits t = Some b \<and> from_bits b = Some t)) \<and>
   (length (threshold u) = 32 \<and> le_val (threshold u) \<noteq> 0 \<and> le_val (threshold u) < 2 ^ 255 \<longrightarrow>
      (\<exists>b v. to_bits u = Some b \<and> from_bits b = Some v \<and> le_val (threshold v) \<le> le_val (threshold u) \<and>
         (le_val (threshold u) - le_val (threshold v)) * 2 ^ 15 < le_val (threshold u)))"
  using to_bits_from_bits to_bits_floor by blast

lemma genesis_threshold:
  "from_bits 0x1d00ffff = Some \<lparr>threshold = replicate 26 0 @ [0xff, 0xff] @ replicate 4 0\<rparr>"
  by (simp add: from_bits_alt Let_def copy_at_def u32_to_le_bytes_def eval_simps and_7fffff
      unat_ucast_mod)

lemma genesis_threshold_val: "le_val (replicate 26 0 @ [0xff, 0xff] @ replicate 4 0) = 0xffff * 2 ^ 208"
  by (simp add: le_val_append unat_minus_1)

theorem compact_roundtrip_witness:
  "\<exists>t b c v. from_bits 0x1d00ffff = Some t \<and> to_bits t = Some b \<and> from_bits b = Some t \<and>
     to_bits t = Some c \<and> from_bits c = Some v \<and> le_val (threshold v) \<le> 0xffff * 2 ^ 208"
  using compact_roundtrip [of "0x1d00ffff" "\<lparr>threshold = replicate 26 0 @ [0xff, 0xff] @ replicate 4 0\<rparr>"
      "\<lparr>threshold = replicate 26 0 @ [0xff, 0xff] @ replicate 4 0\<rparr>"]
  unfolding genesis_threshold pow_target.simps genesis_threshold_val by simp blast

end
