(* ===== verification/Difficulty.thy ===== *)
theory Difficulty
  imports Pow Crypto
begin

text \<open>
  \<open>crates/bitrst-core/src/difficulty.rs\<close>: the difficulty adjustment of the compact target after a full
  period, with its 36-byte multiplication and its long division by a 64-bit number.
\<close>

section \<open>Definitions\<close>

definition DIFFICULTY_ADJUSTMENT_INTERVAL :: u32 where
  "DIFFICULTY_ADJUSTMENT_INTERVAL = 2016"

definition difficulty_adjustment_interval :: "env \<Rightarrow> u32" where
  "difficulty_adjustment_interval E = (if short_period E then 256 else DIFFICULTY_ADJUSTMENT_INTERVAL)"

definition TARGET_BLOCK_SPACING :: u32 where
  "TARGET_BLOCK_SPACING = 600"

definition TARGET_TIMESPAN :: u32 where
  "TARGET_TIMESPAN = DIFFICULTY_ADJUSTMENT_INTERVAL * TARGET_BLOCK_SPACING"

definition MAX_COMPACT_BITS :: u32 where
  "MAX_COMPACT_BITS = 0x1d00ffff"

datatype difficulty_error =
    InvalidPreviousBits u32
  | EncodingFailed
  | Overflow

definition clamp_timespan :: "u32 \<Rightarrow> u32 \<Rightarrow> u32" where
  "clamp_timespan actual tgt =
     (let minimum = tgt div 4;
          maximum = saturating_mul tgt 4
      in if actual < minimum then minimum else if actual > maximum then maximum else actual)"

definition compare_threshold :: "bytes \<Rightarrow> bytes \<Rightarrow> ordering" where
  "compare_threshold left right = lex_cmp (rev left) (rev right)"

definition cap_to_max_target :: "bytes \<Rightarrow> bytes" where
  "cap_to_max_target t =
     (case from_bits MAX_COMPACT_BITS of
        None \<Rightarrow> t \<comment> \<open>unreachable: the source's \<open>expect\<close>, see \<open>genesis_threshold\<close>\<close>
      | Some m \<Rightarrow> if compare_threshold t (threshold m) = Greater then threshold m else t)"

text \<open>The loop of \<open>div_le_by_u64\<close> over \<open>(0..input.len()).rev()\<close>.\<close>

fun div_u64_loop :: "bytes \<Rightarrow> u64 \<Rightarrow> nat \<Rightarrow> bytes \<Rightarrow> u64 \<Rightarrow> bytes option" where
  "div_u64_loop input divisor 0 output rmd = Some output"
| "div_u64_loop input divisor (Suc index) output rmd =
     (case Option.bind (checked_mul rmd 256) (\<lambda>m. checked_add m (ucast (input ! index))) of
        None \<Rightarrow> None
      | Some accumulator \<Rightarrow>
          if index \<ge> length output then
            (if accumulator div divisor \<noteq> 0 then None
             else div_u64_loop input divisor index output (accumulator mod divisor))
          else div_u64_loop input divisor index
                 (output[index := ucast (accumulator div divisor)]) (accumulator mod divisor))"

definition div_le_by_u64 :: "bytes \<Rightarrow> u64 \<Rightarrow> bytes option" where
  "div_le_by_u64 input divisor =
     (if divisor = 0 then None else div_u64_loop input divisor (length input) (replicate 32 0) 0)"

text \<open>The two loops of \<open>mul_div_threshold\<close>: the product byte by byte, then the carry.\<close>

fun mul_loop :: "bytes \<Rightarrow> u64 \<Rightarrow> u64 \<Rightarrow> (bytes \<times> u64) option" where
  "mul_loop [] numerator carry = Some ([], carry)"
| "mul_loop (byte # bs) numerator carry =
     (case Option.bind (checked_mul (ucast byte) numerator) (\<lambda>p. checked_add p carry) of
        None \<Rightarrow> None
      | Some scaled \<Rightarrow>
          (case mul_loop bs numerator (drop_bit 8 scaled) of
             None \<Rightarrow> None
           | Some (product, carry') \<Rightarrow> Some (ucast scaled # product, carry')))"

fun carry_loop :: "nat \<Rightarrow> u64 \<Rightarrow> bytes \<times> u64" where
  "carry_loop 0 carry = ([], carry)"
| "carry_loop (Suc n) carry =
     (if carry = 0 then (replicate (Suc n) 0, 0)
      else (case carry_loop n (drop_bit 8 carry) of (bs, c) \<Rightarrow> (ucast carry # bs, c)))"

definition mul_div_threshold :: "bytes \<Rightarrow> u64 \<Rightarrow> u64 \<Rightarrow> bytes option" where
  "mul_div_threshold t numerator denominator =
     (if denominator = 0 then None
      else (case mul_loop t numerator 0 of
              None \<Rightarrow> None
            | Some (product, carry) \<Rightarrow>
                (case carry_loop 4 carry of
                   (high, rest) \<Rightarrow>
                     if rest \<noteq> 0 then None else div_le_by_u64 (product @ high) denominator)))"

definition adjust_bits :: "u32 \<Rightarrow> u32 \<Rightarrow> difficulty_error + u32" where
  "adjust_bits prev_bits actual_timespan =
     and_then (ok_or (InvalidPreviousBits prev_bits) (from_bits prev_bits)) (\<lambda>prev_target.
     and_then (ok_or Overflow
         (mul_div_threshold (threshold prev_target)
            (ucast (clamp_timespan actual_timespan TARGET_TIMESPAN)) (ucast TARGET_TIMESPAN))) (\<lambda>scaled.
     ok_or EncodingFailed (to_bits (from_threshold (cap_to_max_target scaled)))))"

section \<open>Clamping and capping\<close>

lemma unat_TARGET_TIMESPAN: "unat TARGET_TIMESPAN = 1209600"
  by (simp add: TARGET_TIMESPAN_def DIFFICULTY_ADJUSTMENT_INTERVAL_def TARGET_BLOCK_SPACING_def)

lemma unat_clamp_timespan:
  "unat (clamp_timespan actual TARGET_TIMESPAN) = max 302400 (min (unat actual) 4838400)"
proof -
  have "unat (TARGET_TIMESPAN div 4) = 302400" "unat (saturating_mul TARGET_TIMESPAN 4) = 4838400"
    unfolding unat_div unat_saturating_mul unat_TARGET_TIMESPAN by simp_all
  then show ?thesis
    unfolding clamp_timespan_def Let_def word_less_nat_alt by auto
qed

definition max_target :: nat where
  "max_target = 0xffff * 2 ^ 208"

lemma cap_to_max_target:
  assumes "length t = 32"
  shows "length (cap_to_max_target t) = 32 \<and> le_val (cap_to_max_target t) = min max_target (le_val t)"
proof -
  let ?m = "replicate 26 0 @ [0xff, 0xff] @ replicate 4 (0 :: u8)"
  have m: "from_bits MAX_COMPACT_BITS = Some \<lparr>threshold = ?m\<rparr>"
    using genesis_threshold by (simp only: MAX_COMPACT_BITS_def)
  have "compare_threshold t ?m = compare_nat (le_val t) (le_val ?m)"
    using assms cmp_le_val [of t ?m] by (simp add: compare_threshold_def cmp_le_def)
  then show ?thesis
    unfolding cap_to_max_target_def m option.case pow_target.simps
    using assms genesis_threshold_val by (auto simp: max_target_def compare_nat_def split: if_splits)
qed

section \<open>Multiplication and division\<close>

lemma mul_loop_exact:
  "unat numerator < 2 ^ 32 \<Longrightarrow> unat carry < 2 ^ 32 \<Longrightarrow>
     \<exists>ps c. mul_loop bs numerator carry = Some (ps, c) \<and> length ps = length bs \<and> unat c < 2 ^ 32 \<and>
       le_val ps + 256 ^ length bs * unat c = le_val bs * unat numerator + unat carry"
proof (induction bs arbitrary: carry)
  case Nil
  then show ?case by simp
next
  case (Cons byte bs)
  have b: "unat (ucast byte :: u64) < 256" using unat_u8_lt [of byte] by simp
  have "unat byte * unat numerator \<le> 255 * (2 ^ 32 - 1)"
    using Cons.prems(1) unat_u8_lt [of byte] by (intro mult_le_mono) auto
  then have lt: "unat byte * unat numerator + unat carry < 2 ^ 40" using Cons.prems(2) by simp
  let ?s = "ucast byte * numerator + carry"
  have s: "unat ?s = unat byte * unat numerator + unat carry"
    using lt by (simp add: unat_word_ariths)
  have bind: "Option.bind (checked_mul (ucast byte) numerator) (\<lambda>p. checked_add p carry) = Some ?s"
  proof -
    have "unat (ucast byte * numerator) = unat byte * unat numerator"
      using lt by (simp add: unat_word_ariths)
    then show ?thesis using lt by (simp add: checked_mul_def checked_add_def)
  qed
  have d: "unat (drop_bit 8 ?s) = unat ?s div 256" by (simp only: unat_drop_bit_div) simp
  then have "unat (drop_bit 8 ?s) < 2 ^ 32" using lt s by simp
  then obtain ps c where ps: "mul_loop bs numerator (drop_bit 8 ?s) = Some (ps, c)" "length ps = length bs" "unat c < 2 ^ 32"
      "le_val ps + 256 ^ length bs * unat c = le_val bs * unat numerator + unat (drop_bit 8 ?s)"
    using Cons.IH [OF Cons.prems(1)] by blast
  have u: "unat (ucast ?s :: u8) = unat ?s mod 256" by (simp add: unat_ucast_mod)
  have "unat (ucast ?s :: u8) + 256 * (le_val ps + 256 ^ length bs * unat c)
      = unat ?s + 256 * (le_val bs * unat numerator)"
    unfolding ps(4) d u by simp
  then show ?case
    using ps bind s by (simp add: algebra_simps)
qed

lemma carry_loop_exact:
  "unat c < 256 ^ n \<Longrightarrow> \<exists>bs. carry_loop n c = (bs, 0) \<and> length bs = n \<and> le_val bs = unat c"
proof (induction n arbitrary: c)
  case 0
  then show ?case by (simp add: unat_eq_0)
next
  case (Suc n)
  have d: "unat (drop_bit 8 c) = unat c div 256" by (simp only: unat_drop_bit_div) simp
  have u: "unat (ucast c :: u8) = unat c mod 256" by (simp add: unat_ucast_mod)
  have "unat (drop_bit 8 c) < 256 ^ n"
    using Suc.prems unfolding d by (simp add: less_mult_imp_div_less mult.commute)
  then obtain bs where "carry_loop n (drop_bit 8 c) = (bs, 0)" "length bs = n" "le_val bs = unat (drop_bit 8 c)"
    using Suc.IH by blast
  then show ?case using d u by (auto simp del: replicate.simps) 
qed

text \<open>One digit of the long division.\<close>

lemma div_digit:
  fixes v d b :: nat
  assumes "0 < d" "b < 256"
  shows "(b + 256 * v) div d = 256 * (v div d) + (v mod d * 256 + b) div d"
    "(b + 256 * v) mod d = (v mod d * 256 + b) mod d"
    "(v mod d * 256 + b) div d < 256"
proof -
  have "b + 256 * v = (v mod d * 256 + b) + d * (256 * (v div d))"
    by (metis add.assoc add.commute add_mult_distrib2 div_mult_mod_eq mult.commute mult.left_commute)
  then show "(b + 256 * v) div d = 256 * (v div d) + (v mod d * 256 + b) div d"
    "(b + 256 * v) mod d = (v mod d * 256 + b) mod d"
    using assms(1) by (simp_all only: div_mult_self2 mod_mult_self2 add.commute)
  have "v mod d \<le> d - 1" using mod_less_divisor [OF assms(1), of v] by linarith
  then have "v mod d * 256 + b < (d - 1) * 256 + 256" using assms(2) by (intro add_le_less_mono mult_le_mono1)
  also have "\<dots> = 256 * d" using assms(1) by (simp add: algebra_simps)
  finally show "(v mod d * 256 + b) div d < 256" by (simp add: less_mult_imp_div_less)
qed

lemma div_u64_loop_exact:
  assumes d: "0 < unat divisor" "unat divisor < 2 ^ 56"
  shows "k \<le> length input \<Longrightarrow> length output = 32 \<Longrightarrow>
     unat rmd = le_val (drop k input) mod unat divisor \<Longrightarrow>
     le_val (drop k output) = le_val (drop k input) div unat divisor \<Longrightarrow>
     (if le_val input div unat divisor < 256 ^ 32
      then \<exists>out. div_u64_loop input divisor k output rmd = Some out \<and> length out = 32 \<and>
             le_val out = le_val input div unat divisor
      else div_u64_loop input divisor k output rmd = None)"
proof (induction k arbitrary: "output" rmd)
  case 0
  then have "le_val input div unat divisor < 256 ^ 32" using le_val_bound [of "output"] by simp
  then show ?case using 0 by simp
next
  case (Suc index)
  let ?d = "unat divisor" and ?b = "input ! index" and ?v = "le_val (drop (Suc index) input)"
  let ?acc = "rmd * 256 + ucast ?b"
  note dig = div_digit [OF d(1) unat_u8_lt [of ?b], of ?v]
  have v': "le_val (drop index input) = unat ?b + 256 * ?v"
    using Suc.prems(1) Cons_nth_drop_Suc [of index input] by (metis le_val.simps(2) Suc_le_lessD)
  have "unat rmd < 2 ^ 56" using Suc.prems(3) d by (metis less_trans mod_less_divisor)
  then have lt: "unat rmd * 256 + unat ?b < 2 ^ 64" using unat_u8_lt [of ?b] by simp
  then have m: "unat (rmd * 256) = unat rmd * 256" by (simp add: unat_word_ariths)
  then have acc: "unat ?acc = ?v mod ?d * 256 + unat ?b"
    using lt Suc.prems(3) by (simp add: unat_word_ariths)
  have bind: "Option.bind (checked_mul rmd 256) (\<lambda>m. checked_add m (ucast ?b)) = Some ?acc"
    using lt m by (simp add: checked_mul_def checked_add_def)
  have q: "unat (?acc div divisor) = (?v mod ?d * 256 + unat ?b) div ?d" by (simp add: unat_div acc)
  have r: "unat (?acc mod divisor) = le_val (drop index input) mod ?d"
    by (simp add: unat_mod acc v' dig(2))
  show ?case
  proof (cases "index \<ge> 32")
    case True
    then have v0: "?v div ?d = 0" using Suc.prems(2,4) by simp
    then have quot: "le_val (drop index input) div ?d = unat (?acc div divisor)"
      using dig(1) by (simp add: v' q)
    show ?thesis
    proof (cases "?acc div divisor = 0")
      case zero: True
      then have "le_val (drop index output) = le_val (drop index input) div ?d"
        using True Suc.prems(2) quot by simp
      then show ?thesis
        using Suc.IH [of "output" "?acc mod divisor"] Suc.prems(1,2) r bind True zero by simp
    next
      case False
      then have "1 \<le> le_val (drop index input) div ?d" unfolding quot by (simp add: unat_gt_0 Suc_le_eq)
      then have "?d \<le> le_val (drop index input)" using d(1)
        by (simp add: div_greater_zero_iff Suc_le_eq)
      also have "\<dots> = le_val input div 256 ^ index" by (simp only: le_val_take_drop)
      finally have "?d * 256 ^ index \<le> le_val input" by (simp add: less_eq_div_iff_mult_less_eq)
      moreover have "?d * 256 ^ 32 \<le> ?d * 256 ^ index" using True by (intro mult_left_mono power_increasing) auto
      ultimately have "256 ^ 32 \<le> le_val input div ?d"
        using d(1) by (simp only: less_eq_div_iff_mult_less_eq mult.commute [of ?d])
      then show ?thesis using bind True False Suc.prems(2) by simp
    qed
  next
    case False
    let ?o = "output[index := ucast (?acc div divisor)]"
    have "le_val (drop index ?o) = unat (ucast (?acc div divisor) :: u8) + 256 * le_val (drop (Suc index) output)"
      using False Suc.prems(2) Cons_nth_drop_Suc [of index ?o] by (metis drop_update_cancel le_val.simps(2) length_list_update lessI not_le nth_list_update_eq)
    also have "\<dots> = le_val (drop index input) div ?d"
      using dig(1,3) Suc.prems(4) by (simp add: unat_ucast_mod q v')
    finally show ?thesis
      using Suc.IH [of ?o "?acc mod divisor"] Suc.prems(1,2) r bind False by simp
  qed
qed

lemma div_le_by_u64_exact:
  assumes "0 < unat divisor" "unat divisor < 2 ^ 56"
  shows "if le_val input div unat divisor < 256 ^ 32
      then \<exists>out. div_le_by_u64 input divisor = Some out \<and> length out = 32 \<and>
             le_val out = le_val input div unat divisor
      else div_le_by_u64 input divisor = None"
  using div_u64_loop_exact [OF assms, of "length input" input "replicate 32 0" 0] assms(1)
  by (simp add: div_le_by_u64_def unat_gt_0)

lemma mul_div_threshold_exact:
  assumes len: "length t = 32" and n: "unat numerator < 2 ^ 32" and d: "0 < unat denominator" "unat denominator < 2 ^ 56"
  shows "if le_val t * unat numerator div unat denominator < 256 ^ 32
      then \<exists>out. mul_div_threshold t numerator denominator = Some out \<and> length out = 32 \<and>
             le_val out = le_val t * unat numerator div unat denominator
      else mul_div_threshold t numerator denominator = None"
proof -
  obtain ps c where ps: "mul_loop t numerator 0 = Some (ps, c)" "length ps = length t" "unat c < 2 ^ 32"
      "le_val ps + 256 ^ length t * unat c = le_val t * unat numerator"
    using mul_loop_exact [OF n, of 0 t] by auto
  have "unat c < 256 ^ 4" using ps(3) by simp
  then obtain hs where hs: "carry_loop 4 c = (hs, 0)" "length hs = 4" "le_val hs = unat c"
    using carry_loop_exact by blast
  have "le_val (ps @ hs) = le_val t * unat numerator"
    using ps hs by (simp only: le_val_append)
  moreover have "mul_div_threshold t numerator denominator = div_le_by_u64 (ps @ hs) denominator"
    using ps(1) hs(1) d(1) by (auto simp: mul_div_threshold_def)
  ultimately show ?thesis using div_le_by_u64_exact [OF d, of "ps @ hs"] by (simp only:)
qed

section \<open>The adjusted target\<close>

text \<open>The target a period asks for, before its compact encoding.\<close>

definition retargeted :: "nat \<Rightarrow> u32 \<Rightarrow> nat" where
  "retargeted old actual = min max_target (old * max 302400 (min (unat actual) 4838400) div 1209600)"

lemma adjust_bits_scaled:
  assumes dec: "from_bits prev = Some t" and fits: "le_val (threshold t) * 4 < 256 ^ 32"
  obtains capped where "adjust_bits prev actual = ok_or EncodingFailed (to_bits \<lparr>threshold = capped\<rparr>)"
    "length capped = 32" "le_val capped = retargeted (le_val (threshold t)) actual"
proof -
  have len: "length (threshold t) = 32" using from_bits_Some [OF dec] by blast
  let ?c = "clamp_timespan actual TARGET_TIMESPAN"
  let ?n = "ucast ?c :: u64" and ?d = "ucast TARGET_TIMESPAN :: u64"
  have n: "unat ?n = max 302400 (min (unat actual) 4838400)"
    by (simp only: unat_ucast_widen unat_clamp_timespan)
  have n32: "unat ?n < 2 ^ 32" unfolding n by (rule le_less_trans [of _ 4838400]) simp_all
  have d: "unat ?d = 1209600" by (simp only: unat_ucast_widen unat_TARGET_TIMESPAN)
  have "le_val (threshold t) * unat ?n \<le> le_val (threshold t) * 4838400"
    unfolding n by (intro mult_left_mono) auto
  also have "\<dots> < 256 ^ 32 * 1209600" using fits by simp
  finally have "le_val (threshold t) * unat ?n div unat ?d < 256 ^ 32"
    unfolding d by (rule less_mult_imp_div_less)
  then obtain scaled where sc: "mul_div_threshold (threshold t) ?n ?d = Some scaled" "length scaled = 32"
      "le_val scaled = le_val (threshold t) * unat ?n div unat ?d"
    using mul_div_threshold_exact [OF len n32, of ?d] d by auto
  show thesis
  proof (rule that)
    show "adjust_bits prev actual = ok_or EncodingFailed (to_bits \<lparr>threshold = cap_to_max_target scaled\<rparr>)"
      by (simp add: adjust_bits_def dec sc(1) from_threshold_def)
    show "length (cap_to_max_target scaled) = 32"
      and "le_val (cap_to_max_target scaled) = retargeted (le_val (threshold t)) actual"
      using cap_to_max_target [OF sc(2)] unfolding sc(3) n d retargeted_def by blast+
  qed
qed

text \<open>
  C38. Difficulty adjustment: from a \<open>bits\<close> field that decodes to a target \<open>T\<close> below \<open>2 ^ 254\<close>, a period
  of \<open>s\<close> seconds asks for \<open>min max (T * clamp s / 1209600)\<close>, where \<open>s\<close> is clamped to a quarter and to
  four times the two weeks; \<open>adjust_bits\<close> fails with \<open>EncodingFailed\<close> exactly when that is zero, and
  otherwise returns a field that decodes to a target no easier than that and less than one part
  in \<open>2 ^ 15\<close> away, so never easier than the proof-of-work limit.
\<close>

theorem adjust_bits_target:
  assumes "from_bits prev = Some t" and "le_val (threshold t) < 2 ^ 254"
  shows "if retargeted (le_val (threshold t)) actual = 0 then adjust_bits prev actual = Inl EncodingFailed
    else (\<exists>b u. adjust_bits prev actual = Inr b \<and> from_bits b = Some u \<and>
            le_val (threshold u) \<le> retargeted (le_val (threshold t)) actual \<and>
            (retargeted (le_val (threshold t)) actual - le_val (threshold u)) * 2 ^ 15
              < retargeted (le_val (threshold t)) actual)"
proof -
  let ?R = "retargeted (le_val (threshold t)) actual"
  obtain capped where adj: "adjust_bits prev actual = ok_or EncodingFailed (to_bits \<lparr>threshold = capped\<rparr>)"
    and cap: "length capped = 32" "le_val capped = ?R"
  proof (rule adjust_bits_scaled [OF assms(1)])
    show "le_val (threshold t) * 4 < 256 ^ 32" using assms(2) by simp
  qed
  have lim: "?R < 2 ^ 255" by (simp add: retargeted_def max_target_def min_less_iff_disj)
  show ?thesis
  proof (cases "?R = 0")
    case True
    then have "to_bits \<lparr>threshold = capped\<rparr> = None" using to_bits_zero cap by simp
    then show ?thesis using True adj by simp
  next
    case False
    then show ?thesis
      using to_bits_floor [of "\<lparr>threshold = capped\<rparr>", unfolded pow_target.simps cap(2), OF cap(1) False lim]
      unfolding adj by (auto simp del: power_numeral)
  qed
qed

theorem adjust_bits_target_witness:
  "\<exists>b u. adjust_bits 0x1d00ffff 604800 = Inr b \<and> from_bits b = Some u \<and>
     le_val (threshold u) \<le> 0xffff * 2 ^ 207"
proof -
  have r: "retargeted (0xffff * 2 ^ 208) 604800 = 0xffff * 2 ^ 207"
    by (simp add: retargeted_def max_target_def)
  show ?thesis
    using adjust_bits_target [OF genesis_threshold, of 604800]
    unfolding pow_target.simps genesis_threshold_val r by auto
qed

end
