(* ===== verification/Utxo.thy ===== *)
theory Utxo
  imports Transaction
begin

text \<open>
  \<open>crates/bitrst-core/src/utxo.rs\<close>: the set of unspent outputs, validation of a transaction against it,
  application and undo.  The hash map is a partial map (the code never iterates over it).
\<close>

section \<open>Definitions\<close>

record out_point =
  op_txid :: hash32
  op_index :: u32

record utxo_entry =
  entry_value :: u64
  entry_script :: bytes

record tx_undo =
  removed :: "(out_point \<times> utxo_entry) list"
  created :: "out_point list"

datatype utxo_error =
    MissingInput hash32 u32
  | NegativeOutputValue
  | ValueOverflow
  | InputOutputMismatch u64 u64
  | DuplicateSpend hash32 u32

record utxo_set =
  entries :: "out_point \<rightharpoonup> utxo_entry"

definition new_utxo :: utxo_set where
  "new_utxo = \<lparr>entries = Map.empty\<rparr>"

definition utxo_contains :: "utxo_set \<Rightarrow> out_point \<Rightarrow> bool" where
  "utxo_contains u op = (entries u op \<noteq> None)"

definition utxo_get :: "utxo_set \<Rightarrow> out_point \<Rightarrow> utxo_entry option" where
  "utxo_get u op = entries u op"

definition get_value :: "utxo_set \<Rightarrow> out_point \<Rightarrow> u64 option" where
  "get_value u op = map_option entry_value (utxo_get u op)"

text \<open>The outpoint an input spends.\<close>

definition input_outpoint :: "tx_input \<Rightarrow> out_point" where
  "input_outpoint i = \<lparr>op_txid = previous_output i, op_index = prev_index i\<rparr>"

definition is_coinbase :: "transaction \<Rightarrow> bool" where
  "is_coinbase tx \<longleftrightarrow>
     length (inputs tx) = 1 \<and> previous_output (inputs tx ! 0) = replicate 32 0 \<and>
     prev_index (inputs tx ! 0) = - 1"

fun output_sum_loop :: "u64 \<Rightarrow> tx_output list \<Rightarrow> utxo_error + u64" where
  "output_sum_loop sum_out [] = Inr sum_out"
| "output_sum_loop sum_out (out # outs) =
     and_then (ok_or ValueOverflow (checked_add sum_out (out_value out))) (\<lambda>s. output_sum_loop s outs)"

definition output_sum :: "transaction \<Rightarrow> utxo_error + u64" where
  "output_sum tx = output_sum_loop 0 (outputs tx)"

definition validate_output_sum :: "transaction \<Rightarrow> utxo_error + unit" where
  "validate_output_sum tx = and_then (output_sum tx) (\<lambda>_. Inr ())"

fun input_sum_loop :: "utxo_set \<Rightarrow> u64 \<Rightarrow> tx_input list \<Rightarrow> utxo_error + u64" where
  "input_sum_loop u sum_in [] = Inr sum_in"
| "input_sum_loop u sum_in (input # ins) =
     and_then (ok_or (MissingInput (previous_output input) (prev_index input))
                 (get_value u (input_outpoint input))) (\<lambda>v.
     and_then (ok_or ValueOverflow (checked_add sum_in v)) (\<lambda>s. input_sum_loop u s ins))"

definition validate_transaction :: "utxo_set \<Rightarrow> transaction \<Rightarrow> utxo_error + unit" where
  "validate_transaction u tx =
     (if is_coinbase tx then validate_output_sum tx
      else
        and_then (input_sum_loop u 0 (inputs tx)) (\<lambda>sum_in.
        and_then (output_sum tx) (\<lambda>sum_out.
          if sum_in < sum_out then Inl (InputOutputMismatch sum_in sum_out) else Inr ())))"

fun remove_inputs :: "tx_input list \<Rightarrow> utxo_set \<Rightarrow> (out_point \<times> utxo_entry) list \<Rightarrow>
    utxo_set \<times> (out_point \<times> utxo_entry) list" where
  "remove_inputs [] u rem = (u, rem)"
| "remove_inputs (input # ins) u rem =
     (case entries u (input_outpoint input) of
        None \<Rightarrow> remove_inputs ins u rem
      | Some entry \<Rightarrow>
          remove_inputs ins (u\<lparr>entries := (entries u)(input_outpoint input := None)\<rparr>)
            (rem @ [(input_outpoint input, entry)]))"

fun insert_outputs :: "hash32 \<Rightarrow> nat \<Rightarrow> tx_output list \<Rightarrow> utxo_set \<Rightarrow> out_point list \<Rightarrow>
    utxo_set \<times> out_point list" where
  "insert_outputs tid index [] u crt = (u, crt)"
| "insert_outputs tid index (out # outs) u crt =
     insert_outputs tid (index + 1) outs
       (u\<lparr>entries := (entries u)(\<lparr>op_txid = tid, op_index = of_nat index\<rparr> \<mapsto>
            \<lparr>entry_value = out_value out, entry_script = script_pubkey out\<rparr>)\<rparr>)
       (crt @ [\<lparr>op_txid = tid, op_index = of_nat index\<rparr>])"

definition apply_transaction :: "env \<Rightarrow> utxo_set \<Rightarrow> transaction \<Rightarrow> utxo_set \<times> tx_undo" where
  "apply_transaction E u tx =
     (case (if is_coinbase tx then (u, []) else remove_inputs (inputs tx) u []) of
        (u', rem) \<Rightarrow>
          (case insert_outputs (txid E tx) 0 (outputs tx) u' [] of
             (u'', crt) \<Rightarrow> (u'', \<lparr>removed = rem, created = crt\<rparr>)))"

definition disconnect_undo :: "utxo_set \<Rightarrow> tx_undo \<Rightarrow> utxo_set" where
  "disconnect_undo u undo =
     (let u1 = foldl (\<lambda>u op. u\<lparr>entries := (entries u)(op := None)\<rparr>) u (created undo)
      in foldl (\<lambda>u (op, entry). u\<lparr>entries := (entries u)(op \<mapsto> entry)\<rparr>) u1 (removed undo))"

section \<open>Validation\<close>

definition outputs_value :: "transaction \<Rightarrow> nat" where
  "outputs_value tx = sum_list (map (\<lambda>out. unat (out_value out)) (outputs tx))"

definition inputs_value :: "utxo_set \<Rightarrow> transaction \<Rightarrow> nat" where
  "inputs_value u tx =
     sum_list (map (\<lambda>i. unat (entry_value (the (entries u (input_outpoint i))))) (inputs tx))"

lemma output_sum_loop_Inr_iff:
  "output_sum_loop s outs = Inr r \<longleftrightarrow>
     unat r = unat s + sum_list (map (\<lambda>out. unat (out_value out)) outs)"
proof (induction outs arbitrary: s)
  case Nil
  then show ?case by (auto simp: word_unat_eq_iff)
next
  case (Cons out outs)
  have "output_sum_loop s (out # outs) = Inr r \<longleftrightarrow>
      (\<exists>c. checked_add s (out_value out) = Some c \<and> output_sum_loop c outs = Inr r)"
    by (auto simp: and_then_Inr_iff)
  also have "\<dots> \<longleftrightarrow> unat r = unat s + (unat (out_value out) + sum_list (map (\<lambda>out. unat (out_value out)) outs))"
    unfolding checked_add_Some_iff Cons.IH using unat_lt [of r]
    by (auto intro!: exI [of _ "s + out_value out"] simp: unat_word_ariths)
  finally show ?case by simp
qed

lemma output_sum_Inr_iff: "output_sum tx = Inr r \<longleftrightarrow> unat r = outputs_value tx"
  by (simp add: output_sum_def output_sum_loop_Inr_iff outputs_value_def)

lemma input_sum_loop_Inr_iff:
  "input_sum_loop u s ins = Inr r \<longleftrightarrow>
     list_all (\<lambda>i. input_outpoint i \<in> dom (entries u)) ins \<and>
     unat r = unat s + sum_list (map (\<lambda>i. unat (entry_value (the (entries u (input_outpoint i))))) ins)"
proof (induction ins arbitrary: s)
  case Nil
  then show ?case by (auto simp: word_unat_eq_iff)
next
  case (Cons i ins)
  show ?case
  proof (cases "entries u (input_outpoint i)")
    case None
    then show ?thesis by (auto simp: get_value_def utxo_get_def)
  next
    case (Some e)
    then have "input_sum_loop u s (i # ins) = Inr r \<longleftrightarrow>
        (\<exists>c. checked_add s (entry_value e) = Some c \<and> input_sum_loop u c ins = Inr r)"
      by (auto simp: and_then_Inr_iff get_value_def utxo_get_def)
    also have "\<dots> \<longleftrightarrow> list_all (\<lambda>i. input_outpoint i \<in> dom (entries u)) ins \<and>
        unat r = unat s + (unat (entry_value e)
          + sum_list (map (\<lambda>i. unat (entry_value (the (entries u (input_outpoint i))))) ins))"
      unfolding checked_add_Some_iff Cons.IH using unat_lt [of r]
      by (auto intro!: exI [of _ "s + entry_value e"] simp: unat_word_ariths)
    finally show ?thesis using Some by auto
  qed
qed

lemma word_of_sum: "(\<exists>r :: u64. unat r = n \<and> P r) \<longleftrightarrow> n < 2 ^ 64 \<and> P (of_nat n)"
proof
  assume "\<exists>r :: u64. unat r = n \<and> P r"
  then obtain r :: u64 where "unat r = n" "P r" by blast
  then show "n < 2 ^ 64 \<and> P (of_nat n)" using unat_lt [of r] by auto
next
  assume "n < 2 ^ 64 \<and> P (of_nat n)"
  then show "\<exists>r :: u64. unat r = n \<and> P r" by (intro exI [of _ "of_nat n"]) (simp add: unat_of_nat)
qed

lemma validate_transaction_Inr_iff:
  "validate_transaction u tx = Inr () \<longleftrightarrow>
     outputs_value tx < 2 ^ 64 \<and>
     (is_coinbase tx \<or>
        list_all (\<lambda>i. input_outpoint i \<in> dom (entries u)) (inputs tx) \<and>
        inputs_value u tx < 2 ^ 64 \<and> outputs_value tx \<le> inputs_value u tx)"
proof (cases "is_coinbase tx")
  case True
  then have "validate_transaction u tx = Inr () \<longleftrightarrow> (\<exists>r :: u64. unat r = outputs_value tx \<and> True)"
    by (auto simp: validate_transaction_def validate_output_sum_def and_then_Inr_iff output_sum_Inr_iff)
  with True show ?thesis unfolding word_of_sum by simp
next
  case False
  let ?ok = "list_all (\<lambda>i. input_outpoint i \<in> dom (entries u)) (inputs tx)"
  have "validate_transaction u tx = Inr () \<longleftrightarrow>
      (\<exists>r :: u64. unat r = inputs_value u tx \<and>
        (\<exists>s :: u64. unat s = outputs_value tx \<and> ?ok \<and> unat s \<le> unat r))"
    using False
    by (auto simp: validate_transaction_def and_then_Inr_iff output_sum_Inr_iff input_sum_loop_Inr_iff
        inputs_value_def not_less word_le_nat_alt split: if_splits)
  with False show ?thesis unfolding word_of_sum by (auto simp: unat_of_nat)
qed

section \<open>Application and undo\<close>

definition spent_outpoints :: "transaction \<Rightarrow> out_point set" where
  "spent_outpoints tx = (if is_coinbase tx then {} else input_outpoint ` set (inputs tx))"

definition created_outpoints :: "env \<Rightarrow> transaction \<Rightarrow> out_point set" where
  "created_outpoints E tx =
     (\<lambda>i. \<lparr>op_txid = txid E tx, op_index = of_nat i\<rparr>) ` {..<length (outputs tx)}"

lemma remove_inputs_spec:
  "\<exists>u' r. remove_inputs ins u rem = (u', rem @ r) \<and>
     entries u' = entries u |` (- input_outpoint ` set ins) \<and>
     map_of r = entries u |` (input_outpoint ` set ins) \<and> distinct (map fst r)"
proof (induction ins arbitrary: u rem)
  case Nil
  show ?case by (auto simp: restrict_map_def)
next
  case (Cons i ins)
  show ?case
  proof (cases "entries u (input_outpoint i)")
    case None
    obtain u' r where ur: "remove_inputs ins u rem = (u', rem @ r)"
      "entries u' = entries u |` (- input_outpoint ` set ins)"
      "map_of r = entries u |` (input_outpoint ` set ins)" "distinct (map fst r)"
      using Cons.IH [of u rem] by blast
    then show ?thesis using None by (auto simp: restrict_map_def fun_eq_iff)
  next
    case (Some e)
    let ?u = "u\<lparr>entries := (entries u)(input_outpoint i := None)\<rparr>"
    obtain u' r where ur: "remove_inputs ins ?u (rem @ [(input_outpoint i, e)]) = (u', (rem @ [(input_outpoint i, e)]) @ r)"
      "entries u' = entries ?u |` (- input_outpoint ` set ins)"
      "map_of r = entries ?u |` (input_outpoint ` set ins)" "distinct (map fst r)"
      using Cons.IH [of ?u "rem @ [(input_outpoint i, e)]"] by blast
    have "input_outpoint i \<notin> fst ` set r"
      using ur(3) unfolding dom_map_of_conv_image_fst [symmetric] by (auto simp: restrict_map_def split: if_splits)
    then show ?thesis
      using Some ur by (intro exI [of _ u'] exI [of _ "(input_outpoint i, e) # r"])
        (auto simp: restrict_map_def fun_eq_iff)
  qed
qed

lemma insert_outputs_spec:
  "\<exists>u' c. insert_outputs tid k outs u crt = (u', crt @ c) \<and>
     set c = (\<lambda>i. \<lparr>op_txid = tid, op_index = of_nat i\<rparr>) ` {k..<k + length outs} \<and>
     (\<forall>op. entries u' op = (if op \<in> set c then entries u' op else entries u op)) \<and>
     set c \<subseteq> dom (entries u')"
proof (induction outs arbitrary: k u crt)
  case Nil
  show ?case by simp
next
  case (Cons out outs)
  let ?op = "\<lparr>op_txid = tid, op_index = of_nat k\<rparr>"
  let ?u = "u\<lparr>entries := (entries u)(?op \<mapsto> \<lparr>entry_value = out_value out, entry_script = script_pubkey out\<rparr>)\<rparr>"
  obtain u' c where uc: "insert_outputs tid (k + 1) outs ?u (crt @ [?op]) = (u', (crt @ [?op]) @ c)"
    "set c = (\<lambda>i. \<lparr>op_txid = tid, op_index = of_nat i\<rparr>) ` {k + 1..<k + 1 + length outs}"
    "\<forall>op. entries u' op = (if op \<in> set c then entries u' op else entries ?u op)" "set c \<subseteq> dom (entries u')"
    using Cons.IH [of "k + 1" ?u "crt @ [?op]"] by blast
  have range: "{k..<k + length (out # outs)} = insert k {k + 1..<k + 1 + length outs}" by auto
  have "?op \<in> dom (entries u')"
    using uc(3,4) by (cases "?op \<in> set c") (auto dest: spec [of _ ?op])
  then show ?case
    using uc range by (intro exI [of _ u'] exI [of _ "?op # c"]) (auto split: if_splits)
qed

lemma apply_transaction_spec:
  obtains u' r c where "apply_transaction E u tx = (u', \<lparr>removed = r, created = c\<rparr>)"
    "set c = created_outpoints E tx" "set c \<subseteq> dom (entries u')"
    "\<And>op. op \<notin> set c \<Longrightarrow> entries u' op = (entries u |` (- spent_outpoints tx)) op"
    "map_of r = entries u |` spent_outpoints tx" "distinct (map fst r)"
proof -
  obtain u1 r where r: "(if is_coinbase tx then (u, []) else remove_inputs (inputs tx) u []) = (u1, r)"
    "entries u1 = entries u |` (- spent_outpoints tx)" "map_of r = entries u |` spent_outpoints tx"
    "distinct (map fst r)"
  proof (cases "is_coinbase tx")
    case True
    then show thesis using that [of u "[]"] by (simp add: spent_outpoints_def restrict_map_def)
  next
    case False
    then show thesis
      using remove_inputs_spec [of "inputs tx" u "[]"] that by (auto simp: spent_outpoints_def)
  qed
  obtain u2 c where c: "insert_outputs (txid E tx) 0 (outputs tx) u1 [] = (u2, [] @ c)"
    "set c = created_outpoints E tx" "\<forall>op. entries u2 op = (if op \<in> set c then entries u2 op else entries u1 op)"
    "set c \<subseteq> dom (entries u2)"
    using insert_outputs_spec [of "txid E tx" 0 "outputs tx" u1 "[]"]
    by (auto simp: created_outpoints_def atLeast0LessThan)
  show thesis
  proof (rule that)
    show "apply_transaction E u tx = (u2, \<lparr>removed = r, created = c\<rparr>)"
      using r(1) c(1) by (simp add: apply_transaction_def)
    show "entries u2 op = (entries u |` (- spent_outpoints tx)) op" if "op \<notin> set c" for op
      using c(3) that r(2) by metis
  qed (use c r in auto)
qed

lemma foldl_remove: "entries (foldl (\<lambda>u op. u\<lparr>entries := (entries u)(op := None)\<rparr>) u ops) = entries u |` (- set ops)"
  by (induction ops arbitrary: u) (auto simp: restrict_map_def fun_eq_iff)

lemma foldl_insert:
  "distinct (map fst r) \<Longrightarrow>
     entries (foldl (\<lambda>u (op, entry). u\<lparr>entries := (entries u)(op \<mapsto> entry)\<rparr>) u r) = entries u ++ map_of r"
proof (induction r arbitrary: u)
  case (Cons x r)
  obtain op e where x: "x = (op, e)" by (cases x)
  have "map_of r op = None" using Cons.prems x by (simp add: map_of_eq_None_iff)
  then show ?case using Cons x by (auto simp: map_add_def fun_eq_iff split: option.splits)
qed simp

lemma utxo_set_eqI: "entries u = entries v \<Longrightarrow> u = v"
  for u v :: utxo_set
  by simp

text \<open>Undoing a transaction restores the set but for what its outputs overwrote.\<close>

lemma disconnect_undo_entries:
  assumes "apply_transaction E u tx = (u', undo)"
  shows "entries (disconnect_undo v undo) =
    (\<lambda>op. if op \<in> spent_outpoints tx \<and> op \<in> dom (entries u) then entries u op
          else if op \<in> created_outpoints E tx then None else entries v op)"
proof -
  obtain r c where rc: "undo = \<lparr>removed = r, created = c\<rparr>" "set c = created_outpoints E tx"
    "map_of r = entries u |` spent_outpoints tx" "distinct (map fst r)"
    using apply_transaction_spec [of E u tx] assms by (metis prod.inject)
  have "entries (disconnect_undo v undo) = (entries v |` (- set c)) ++ map_of r"
    using rc(1,4) by (simp add: disconnect_undo_def Let_def foldl_insert foldl_remove)
  then show ?thesis
    unfolding rc(2,3) by (auto simp: fun_eq_iff map_add_def restrict_map_def split: option.split)
qed

lemma undo_entries:
  assumes "apply_transaction E u tx = (u', undo)"
  shows "entries (disconnect_undo u' undo) = entries u |` (- (created_outpoints E tx - spent_outpoints tx))"
proof -
  obtain c where c: "set c = created_outpoints E tx"
    "\<And>op. op \<notin> set c \<Longrightarrow> entries u' op = (entries u |` (- spent_outpoints tx)) op"
    using apply_transaction_spec [of E u tx] assms by (metis prod.inject)
  show ?thesis
    unfolding disconnect_undo_entries [OF assms] using c by (auto simp: fun_eq_iff restrict_map_def domIff)
qed

text \<open>A transaction that overwrites no other unspent output is undone exactly.\<close>

definition overwrites_none :: "env \<Rightarrow> utxo_set \<Rightarrow> transaction \<Rightarrow> bool" where
  "overwrites_none E u tx \<longleftrightarrow> created_outpoints E tx \<inter> dom (entries u) \<subseteq> spent_outpoints tx"

lemma restrict_eq_iff: "m |` (- S) = m \<longleftrightarrow> S \<inter> dom m = {}"
proof
  assume "m |` (- S) = m"
  then show "S \<inter> dom m = {}" by (metis Compl_iff IntE dom_restrict equals0I)
next
  assume "S \<inter> dom m = {}"
  then show "m |` (- S) = m" by (intro ext) (metis ComplI IntI domIff empty_iff restrict_map_def)
qed

lemma undo_exact_iff:
  assumes "apply_transaction E u tx = (u', undo)"
  shows "disconnect_undo u' undo = u \<longleftrightarrow> overwrites_none E u tx"
proof -
  have "disconnect_undo u' undo = u \<longleftrightarrow> entries (disconnect_undo u' undo) = entries u" by (metis utxo_set_eqI)
  also have "\<dots> \<longleftrightarrow> overwrites_none E u tx"
    unfolding undo_entries [OF assms] overwrites_none_def restrict_eq_iff by blast
  finally show ?thesis .
qed

lemma disconnect_apply: "overwrites_none E u tx \<Longrightarrow> apply_transaction E u tx = (u', undo) \<Longrightarrow> disconnect_undo u' undo = u"
  using undo_exact_iff by blast

section \<open>Contained sets\<close>

text \<open>
  A set that lacks some outputs of another: what is applied to both gives the same undo data, and undoing it
  from a set contained in the second result gives one contained in the second set.
\<close>

definition within :: "utxo_set \<Rightarrow> utxo_set \<Rightarrow> bool" where
  "within u v \<longleftrightarrow> entries u \<subseteq>\<^sub>m entries v"

lemma within_refl [simp]: "within u u"
  by (simp add: within_def)

lemma within_entry: "within u v \<Longrightarrow> op \<in> dom (entries u) \<Longrightarrow> entries v op = entries u op"
  by (simp add: within_def map_le_def)

lemma remove_inputs_agree:
  "\<forall>i\<in>set ins. entries u (input_outpoint i) = entries v (input_outpoint i) \<Longrightarrow>
     snd (remove_inputs ins u rem) = snd (remove_inputs ins v rem)"
  by (induction ins arbitrary: u v rem) (auto split: option.split)

lemma insert_outputs_within:
  "within u v \<Longrightarrow> within (fst (insert_outputs tid k outs u crt)) (fst (insert_outputs tid k outs v crt)) \<and>
     snd (insert_outputs tid k outs u crt) = snd (insert_outputs tid k outs v crt)"
proof (induction outs arbitrary: k u v crt)
  case (Cons out outs)
  let ?up = "\<lambda>u. u\<lparr>entries := (entries u)(\<lparr>op_txid = tid, op_index = of_nat k\<rparr> \<mapsto>
            \<lparr>entry_value = out_value out, entry_script = script_pubkey out\<rparr>)\<rparr>"
  have "within (?up u) (?up v)" using Cons.prems by (auto simp: within_def map_le_def)
  from Cons.IH [OF this] show ?case by simp
qed simp

lemma apply_transaction_within:
  assumes w: "within u v" and spent: "spent_outpoints tx \<subseteq> dom (entries u)"
  shows "within (fst (apply_transaction E u tx)) (fst (apply_transaction E v tx)) \<and>
    snd (apply_transaction E u tx) = snd (apply_transaction E v tx)"
proof -
  let ?rm = "\<lambda>u. if is_coinbase tx then (u, []) else remove_inputs (inputs tx) u []"
  have "within (fst (?rm u)) (fst (?rm v)) \<and> snd (?rm u) = snd (?rm v)"
  proof (cases "is_coinbase tx")
    case False
    then have "\<forall>i\<in>set (inputs tx). entries u (input_outpoint i) = entries v (input_outpoint i)"
      using spent within_entry [OF w] by (auto simp: spent_outpoints_def image_subset_iff)
    note same = remove_inputs_agree [OF this, of "[]"]
    obtain u1 r v1 r' where "remove_inputs (inputs tx) u [] = (u1, r)" "entries u1 = entries u |` (- input_outpoint ` set (inputs tx))"
      "remove_inputs (inputs tx) v [] = (v1, r')" "entries v1 = entries v |` (- input_outpoint ` set (inputs tx))"
      using remove_inputs_spec [of "inputs tx" u "[]"] remove_inputs_spec [of "inputs tx" v "[]"] by auto
    moreover from this(2,4) have "within u1 v1"
      using w by (auto simp: within_def map_le_def restrict_map_def domIff)
    ultimately show ?thesis using False same by simp
  qed (simp add: w)
  then obtain u1 v1 r where rm: "?rm u = (u1, r)" "?rm v = (v1, r)" "within u1 v1"
    by (cases "?rm u"; cases "?rm v") auto
  show ?thesis
    using insert_outputs_within [OF rm(3), of "txid E tx" 0 "outputs tx" "[]"]
    unfolding apply_transaction_def rm(1,2) by (auto split: prod.split)
qed

lemma disconnect_undo_within:
  assumes "within w (fst (apply_transaction E u tx))"
  shows "within (disconnect_undo w (snd (apply_transaction E u tx))) u"
proof -
  obtain u' undo where a: "apply_transaction E u tx = (u', undo)" by fastforce
  obtain c where c: "set c = created_outpoints E tx"
    "\<And>op. op \<notin> set c \<Longrightarrow> entries u' op = (entries u |` (- spent_outpoints tx)) op"
    using apply_transaction_spec [of E u tx] a by (metis prod.inject)
  have w: "within w u'" using assms by (simp add: a)
  have "entries u op = entries (disconnect_undo w undo) op" if d: "op \<in> dom (entries (disconnect_undo w undo))" for op
  proof (cases "op \<in> spent_outpoints tx \<and> op \<in> dom (entries u)")
    case True
    then show ?thesis by (simp add: disconnect_undo_entries [OF a])
  next
    case False
    then have op: "op \<notin> created_outpoints E tx" "op \<in> dom (entries w)"
      using d by (auto simp: disconnect_undo_entries [OF a] split: if_splits)
    have "entries w op = entries u op"
      using within_entry [OF w op(2)] c(2) [of op] op False unfolding c(1)
      by (auto simp: restrict_map_def split: if_splits)
    then show ?thesis using False op by (auto simp: disconnect_undo_entries [OF a])
  qed
  then show ?thesis by (auto simp: a within_def map_le_def)
qed

section \<open>Conservation of value\<close>

definition total_supply :: "utxo_set \<Rightarrow> nat" where
  "total_supply u = (\<Sum>op\<in>dom (entries u). unat (entry_value (the (entries u op))))"

lemma supply_insert:
  assumes "finite (dom (entries u))" "entries u op = None" "entries v = (entries u)(op \<mapsto> e)"
  shows "total_supply v = total_supply u + unat (entry_value e)" "finite (dom (entries v))"
proof -
  have d: "dom (entries v) = insert op (dom (entries u))" using assms by auto
  then show "finite (dom (entries v))" using assms by simp
  have "(\<Sum>p\<in>dom (entries u). unat (entry_value (the (entries v p)))) = total_supply u"
    unfolding total_supply_def using assms by (intro sum.cong) auto
  moreover have "op \<notin> dom (entries u)" using assms by auto
  ultimately show "total_supply v = total_supply u + unat (entry_value e)"
    unfolding total_supply_def [of v] d using assms by simp
qed

lemma supply_remove:
  assumes "finite (dom (entries u))" "entries u op = Some e" "entries v = (entries u)(op := None)"
  shows "total_supply v + unat (entry_value e) = total_supply u" "finite (dom (entries v))"
proof -
  show "finite (dom (entries v))" using assms by simp
  moreover have "entries v op = None" "entries u = (entries v)(op \<mapsto> e)"
    unfolding assms(3) using assms(2) by (auto simp: fun_eq_iff)
  ultimately have "total_supply u = total_supply v + unat (entry_value e)" by (rule supply_insert(1))
  then show "total_supply v + unat (entry_value e) = total_supply u" ..
qed

lemma supply_remove_inputs:
  assumes "finite (dom (entries u))" "distinct (map input_outpoint ins)"
    "list_all (\<lambda>i. input_outpoint i \<in> dom (entries u)) ins"
  shows "finite (dom (entries (fst (remove_inputs ins u rem)))) \<and>
     total_supply (fst (remove_inputs ins u rem)) +
       sum_list (map (\<lambda>i. unat (entry_value (the (entries u (input_outpoint i))))) ins) = total_supply u"
  using assms
proof (induction ins arbitrary: u rem)
  case Nil
  then show ?case by simp
next
  case (Cons i ins)
  obtain e where e: "entries u (input_outpoint i) = Some e" using Cons.prems(3) by auto
  define v where "v = u\<lparr>entries := (entries u)(input_outpoint i := None)\<rparr>"
  have v: "entries v = (entries u)(input_outpoint i := None)" by (simp add: v_def)
  have step: "remove_inputs (i # ins) u rem = remove_inputs ins v (rem @ [(input_outpoint i, e)])"
    by (simp add: e v_def)
  note sup = supply_remove [OF Cons.prems(1) e v]
  have ni: "input_outpoint j \<noteq> input_outpoint i" if "j \<in> set ins" for j
    using Cons.prems(2) that by (metis distinct.simps(2) image_eqI image_set list.simps(9))
  then have "list_all (\<lambda>j. input_outpoint j \<in> dom (entries v)) ins"
    using Cons.prems(3) by (auto simp: list_all_iff v)
  moreover have "sum_list (map (\<lambda>j. unat (entry_value (the (entries v (input_outpoint j))))) ins)
      = sum_list (map (\<lambda>j. unat (entry_value (the (entries u (input_outpoint j))))) ins)"
    by (intro arg_cong [where f = sum_list] map_cong refl) (simp add: v ni)
  ultimately show ?case
    using Cons.IH [OF sup(2), of "rem @ [(input_outpoint i, e)]"] Cons.prems(2) sup(1) e
    unfolding step by simp
qed

lemma supply_insert_outputs:
  assumes "finite (dom (entries u))" "k + length outs \<le> 2 ^ 32"
    "\<forall>i\<in>{k..<k + length outs}. entries u \<lparr>op_txid = tid, op_index = of_nat i\<rparr> = None"
  shows "total_supply (fst (insert_outputs tid k outs u crt)) =
      total_supply u + sum_list (map (\<lambda>out. unat (out_value out)) outs)"
  using assms
proof (induction outs arbitrary: k u crt)
  case Nil
  then show ?case by simp
next
  case (Cons out outs)
  let ?op = "\<lambda>i. \<lparr>op_txid = tid, op_index = of_nat i\<rparr>"
  let ?e = "\<lparr>entry_value = out_value out, entry_script = script_pubkey out\<rparr>"
  define v where "v = u\<lparr>entries := (entries u)(?op k \<mapsto> ?e)\<rparr>"
  have v: "entries v = (entries u)(?op k \<mapsto> ?e)" by (simp add: v_def)
  have step: "insert_outputs tid k (out # outs) u crt = insert_outputs tid (k + 1) outs v (crt @ [?op k])"
    by (simp add: v_def)
  have "entries u (?op k) = None" using Cons.prems(3) by simp
  note sup = supply_insert [OF Cons.prems(1) this v]
  have ne: "?op i \<noteq> ?op k" if "i \<in> {k + 1..<k + 1 + length outs}" for i
    using that Cons.prems(2) by (auto simp: word_unat_eq_iff unat_of_nat)
  then have "\<forall>i\<in>{k + 1..<k + 1 + length outs}. entries v (?op i) = None"
    using Cons.prems(3) by (auto simp: v)
  then show ?case
    using Cons.IH [OF sup(2), of "k + 1" "crt @ [?op k]"] Cons.prems(2) sup(1)
    unfolding step by simp
qed

lemma supply_apply:
  assumes fin: "finite (dom (entries u))" and nc: "\<not> is_coinbase tx"
    and ok: "validate_transaction u tx = Inr ()"
    and dist: "distinct (map input_outpoint (inputs tx))"
    and fresh: "created_outpoints E tx \<inter> dom (entries u) = {}" and few: "length (outputs tx) \<le> 2 ^ 32"
  shows "total_supply (fst (apply_transaction E u tx)) + inputs_value u tx = total_supply u + outputs_value tx"
proof -
  have dom: "list_all (\<lambda>i. input_outpoint i \<in> dom (entries u)) (inputs tx)"
    using ok nc unfolding validate_transaction_Inr_iff by blast
  obtain u1 r where r: "remove_inputs (inputs tx) u [] = (u1, r)" by fastforce
  have u1: "finite (dom (entries u1))" "total_supply u1 + inputs_value u tx = total_supply u"
    using supply_remove_inputs [OF fin dist dom, of "[]"] r by (auto simp: inputs_value_def)
  have "entries u1 = entries u |` (- input_outpoint ` set (inputs tx))"
    using remove_inputs_spec [of "inputs tx" u "[]"] r by auto
  then have none: "\<forall>i\<in>{0..<0 + length (outputs tx)}. entries u1 \<lparr>op_txid = txid E tx, op_index = of_nat i\<rparr> = None"
    using fresh by (fastforce simp: created_outpoints_def restrict_map_def)
  have "total_supply (fst (insert_outputs (txid E tx) 0 (outputs tx) u1 [])) = total_supply u1 + outputs_value tx"
    unfolding outputs_value_def using few by (intro supply_insert_outputs [OF u1(1) _ none]) simp
  moreover obtain u2 c where "insert_outputs (txid E tx) 0 (outputs tx) u1 [] = (u2, c)" by fastforce
  ultimately show ?thesis using u1(2) r nc by (simp add: apply_transaction_def)
qed

lemma supply_within:
  assumes "within u v" "finite (dom (entries v))"
  shows "total_supply u \<le> total_supply v"
proof -
  have "dom (entries u) \<subseteq> dom (entries v)" using assms(1) by (auto simp: within_def dest: map_le_implies_dom_le)
  moreover have "total_supply u = (\<Sum>op\<in>dom (entries u). unat (entry_value (the (entries v op))))"
    unfolding total_supply_def using within_entry [OF assms(1)] by (intro sum.cong) auto
  ultimately show ?thesis unfolding total_supply_def [of v] using assms(2) by (simp add: sum_mono2)
qed

section \<open>Properties\<close>

text \<open>
  Transaction validation: a transaction is accepted exactly when its outputs sum to less than
  \<open>2 ^ 64\<close> and, unless it is a coinbase, every input is unspent, the inputs sum to less than
  \<open>2 ^ 64\<close> and the outputs create no more than the inputs hold.
\<close>

theorem validate_transaction_accepts:
  "validate_transaction u tx = Inr () \<longleftrightarrow>
     outputs_value tx < 2 ^ 64 \<and>
     (is_coinbase tx \<or>
        list_all (\<lambda>i. utxo_contains u (input_outpoint i)) (inputs tx) \<and>
        inputs_value u tx < 2 ^ 64 \<and> outputs_value tx \<le> inputs_value u tx)"
  unfolding validate_transaction_Inr_iff by (simp add: utxo_contains_def domIff)

text \<open>
  No inflation: a valid transaction that is not a coinbase, spends each outpoint once and creates
  only fresh outpoints, changes the total value of the unspent set by exactly outputs minus
  inputs, so the set never gains value.
\<close>

theorem apply_no_inflation:
  assumes "finite (dom (entries u))" and "\<not> is_coinbase tx" and "validate_transaction u tx = Inr ()"
    and "distinct (map input_outpoint (inputs tx))"
    and "created_outpoints E tx \<inter> dom (entries u) = {}" and "length (outputs tx) \<le> 2 ^ 32"
  shows "total_supply (fst (apply_transaction E u tx)) + inputs_value u tx = total_supply u + outputs_value tx \<and>
    total_supply (fst (apply_transaction E u tx)) \<le> total_supply u"
proof
  show eq: "total_supply (fst (apply_transaction E u tx)) + inputs_value u tx = total_supply u + outputs_value tx"
    using supply_apply assms by blast
  have "outputs_value tx \<le> inputs_value u tx"
    using assms(2,3) unfolding validate_transaction_Inr_iff by blast
  then show "total_supply (fst (apply_transaction E u tx)) \<le> total_supply u"
    using eq by linarith
qed

definition sample_utxo :: utxo_set where
  "sample_utxo = \<lparr>entries = [\<lparr>op_txid = replicate 32 7, op_index = 0\<rparr> \<mapsto> \<lparr>entry_value = 100, entry_script = []\<rparr>]\<rparr>"

definition sample_spend :: transaction where
  "sample_spend = \<lparr>tx_version = 1,
     inputs = [\<lparr>previous_output = replicate 32 7, prev_index = 0, script_sig = [], sequence_no = 0\<rparr>],
     outputs = [\<lparr>out_value = 90, script_pubkey = []\<rparr>], lock_time = 0\<rparr>"

lemma sample_spend_facts:
  "finite (dom (entries sample_utxo))" "\<not> is_coinbase sample_spend"
  "validate_transaction sample_utxo sample_spend = Inr ()"
  "distinct (map input_outpoint (inputs sample_spend))"
  "created_outpoints toy_env sample_spend \<inter> dom (entries sample_utxo) = {}"
  "length (outputs sample_spend) \<le> 2 ^ 32"
  "inputs_value sample_utxo sample_spend = 100" "outputs_value sample_spend = 90"
  "total_supply sample_utxo = 100"
proof -
  show coin: "\<not> is_coinbase sample_spend"
    by (simp add: is_coinbase_def sample_spend_def replicate_numeral)
  show vals: "inputs_value sample_utxo sample_spend = 100" "outputs_value sample_spend = 90"
    by (simp_all add: inputs_value_def outputs_value_def sample_utxo_def sample_spend_def input_outpoint_def)
  show "validate_transaction sample_utxo sample_spend = Inr ()"
    unfolding validate_transaction_Inr_iff vals using coin
    by (simp add: sample_utxo_def sample_spend_def input_outpoint_def)
  show "created_outpoints toy_env sample_spend \<inter> dom (entries sample_utxo) = {}"
    by (auto simp: created_outpoints_def sample_utxo_def txid_def sha256d_def toy_env_def replicate_numeral)
qed (simp_all add: sample_utxo_def sample_spend_def total_supply_def)

theorem apply_no_inflation_witness:
  "total_supply (fst (apply_transaction toy_env sample_utxo sample_spend)) = 90"
  using apply_no_inflation [OF sample_spend_facts(1-6)] sample_spend_facts(7-9) by simp

text \<open>
  C27. Undo: disconnecting a transaction with the undo data its application returned gives back the set it was
  applied to, less the outputs its own outputs had overwritten; so it gives back the very same set exactly when
  no output the transaction creates overwrites one that stays unspent.
\<close>

theorem undo_inverts_apply:
  "(case apply_transaction E u tx of (u', undo) \<Rightarrow> disconnect_undo u' undo) =
      u\<lparr>entries := entries u |` (- (created_outpoints E tx - spent_outpoints tx))\<rparr> \<and>
   ((case apply_transaction E u tx of (u', undo) \<Rightarrow> disconnect_undo u' undo) = u \<longleftrightarrow>
      created_outpoints E tx \<inter> dom (entries u) \<subseteq> spent_outpoints tx)"
proof -
  obtain u' undo where a: "apply_transaction E u tx = (u', undo)" by fastforce
  have "disconnect_undo u' undo = u\<lparr>entries := entries u |` (- (created_outpoints E tx - spent_outpoints tx))\<rparr>"
    by (rule utxo_set_eqI) (simp add: undo_entries [OF a])
  then show ?thesis using undo_exact_iff [OF a] by (simp add: a overwrites_none_def)
qed

text \<open>
  Overwriting happens: an output that is overwritten (a second coinbase with the same bytes) is
  not recorded in the undo data, so disconnecting the second occurrence deletes the output of
  the first one, which is still part of the chain.
\<close>

theorem undo_drops_overwritten_output:
  "(let u1 = fst (apply_transaction E new_utxo (coinbase_tx height reward)) in
      u1 \<noteq> new_utxo \<and>
      (case apply_transaction E u1 (coinbase_tx height reward) of (u2, undo) \<Rightarrow> disconnect_undo u2 undo) = new_utxo)"
  by (simp add: apply_transaction_def coinbase_tx_def is_coinbase_def new_utxo_def disconnect_undo_def Let_def)

end
