(* ===== verification/BlockRules.thy ===== *)
theory BlockRules
  imports Difficulty Utxo Sighash Script Events Store
begin

text \<open>
  The parts of \<open>crates/bitrst-core/src/chain.rs\<close> that only read the chain, with \<open>time.rs\<close>: cumulative work,
  the block limits, the header rules and the transaction rules a block is validated with.  They take
  the pieces of the state they read as arguments; \<open>Chain\<close> passes the fields of its record.
\<close>

section \<open>Chain work\<close>

datatype chain_work = ChainWork (work_bytes: bytes)

text \<open>\<open>Ord for ChainWork\<close>: the comparison of 256-bit numbers.\<close>

definition chain_work_cmp :: "chain_work \<Rightarrow> chain_work \<Rightarrow> ordering" where
  "chain_work_cmp a b = cmp_le (work_bytes a) (work_bytes b)"

instantiation chain_work :: linorder
begin

definition less_eq_chain_work :: "chain_work \<Rightarrow> chain_work \<Rightarrow> bool" where
  "less_eq_chain_work a b \<longleftrightarrow> chain_work_cmp a b \<noteq> Greater"

definition less_chain_work :: "chain_work \<Rightarrow> chain_work \<Rightarrow> bool" where
  "less_chain_work a b \<longleftrightarrow> chain_work_cmp a b = Less"

instance
proof
  fix a b c :: chain_work
  have not_less: "cmp_le x y \<noteq> Greater \<longleftrightarrow> cmp_le x y = Less \<or> x = y" for x y
    using cmp_le_order(1) [of x y] by (cases "cmp_le x y") auto
  have asym: "cmp_le x y = Less \<Longrightarrow> cmp_le y x \<noteq> Less" for x y
    using cmp_le_order(2) [of x y] by auto
  show "a < b \<longleftrightarrow> a \<le> b \<and> \<not> b \<le> a"
    unfolding less_eq_chain_work_def chain_work_cmp_def less_chain_work_def cmp_le_order(2)
    using asym not_less cmp_le_order(1,2) by (metis ordering.distinct(1) ordering.exhaust)
  show "a \<le> a" by (simp add: less_eq_chain_work_def chain_work_cmp_def cmp_le_def)
  show "a \<le> c" if "a \<le> b" "b \<le> c"
    using that cmp_le_order(3) unfolding less_eq_chain_work_def chain_work_cmp_def not_less by metis
  show "a = b" if "a \<le> b" "b \<le> a"
    using that asym unfolding less_eq_chain_work_def chain_work_cmp_def not_less by (metis chain_work.expand)
  show "a \<le> b \<or> b \<le> a"
    unfolding less_eq_chain_work_def chain_work_cmp_def cmp_le_order(2) by (cases "cmp_le (work_bytes a) (work_bytes b)") (auto simp: cmp_le_order(2) dest: asym)
qed

end

definition default_work :: chain_work where
  "default_work = ChainWork (replicate 32 0)"

text \<open>The loop of \<open>ChainWork::add\<close>, with its 16-bit carry; the final carry is dropped.\<close>

fun work_add_loop :: "u16 \<Rightarrow> bytes \<Rightarrow> bytes \<Rightarrow> bytes" where
  "work_add_loop carry (a # as) (b # bs) =
     (ucast (ucast a + ucast b + carry) # work_add_loop (drop_bit 8 (ucast a + ucast b + carry)) as bs)"
| "work_add_loop carry _ _ = []"

definition work_add :: "chain_work \<Rightarrow> chain_work \<Rightarrow> chain_work" where
  "work_add w v = ChainWork (work_add_loop 0 (work_bytes w) (work_bytes v))"

section \<open>Errors\<close>

text \<open>
  \<open>IndexPanic\<close> stands for the panic of an out-of-range index, \<open>OutOfFuel\<close> for a loop that did not end within
  the bound its definition gives it; neither is a value of the program's error type.
\<close>

datatype chain_error =
    InvalidProofOfWork
  | MerkleRootMismatch
  | InvalidCoinbaseCount nat
  | InvalidTimestamp u32 u32 u32
  | UnexpectedBits u32 u32 u32
  | UtxoFailed utxo_error
  | DifficultyFailed difficulty_error
  | BlockAlreadyKnown
  | InvalidGenesis
  | BlockTooLarge
  | TooManyTransactions
  | ScriptTooLarge
  | MissingAncestor
  | NoActiveTip
  | StoreFailed store_error
  | LockPoisoned
  | InvalidNetworkTime
  | InvalidScript
  | SighashFailed sighash_error
  | EventCursorFailed chain_event_cursor_error
  | DisconnectedBlockRecoveryFailed chain_event_cursor_error
  | IndexPanic
  | OutOfFuel

section \<open>Limits and header rules\<close>

definition tx_scripts_within_limit :: "transaction \<Rightarrow> bool" where
  "tx_scripts_within_limit tx \<longleftrightarrow>
     list_all (\<lambda>input. \<not> length (script_sig input) > MAX_SCRIPT_SIZE) (inputs tx) \<and>
     list_all (\<lambda>output. \<not> length (script_pubkey output) > MAX_SCRIPT_SIZE) (outputs tx)"

definition validate_block_limits :: "block \<Rightarrow> chain_error + unit" where
  "validate_block_limits b =
     (if block_serialized_size b > MAX_BLOCK_SERIALIZED_SIZE then Inl BlockTooLarge
      else if length (transactions b) > MAX_TRANSACTIONS_PER_BLOCK then Inl TooManyTransactions
      else if \<not> list_all tx_scripts_within_limit (transactions b) then Inl ScriptTooLarge
      else Inr ())"

definition MAX_FUTURE_BLOCK_TIME :: u32 where
  "MAX_FUTURE_BLOCK_TIME = 2 * 60 * 60"

definition valid_block_time :: "u32 \<Rightarrow> u32 \<Rightarrow> u32 \<Rightarrow> bool" where
  "valid_block_time block_time median_past_time network_time \<longleftrightarrow>
     block_time > median_past_time \<and> block_time \<le> saturating_add network_time MAX_FUTURE_BLOCK_TIME"

record block_meta =
  meta_block :: block
  meta_height :: u32
  meta_work :: chain_work
  meta_undo :: "tx_undo list"

text \<open>The block index: the hash map \<open>known\<close>, in insertion order.\<close>

type_synonym block_index = "(hash32 \<times> block_meta) list"

text \<open>The loop \<open>for _ in 0..11\<close> of \<open>median_past_time_before\<close>.\<close>

fun past_times :: "nat \<Rightarrow> block_index \<Rightarrow> hash32 \<Rightarrow> u32 list" where
  "past_times 0 idx h = []"
| "past_times (Suc n) idx h =
     (case map_of idx h of
        None \<Rightarrow> []
      | Some m \<Rightarrow> time (header (meta_block m)) # past_times n idx (prev_blockhash (header (meta_block m))))"

definition median_past_time_before :: "block_index \<Rightarrow> hash32 \<Rightarrow> u32" where
  "median_past_time_before idx h =
     (let times = past_times 11 idx h in
      if times = [] then 0 else sort times ! (length times div 2))"

definition expected_bits :: "env \<Rightarrow> block list \<Rightarrow> u32 \<Rightarrow> u32 \<Rightarrow> chain_error + u32" where
  "expected_bits E bs height block_bits =
     (if height = 0 then Inr block_bits
      else if height mod difficulty_adjustment_interval E \<noteq> 0 then
        (if bs = [] then Inl NoActiveTip else Inr (bits (header (last bs))))
      else
        let period_start = unat (saturating_sub height (difficulty_adjustment_interval E));
            period_end = unat height
        in if period_start \<ge> length bs then Inr MAX_COMPACT_BITS
           else if period_end - 1 \<ge> length bs then Inl IndexPanic
           else
             let start_time = time (header (bs ! period_start));
                 end_time = time (header (bs ! (period_end - 1)));
                 actual_timespan = saturating_sub end_time start_time;
                 prev_bits = bits (header (bs ! (period_end - 1)))
             in map_err DifficultyFailed (adjust_bits prev_bits actual_timespan))"

definition validate_block_header_for_parent ::
  "env \<Rightarrow> block_index \<Rightarrow> block list \<Rightarrow> u32 \<Rightarrow> block \<Rightarrow> block option \<Rightarrow> hash32 option \<Rightarrow> u32 \<Rightarrow> chain_error + unit" where
  "validate_block_header_for_parent E idx bs network_time b parent parent_hash height =
     and_then (ok_or InvalidProofOfWork (from_bits (bits (header b)))) (\<lambda>tgt.
       if \<not> meets tgt (hash_block E b) then Inl InvalidProofOfWork
       else if \<not> header_merkle_root_matches E b then Inl MerkleRootMismatch
       else
         let coinbase_count = length (filter is_coinbase (transactions b)) in
         if coinbase_count \<noteq> 1 \<or> \<not> is_coinbase (transactions b ! 0)
         then Inl (InvalidCoinbaseCount coinbase_count)
         else
           and_then
             (case (parent, parent_hash) of
                (Some _, Some ph) \<Rightarrow>
                  let median_past = median_past_time_before idx ph in
                  if valid_block_time (time (header b)) median_past network_time then Inr ()
                  else Inl (InvalidTimestamp (time (header b)) median_past network_time)
              | _ \<Rightarrow> Inr ())
             (\<lambda>_.
           and_then (expected_bits E bs height (bits (header b))) (\<lambda>expected.
             if bits (header b) \<noteq> expected then Inl (UnexpectedBits height expected (bits (header b)))
             else Inr ())))"

definition block_work :: "u32 \<Rightarrow> chain_error + chain_work" where
  "block_work bts =
     and_then (ok_or InvalidProofOfWork (from_bits bts)) (\<lambda>tgt.
     and_then (ok_or InvalidProofOfWork (to_work tgt)) (\<lambda>work. Inr (ChainWork work)))"

section \<open>Transaction rules\<close>

text \<open>The inner loop that records the outpoints a block spends.\<close>

fun mark_spent :: "tx_input list \<Rightarrow> out_point set \<Rightarrow> chain_error + out_point set" where
  "mark_spent [] spent = Inr spent"
| "mark_spent (input # ins) spent =
     (if input_outpoint input \<in> spent
      then Inl (UtxoFailed (DuplicateSpend (previous_output input) (prev_index input)))
      else mark_spent ins (insert (input_outpoint input) spent))"

fun collect_prev_scripts :: "utxo_set \<Rightarrow> tx_input list \<Rightarrow> chain_error + bytes list" where
  "collect_prev_scripts view [] = Inr []"
| "collect_prev_scripts view (input # ins) =
     (case utxo_get view (input_outpoint input) of
        None \<Rightarrow> Inl (UtxoFailed (MissingInput (previous_output input) (prev_index input)))
      | Some entry \<Rightarrow>
          and_then (collect_prev_scripts view ins) (\<lambda>scripts. Inr (entry_script entry # scripts)))"

text \<open>The loop over the inputs, from index \<open>k\<close> on.\<close>

fun verify_inputs :: "env \<Rightarrow> transaction \<Rightarrow> bytes list \<Rightarrow> nat \<Rightarrow> tx_input list \<Rightarrow> chain_error + unit" where
  "verify_inputs E tx prev_scripts k [] = Inr ()"
| "verify_inputs E tx prev_scripts k (input # ins) =
     (if prev_scripts ! k = [] then verify_inputs E tx prev_scripts (k + 1) ins
      else
        and_then (map_err SighashFailed (sighash_all E tx k prev_scripts)) (\<lambda>sighash.
        and_then (map_err (\<lambda>_. InvalidScript) (verify_script E (script_sig input) (prev_scripts ! k) sighash)) (\<lambda>_.
          verify_inputs E tx prev_scripts (k + 1) ins)))"

text \<open>One turn of the loop over the transactions: the view and the spent set before and after.\<close>

definition validate_tx_step ::
  "env \<Rightarrow> transaction \<Rightarrow> utxo_set \<times> out_point set \<Rightarrow> chain_error + utxo_set \<times> out_point set" where
  "validate_tx_step E tx st =
     (case st of (view, spent) \<Rightarrow>
        and_then (if is_coinbase tx then Inr spent else mark_spent (inputs tx) spent) (\<lambda>spent'.
        and_then (map_err UtxoFailed (validate_transaction view tx)) (\<lambda>_.
        and_then
          (if is_coinbase tx then Inr ()
           else and_then (collect_prev_scripts view (inputs tx)) (\<lambda>prev_scripts.
                  verify_inputs E tx prev_scripts 0 (inputs tx)))
          (\<lambda>_. Inr (fst (apply_transaction E view tx), spent')))))"

fun validate_txs ::
  "env \<Rightarrow> transaction list \<Rightarrow> utxo_set \<times> out_point set \<Rightarrow> chain_error + utxo_set \<times> out_point set" where
  "validate_txs E [] st = Inr st"
| "validate_txs E (tx # txs) st = and_then (validate_tx_step E tx st) (validate_txs E txs)"

definition validate_block_transactions_for_utxo :: "env \<Rightarrow> block \<Rightarrow> utxo_set \<Rightarrow> chain_error + unit" where
  "validate_block_transactions_for_utxo E b utxo =
     and_then (validate_txs E (transactions b) (utxo, {})) (\<lambda>_. Inr ())"

text \<open>\<open>apply_block_transactions\<close>: the new set and the undo data, in transaction order.\<close>

fun apply_txs :: "env \<Rightarrow> transaction list \<Rightarrow> utxo_set \<Rightarrow> utxo_set \<times> tx_undo list" where
  "apply_txs E [] u = (u, [])"
| "apply_txs E (tx # txs) u =
     (case apply_transaction E u tx of
        (u1, undo) \<Rightarrow> (case apply_txs E txs u1 of (u2, undos) \<Rightarrow> (u2, undo # undos)))"

definition apply_block_transactions :: "env \<Rightarrow> block \<Rightarrow> utxo_set \<Rightarrow> utxo_set \<times> tx_undo list" where
  "apply_block_transactions E b u = apply_txs E (transactions b) u"

end
