(* ===== verification/NetTypes.thy ===== *)
theory NetTypes
  imports BlockRules
begin

text \<open>
  \<open>constants.rs\<close>, \<open>error.rs\<close> and \<open>message.rs\<close> of \<open>crates/bitrst-net/src\<close>.  A Rust \<open>String\<close> is the list of its
  UTF-8 bytes; \<open>rust_str\<close> is a string literal.  Durations are counted in seconds.
\<close>

definition rust_str :: "string \<Rightarrow> bytes" where
  "rust_str s = map (\<lambda>c. of_char c) s"

section \<open>Constants\<close>

definition MESSAGE_HEADER_SIZE :: nat where
  "MESSAGE_HEADER_SIZE = 24"

definition COMMAND_LENGTH :: nat where
  "COMMAND_LENGTH = 12"

definition PROTOCOL_VERSION :: i32 where
  "PROTOCOL_VERSION = 70016"

definition MAX_PAYLOAD_SIZE :: nat where
  "MAX_PAYLOAD_SIZE = MAX_BLOCK_SERIALIZED_SIZE"

definition MAX_INV_COUNT :: nat where
  "MAX_INV_COUNT = 50000"

definition MAX_USER_AGENT_LEN :: nat where
  "MAX_USER_AGENT_LEN = 256"

definition MAX_OUTBOUND_QUEUE :: nat where
  "MAX_OUTBOUND_QUEUE = 128"

definition DEFAULT_MAX_INBOUND :: nat where
  "DEFAULT_MAX_INBOUND = 8"

definition DEFAULT_MAX_OUTBOUND :: nat where
  "DEFAULT_MAX_OUTBOUND = 8"

definition MAX_PENDING_BLOCK_REQUESTS :: nat where
  "MAX_PENDING_BLOCK_REQUESTS = 256"

definition BLOCK_REQUEST_TTL :: "env \<Rightarrow> nat" where
  "BLOCK_REQUEST_TTL E = (if short_period E then 30 else 300)"

definition MAX_PEER_EVENTS :: nat where
  "MAX_PEER_EVENTS = 256"

definition MAX_PEER_REGISTRATIONS :: nat where
  "MAX_PEER_REGISTRATIONS = 32"

definition HANDSHAKE_TIMEOUT :: "env \<Rightarrow> nat" where
  "HANDSHAKE_TIMEOUT E = (if short_period E then 2 else 60)"

definition PEER_SHUTDOWN_TIMEOUT :: "env \<Rightarrow> nat" where
  "PEER_SHUTDOWN_TIMEOUT E = (if short_period E then 2 else 5)"

datatype p2p_network = P2PMainnet | P2PTestnet

definition magic :: "p2p_network \<Rightarrow> bytes" where
  "magic n = (case n of P2PMainnet \<Rightarrow> [0xf9, 0xbe, 0xb4, 0xd9] | P2PTestnet \<Rightarrow> [0x0b, 0x11, 0x09, 0x07])"

lemma length_magic [simp]: "length (magic n) = 4"
  by (cases n) (simp_all add: magic_def)

section \<open>Errors\<close>

datatype net_error =
    ConnectionClosed
  | Io string
  | InvalidMagic
  | InvalidCommand
  | PayloadTooLarge u32 nat
  | ChecksumMismatch bytes
  | Decode decode_error
  | HandshakeViolation string
  | HandshakeTimeout nat
  | SelfConnection
  | ConnectionLimitReached
  | OutboundQueueFull
  | EventQueueFull
  | RegistrationQueueFull
  | UnsupportedCommand bytes
  | UnknownInventoryType u32
  | NetChain chain_error
  | SeedsExhausted nat bytes
  | TaskJoinFailed

section \<open>Messages\<close>

datatype inv_type = InvTransaction | InvBlock | InvFilteredBlock

definition inv_type_from_u32 :: "u32 \<Rightarrow> inv_type option" where
  "inv_type_from_u32 v =
     (if v = 1 then Some InvTransaction else if v = 2 then Some InvBlock
      else if v = 3 then Some InvFilteredBlock else None)"

definition inv_type_to_u32 :: "inv_type \<Rightarrow> u32" where
  "inv_type_to_u32 t = (case t of InvTransaction \<Rightarrow> 1 | InvBlock \<Rightarrow> 2 | InvFilteredBlock \<Rightarrow> 3)"

lemma inv_type_iff: "inv_type_from_u32 v = Some t \<longleftrightarrow> v = inv_type_to_u32 t"
  by (cases t) (auto simp: inv_type_from_u32_def inv_type_to_u32_def)

record inventory_vector =
  inv_type :: inv_type
  inv_hash :: hash32

record version_message =
  vm_version :: i32
  services :: u64
  timestamp :: i64
  vm_nonce :: u64
  user_agent :: bytes
  start_height :: i32
  relay :: bool

datatype message_payload =
    VerackPayload
  | VersionPayload version_message
  | InvPayload "inventory_vector list"
  | GetDataPayload "inventory_vector list"
  | BlockPayload block
  | TxPayload transaction

record message =
  command :: bytes
  payload :: message_payload

definition verack_message :: message where
  "verack_message = \<lparr>command = rust_str ''verack'', payload = VerackPayload\<rparr>"

definition version_message_of :: "version_message \<Rightarrow> message" where
  "version_message_of v = \<lparr>command = rust_str ''version'', payload = VersionPayload v\<rparr>"

definition inv_message :: "inventory_vector list \<Rightarrow> message" where
  "inv_message invs = \<lparr>command = rust_str ''inv'', payload = InvPayload invs\<rparr>"

definition getdata_message :: "inventory_vector list \<Rightarrow> message" where
  "getdata_message invs = \<lparr>command = rust_str ''getdata'', payload = GetDataPayload invs\<rparr>"

definition block_message :: "block \<Rightarrow> message" where
  "block_message b = \<lparr>command = rust_str ''block'', payload = BlockPayload b\<rparr>"

definition tx_message :: "transaction \<Rightarrow> message" where
  "tx_message tx = \<lparr>command = rust_str ''tx'', payload = TxPayload tx\<rparr>"

end
