(* ===== verification/Codec.thy ===== *)
theory Codec
  imports NetTypes
begin

text \<open>
  \<open>crates/bitrst-net/src/codec\<close>: the payload encodings of every message, their limits, and the dispatch on the
  command name.
\<close>

section \<open>Strings\<close>

text \<open>\<open>std::str::from_utf8\<close>: the well-formed byte sequences of the Unicode standard.\<close>

definition utf8_cont :: "u8 \<Rightarrow> bool" where
  "utf8_cont b \<longleftrightarrow> 0x80 \<le> b \<and> b \<le> 0xbf"

fun utf8_valid :: "bytes \<Rightarrow> bool" where
  "utf8_valid [] = True"
| "utf8_valid (b # bs) =
     (if b < 0x80 then utf8_valid bs
      else if 0xc2 \<le> b \<and> b \<le> 0xdf then (case bs of c # r \<Rightarrow> utf8_cont c \<and> utf8_valid r | _ \<Rightarrow> False)
      else if 0xe0 \<le> b \<and> b \<le> 0xef then
        (case bs of
           c # d # r \<Rightarrow>
             utf8_cont c \<and> utf8_cont d \<and> (b = 0xe0 \<longrightarrow> 0xa0 \<le> c) \<and> (b = 0xed \<longrightarrow> c \<le> 0x9f) \<and> utf8_valid r
         | _ \<Rightarrow> False)
      else if 0xf0 \<le> b \<and> b \<le> 0xf4 then
        (case bs of
           c # d # e # r \<Rightarrow>
             utf8_cont c \<and> utf8_cont d \<and> utf8_cont e \<and> (b = 0xf0 \<longrightarrow> 0x90 \<le> c) \<and> (b = 0xf4 \<longrightarrow> c \<le> 0x8f) \<and>
             utf8_valid r
         | _ \<Rightarrow> False)
      else False)"

definition read_limited_string :: "string \<Rightarrow> nat \<Rightarrow> wire_reader \<Rightarrow> decode_error + bytes \<times> wire_reader" where
  "read_limited_string ctx max_len r =
     and_then (read_limited_len ctx max_len r) (\<lambda>(len, r).
     and_then (read_bytes len ctx r) (\<lambda>(bs, r).
       if utf8_valid bs then Inr (bs, r) else Inl (Truncated ctx 0 0)))"

definition net_write_compact_size :: "u64 \<Rightarrow> bytes" where
  "net_write_compact_size v =
     (if v \<le> 0xfc then [ucast v]
      else if v \<le> 0xffff then [0xfd] @ u16_to_le_bytes (ucast v)
      else if v \<le> 0xffffffff then [0xfe] @ u32_to_le_bytes (ucast v)
      else [0xff] @ u64_to_le_bytes v)"

lemma net_write_compact_size_eq [simp]: "net_write_compact_size = write_compact_size"
  by (simp add: fun_eq_iff net_write_compact_size_def write_compact_size_def)

section \<open>Inventories\<close>

definition read_inv_entry :: "wire_reader \<Rightarrow> net_error + inventory_vector \<times> wire_reader" where
  "read_inv_entry r =
     and_then (map_err Decode (read_u32 ''inv entry type'' r)) (\<lambda>(t, r).
     and_then (ok_or (UnknownInventoryType t) (inv_type_from_u32 t)) (\<lambda>ty.
     and_then (map_err Decode (read_bytes 32 ''inv entry hash'' r)) (\<lambda>(h, r).
       Inr (\<lparr>inv_type = ty, inv_hash = h\<rparr>, r))))"

definition decode_inventory_list :: "bytes \<Rightarrow> string \<Rightarrow> net_error + inventory_vector list" where
  "decode_inventory_list bs ctx =
     and_then (map_err Decode (read_limited_len ctx MAX_INV_COUNT (new_reader bs))) (\<lambda>(count, r).
     and_then (read_many read_inv_entry count r) (\<lambda>(invs, r).
     and_then (map_err Decode (finish ctx r)) (\<lambda>_. Inr invs)))"

definition write_inv_entry :: "inventory_vector \<Rightarrow> bytes" where
  "write_inv_entry i = u32_to_le_bytes (inv_type_to_u32 (inv_type i)) @ inv_hash i"

definition encode_inventory_list :: "inventory_vector list \<Rightarrow> net_error + bytes" where
  "encode_inventory_list invs =
     (if length invs > MAX_INV_COUNT then Inl (PayloadTooLarge (of_nat (length invs)) MAX_INV_COUNT)
      else Inr (net_write_compact_size (of_nat (length invs)) @ concat (map write_inv_entry invs)))"

definition decode_inv :: "bytes \<Rightarrow> net_error + inventory_vector list" where
  "decode_inv bs = decode_inventory_list bs ''inv count''"

definition encode_inv :: "inventory_vector list \<Rightarrow> net_error + bytes" where
  "encode_inv invs = encode_inventory_list invs"

definition decode_getdata :: "bytes \<Rightarrow> net_error + inventory_vector list" where
  "decode_getdata bs = decode_inventory_list bs ''getdata count''"

definition encode_getdata :: "inventory_vector list \<Rightarrow> net_error + bytes" where
  "encode_getdata invs = encode_inventory_list invs"

section \<open>Version messages\<close>

definition LEGACY_ADDRESS_SIZE :: nat where
  "LEGACY_ADDRESS_SIZE = 26"

definition decode_version :: "bytes \<Rightarrow> net_error + version_message" where
  "decode_version bs =
     (let r = new_reader bs in
     and_then (map_err Decode (read_i32 ''version'' r)) (\<lambda>(ver, r).
     and_then (map_err Decode (read_u64 ''services'' r)) (\<lambda>(srv, r).
     and_then (map_err Decode (read_bytes 8 ''timestamp'' r)) (\<lambda>(tsb, r).
     and_then (map_err Decode (read_bytes LEGACY_ADDRESS_SIZE ''addr_recv'' r)) (\<lambda>(_, r).
     and_then (map_err Decode (read_bytes LEGACY_ADDRESS_SIZE ''addr_from'' r)) (\<lambda>(_, r).
     and_then (map_err Decode (read_u64 ''nonce'' r)) (\<lambda>(nnc, r).
     and_then (map_err Decode (read_limited_string ''user agent'' MAX_USER_AGENT_LEN r)) (\<lambda>(ua, r).
     and_then (map_err Decode (read_i32 ''start height'' r)) (\<lambda>(sh, r).
     and_then
       (if remaining r = 0 then Inr (True, r)
        else if remaining r = 1 then
          and_then (map_err Decode (read_bytes 1 ''relay'' r)) (\<lambda>(b, r). Inr (b ! 0 \<noteq> 0, r))
        else Inl (Decode (TrailingBytes ''version'' (remaining r)))) (\<lambda>(rl, r).
     and_then (map_err Decode (finish ''version'' r)) (\<lambda>_.
       Inr \<lparr>vm_version = ver, services = srv, timestamp = u64_from_le_bytes tsb, vm_nonce = nnc,
            user_agent = ua, start_height = sh, relay = rl\<rparr>)))))))))))"

definition encode_version :: "version_message \<Rightarrow> net_error + bytes" where
  "encode_version m =
     (if length (user_agent m) > MAX_USER_AGENT_LEN
      then Inl (PayloadTooLarge (of_nat (length (user_agent m))) MAX_USER_AGENT_LEN)
      else Inr
        (u32_to_le_bytes (vm_version m) @ u64_to_le_bytes (services m) @ u64_to_le_bytes (timestamp m) @
         replicate LEGACY_ADDRESS_SIZE 0 @ replicate LEGACY_ADDRESS_SIZE 0 @ u64_to_le_bytes (vm_nonce m) @
         net_write_compact_size (of_nat (length (user_agent m))) @ user_agent m @
         u32_to_le_bytes (start_height m) @
         (if sint (vm_version m) \<ge> 60002 then [if relay m then 1 else 0] else [])))"

definition default_version_message :: "u64 \<Rightarrow> i64 \<Rightarrow> i32 \<Rightarrow> version_message" where
  "default_version_message n ts hgt =
     \<lparr>vm_version = PROTOCOL_VERSION, services = 0, timestamp = ts, vm_nonce = n,
      user_agent = rust_str ''/bitrst:0.1.0/'', start_height = hgt, relay = False\<rparr>"

section \<open>Dispatch\<close>

definition encode_payload :: "message \<Rightarrow> net_error + bytes \<times> bytes" where
  "encode_payload m =
     (case payload m of
        VerackPayload \<Rightarrow> Inr (command m, [])
      | VersionPayload v \<Rightarrow> and_then (encode_version v) (\<lambda>bs. Inr (command m, bs))
      | InvPayload invs \<Rightarrow> and_then (encode_inv invs) (\<lambda>bs. Inr (command m, bs))
      | GetDataPayload invs \<Rightarrow> and_then (encode_getdata invs) (\<lambda>bs. Inr (command m, bs))
      | BlockPayload b \<Rightarrow> Inr (command m, serialize_block b)
      | TxPayload tx \<Rightarrow> Inr (command m, serialize_tx tx))"

definition decode_payload :: "bytes \<Rightarrow> bytes \<Rightarrow> net_error + message" where
  "decode_payload cmd bs =
     and_then
       (if cmd = rust_str ''verack'' \<and> bs = [] then Inr VerackPayload
        else if cmd = rust_str ''version'' then and_then (decode_version bs) (\<lambda>v. Inr (VersionPayload v))
        else if cmd = rust_str ''inv'' then and_then (decode_inv bs) (\<lambda>invs. Inr (InvPayload invs))
        else if cmd = rust_str ''getdata'' then and_then (decode_getdata bs) (\<lambda>invs. Inr (GetDataPayload invs))
        else if cmd = rust_str ''block'' then and_then (map_err Decode (deserialize_block bs)) (\<lambda>b. Inr (BlockPayload b))
        else if cmd = rust_str ''tx'' then and_then (map_err Decode (deserialize_tx bs)) (\<lambda>tx. Inr (TxPayload tx))
        else Inl (UnsupportedCommand cmd))
       (\<lambda>p. Inr \<lparr>command = cmd, payload = p\<rparr>)"

section \<open>Round trips\<close>

interpretation inv_codec: codec read_inv_entry write_inv_entry "\<lambda>i. length (inv_hash i) = 32"
proof unfold_locales
  fix r x r'
  show "read_inv_entry r = Inr (x, r') \<longleftrightarrow>
      length (inv_hash x) = 32 \<and> starts r (write_inv_entry x) \<and> r' = advance (length (write_inv_entry x)) r"
    by (cases x) (auto simp: read_inv_entry_def and_then_Inr_iff prim_read_iffs write_inv_entry_def inv_type_iff starts_append)
qed

lemma decode_inventory_list_Inr_iff:
  "decode_inventory_list bs ctx = Inr invs \<longleftrightarrow>
     encode_inventory_list invs = Inr bs \<and> list_all (\<lambda>i. length (inv_hash i) = 32) invs"
proof -
  let ?w = "write_compact_size (of_nat (length invs)) @ concat (map write_inv_entry invs)"
  have "decode_inventory_list bs ctx = Inr invs \<longleftrightarrow>
      length invs \<le> MAX_INV_COUNT \<and> list_all (\<lambda>i. length (inv_hash i) = 32) invs \<and> bs = ?w"
    unfolding whole_input [of bs ?w]
    by (auto simp: decode_inventory_list_def and_then_Inr_iff limited_len_codec.read_iff inv_codec.read_many_iff
        starts_append MAX_INV_COUNT_def)
  then show ?thesis by (auto simp: encode_inventory_list_def not_less)
qed

interpretation string_codec: codec "read_limited_string ctx limit"
  "\<lambda>s. write_compact_size (of_nat (length s)) @ s" "\<lambda>s. utf8_valid s \<and> length s \<le> limit \<and> length s < 2 ^ 64"
proof unfold_locales
  fix r x r'
  show "read_limited_string ctx limit r = Inr (x, r') \<longleftrightarrow>
      (utf8_valid x \<and> length x \<le> limit \<and> length x < 2 ^ 64) \<and> starts r (write_compact_size (of_nat (length x)) @ x) \<and>
      r' = advance (length (write_compact_size (of_nat (length x)) @ x)) r"
    by (auto simp: read_limited_string_def and_then_Inr_iff prim_read_iffs starts_append)
qed

text \<open>The fixed part of a version message, up to its optional last byte.\<close>

definition version_fields :: "version_message \<Rightarrow> bytes \<Rightarrow> bytes \<Rightarrow> bytes" where
  "version_fields m recv sender =
     u32_to_le_bytes (vm_version m) @ u64_to_le_bytes (services m) @ u64_to_le_bytes (timestamp m) @ recv @ sender @
     u64_to_le_bytes (vm_nonce m) @ (write_compact_size (of_nat (length (user_agent m))) @ user_agent m) @
     u32_to_le_bytes (start_height m)"

definition relay_tail :: "bytes \<Rightarrow> bool \<Rightarrow> bool" where
  "relay_tail tail r \<longleftrightarrow> tail = [] \<and> r \<or> (\<exists>b. tail = [b] \<and> r = (b \<noteq> 0))"

definition relay_result :: "(bool \<Rightarrow> 'a) \<Rightarrow> wire_reader \<Rightarrow> net_error + 'a" where
  "relay_result f r =
     (case rest r of [] \<Rightarrow> Inr (f True) | [b] \<Rightarrow> Inr (f (b \<noteq> 0)) | _ \<Rightarrow> Inl (Decode (TrailingBytes ''version'' (remaining r))))"

lemma read_relay:
  "and_then
       (if remaining r = 0 then Inr (True, r)
        else if remaining r = 1 then
          and_then (map_err Decode (read_bytes 1 ''relay'' r)) (\<lambda>(b, r). Inr (b ! 0 \<noteq> 0, r))
        else Inl (Decode (TrailingBytes ''version'' (remaining r)))) (\<lambda>(rl, r).
     and_then (map_err Decode (finish ''version'' r)) (\<lambda>_. Inr (f rl))) = relay_result f r"
proof -
  consider "rest r = []" | b where "rest r = [b]" | b c bs where "rest r = b # c # bs" by (metis list.exhaust)
  then show ?thesis
  proof cases
    case 1
    then show ?thesis by (simp add: relay_result_def remaining_rest finish_def)
  next
    case (2 b)
    have "read_bytes 1 ''relay'' r = Inr ([b], advance 1 r)" using 2 by (simp add: read_bytes_Inr_iff starts_def)
    then show ?thesis using 2 by (simp add: relay_result_def remaining_rest finish_def)
  next
    case (3 b c bs)
    then show ?thesis by (simp add: relay_result_def remaining_rest)
  qed
qed

lemma relay_result_Inr_iff: "relay_result f r = Inr m \<longleftrightarrow> (\<exists>rl. relay_tail (rest r) rl \<and> f rl = m)"
  by (auto simp: relay_result_def relay_tail_def split: list.splits)

lemma decode_version_steps:
  "decode_version bs = Inr m \<longleftrightarrow>
     utf8_valid (user_agent m) \<and> length (user_agent m) \<le> 256 \<and>
     (\<exists>tsb recv sender. length tsb = 8 \<and> u64_from_le_bytes tsb = timestamp m \<and> length recv = 26 \<and> length sender = 26 \<and>
        starts (new_reader bs) (u32_to_le_bytes (vm_version m) @ u64_to_le_bytes (services m) @ tsb @ recv @ sender @
           u64_to_le_bytes (vm_nonce m) @ (write_compact_size (of_nat (length (user_agent m))) @ user_agent m) @
           u32_to_le_bytes (start_height m)) \<and>
        relay_tail (rest (advance (length (version_fields m recv sender)) (new_reader bs))) (relay m))" (is "?l \<longleftrightarrow> ?r")
proof
  note iffs = and_then_Inr_iff prim_read_iffs string_codec.read_iff relay_result_Inr_iff starts_append LEGACY_ADDRESS_SIZE_def
    MAX_USER_AGENT_LEN_def version_fields_def
  show "?l \<Longrightarrow> ?r"
    unfolding decode_version_def Let_def read_relay
    by (fastforce simp: iffs ac_simps)
  assume ?r
  then obtain tsb recv sender where ua: "utf8_valid (user_agent m)" "length (user_agent m) \<le> 256"
    and len: "length tsb = 8" "u64_from_le_bytes tsb = timestamp m" "length recv = 26" "length sender = 26"
    and st: "starts (new_reader bs) (u32_to_le_bytes (vm_version m) @ u64_to_le_bytes (services m) @ tsb @ recv @ sender @
           u64_to_le_bytes (vm_nonce m) @ (write_compact_size (of_nat (length (user_agent m))) @ user_agent m) @
           u32_to_le_bytes (start_height m))"
    and tail: "relay_tail (rest (advance (length (version_fields m recv sender)) (new_reader bs))) (relay m)" by blast
  let ?r = "new_reader bs" and ?n = "length (write_compact_size (of_nat (length (user_agent m))) @ user_agent m)"
  have "read_i32 ''version'' ?r = Inr (vm_version m, advance 4 ?r)"
    "read_u64 ''services'' (advance 4 ?r) = Inr (services m, advance 12 ?r)"
    "read_bytes 8 ''timestamp'' (advance 12 ?r) = Inr (tsb, advance 20 ?r)"
    "read_bytes LEGACY_ADDRESS_SIZE ''addr_recv'' (advance 20 ?r) = Inr (recv, advance 46 ?r)"
    "read_bytes LEGACY_ADDRESS_SIZE ''addr_from'' (advance 46 ?r) = Inr (sender, advance 72 ?r)"
    "read_u64 ''nonce'' (advance 72 ?r) = Inr (vm_nonce m, advance 80 ?r)"
    "read_limited_string ''user agent'' MAX_USER_AGENT_LEN (advance 80 ?r) = Inr (user_agent m, advance (80 + ?n) ?r)"
    "read_i32 ''start height'' (advance (80 + ?n) ?r) = Inr (start_height m, advance (84 + ?n) ?r)"
    using st len ua by (simp_all add: prim_read_iffs string_codec.read_iff starts_append LEGACY_ADDRESS_SIZE_def MAX_USER_AGENT_LEN_def ac_simps)
  moreover have "length (version_fields m recv sender) = 84 + ?n" using len by (simp add: version_fields_def)
  ultimately show ?l
    using tail len(2) unfolding decode_version_def Let_def read_relay
    by (simp add: relay_result_Inr_iff) (cases m, auto)
qed

text \<open>A byte string is a version message exactly when it has the fields at their places, whatever the addresses.\<close>

lemma decode_version_Inr_iff:
  "decode_version bs = Inr m \<longleftrightarrow>
     utf8_valid (user_agent m) \<and> length (user_agent m) \<le> 256 \<and>
     (\<exists>recv sender tail. length recv = 26 \<and> length sender = 26 \<and> bs = version_fields m recv sender @ tail \<and> relay_tail tail (relay m))"
proof -
  have ts: "length b = 8 \<and> u64_from_le_bytes b = t \<longleftrightarrow> b = u64_to_le_bytes t" for b t
    by (metis from_le_to_le length_to_le_bytes to_le_from_le)
  have "decode_version bs = Inr m \<longleftrightarrow> utf8_valid (user_agent m) \<and> length (user_agent m) \<le> 256 \<and>
     (\<exists>recv sender. length recv = 26 \<and> length sender = 26 \<and> starts (new_reader bs) (version_fields m recv sender) \<and>
        relay_tail (rest (advance (length (version_fields m recv sender)) (new_reader bs))) (relay m))"
    unfolding decode_version_steps conj_assoc [symmetric] ts by (auto simp: version_fields_def conj_assoc)
  then show ?thesis unfolding starts_iff by fastforce
qed

lemma decode_encode_version:
  assumes "encode_version m = Inr bs" "utf8_valid (user_agent m)" "sint (vm_version m) \<ge> 60002 \<or> relay m"
  shows "decode_version bs = Inr m"
proof -
  have "length (user_agent m) \<le> 256 \<and> bs = version_fields m (replicate 26 0) (replicate 26 0) @
      (if sint (vm_version m) \<ge> 60002 then [if relay m then 1 else 0] else [])"
    using assms(1) by (auto simp: encode_version_def version_fields_def MAX_USER_AGENT_LEN_def LEGACY_ADDRESS_SIZE_def split: if_splits)
  moreover have "relay_tail (if sint (vm_version m) \<ge> 60002 then [if relay m then 1 else 0] else []) (relay m)"
    using assms(3) by (auto simp: relay_tail_def)
  ultimately show ?thesis using assms(2) unfolding decode_version_Inr_iff by (metis length_replicate)
qed

section \<open>Messages\<close>

text \<open>
  The messages the constructors of \<open>message.rs\<close> build, with a payload the decoders accept: hashes of 32
  bytes, valid UTF-8, scripts and counts within the wire limits.
\<close>

definition wire_message :: "message \<Rightarrow> bool" where
  "wire_message m \<longleftrightarrow>
     (case payload m of
        VerackPayload \<Rightarrow> m = verack_message
      | VersionPayload v \<Rightarrow> m = version_message_of v \<and> utf8_valid (user_agent v) \<and> (sint (vm_version v) \<ge> 60002 \<or> relay v)
      | InvPayload invs \<Rightarrow> m = inv_message invs \<and> list_all (\<lambda>i. length (inv_hash i) = 32) invs
      | GetDataPayload invs \<Rightarrow> m = getdata_message invs \<and> list_all (\<lambda>i. length (inv_hash i) = 32) invs
      | BlockPayload b \<Rightarrow> m = block_message b \<and> valid_block_encoding b
      | TxPayload tx \<Rightarrow> m = tx_message tx \<and> valid_tx tx \<and> tx_serialized_size tx \<le> MAX_TRANSACTION_SERIALIZED_SIZE)"

lemmas command_defs = verack_message_def version_message_of_def inv_message_def getdata_message_def block_message_def tx_message_def

lemma decode_encode_payload:
  assumes "wire_message m" "encode_payload m = Inr (cmd, bs)"
  shows "cmd = command m \<and> decode_payload cmd bs = Inr m"
proof (cases "payload m")
  case VerackPayload
  then show ?thesis using assms by (auto simp: wire_message_def encode_payload_def decode_payload_def command_defs)
next
  case (VersionPayload v)
  then have "encode_version v = Inr bs" "cmd = command m" using assms(2) by (auto simp: encode_payload_def and_then_Inr_iff)
  moreover have "m = version_message_of v" "decode_version bs = Inr v"
    using assms(1) VersionPayload decode_encode_version [OF calculation(1)] by (simp_all add: wire_message_def)
  ultimately show ?thesis by (simp add: decode_payload_def version_message_of_def rust_str_def)
next
  case (InvPayload invs)
  then have "encode_inventory_list invs = Inr bs" "cmd = command m" "m = inv_message invs"
    "list_all (\<lambda>i. length (inv_hash i) = 32) invs"
    using assms by (auto simp: encode_payload_def and_then_Inr_iff encode_inv_def wire_message_def)
  then show ?thesis
    by (simp add: decode_payload_def decode_inv_def inv_message_def rust_str_def decode_inventory_list_Inr_iff and_then_Inr_iff)
next
  case (GetDataPayload invs)
  then have "encode_inventory_list invs = Inr bs" "cmd = command m" "m = getdata_message invs"
    "list_all (\<lambda>i. length (inv_hash i) = 32) invs"
    using assms by (auto simp: encode_payload_def and_then_Inr_iff encode_getdata_def wire_message_def)
  then show ?thesis
    by (simp add: decode_payload_def decode_getdata_def getdata_message_def rust_str_def decode_inventory_list_Inr_iff and_then_Inr_iff)
next
  case (BlockPayload b)
  then have "bs = serialize_block b" "cmd = command m" "m = block_message b" "valid_block_encoding b"
    using assms by (auto simp: encode_payload_def wire_message_def)
  then show ?thesis
    by (simp add: decode_payload_def block_message_def rust_str_def and_then_Inr_iff deserialize_block_Inr_iff)
next
  case (TxPayload tx)
  then have "bs = serialize_tx tx" "cmd = command m" "m = tx_message tx" "valid_tx tx"
      "tx_serialized_size tx \<le> MAX_TRANSACTION_SERIALIZED_SIZE"
    using assms by (auto simp: encode_payload_def wire_message_def)
  then show ?thesis
    using length_serialize_tx [OF valid_shaped_tx, of tx]
    by (simp add: decode_payload_def tx_message_def rust_str_def and_then_Inr_iff deserialize_tx_Inr_iff)
qed

end
