(* ===== verification/FileStore.thy ===== *)
theory FileStore
  imports Store Codec
begin

text \<open>
  \<open>crates/bitrst-core/src/store/disk.rs\<close>: the file store, over a file system that can crash.  A file name is a
  byte string; the running system sees names, each an inode, and the contents of inodes.  What is on the disk lags
  behind: until the directory is synced a name may still stand for any inode (or none) it has stood for since the last
  sync, and until a file is synced its content on the disk may be anything.  The operating system is an
  oracle that may refuse any operation; a refused write may have written a prefix.  The state a refused operation leaves is
  also the one an interruption at that point leaves; \<open>crashes_to\<close> then says what may be found after a crash.
  The entry of the store's own directory in its parent, which the code does not sync, is taken to be durable.
\<close>

section \<open>The file system\<close>

type_synonym file_name = bytes

record file_system =
  names :: "(file_name \<times> nat) list"
  files :: "nat \<Rightarrow> bytes"
  lingering :: "file_name \<Rightarrow> nat option set"
  synced :: "nat set"
  next_inode :: nat

datatype fs_op =
    CreateDirAll
  | ReadDir
  | ReadEntry file_name
  | OpenTruncate file_name
  | WriteAll file_name bytes
  | SyncFile file_name
  | Rename file_name file_name
  | RemoveFile file_name
  | OpenDir
  | SyncDir

definition inode_of :: "file_system \<Rightarrow> file_name \<Rightarrow> nat option" where
  "inode_of fs n = map_of (names fs) n"

definition file_content :: "file_system \<Rightarrow> file_name \<Rightarrow> bytes option" where
  "file_content fs n = map_option (files fs) (inode_of fs n)"

definition set_content :: "nat \<Rightarrow> bytes \<Rightarrow> file_system \<Rightarrow> file_system" where
  "set_content i bs fs = fs\<lparr>files := (files fs)(i := bs), synced := synced fs - {i}\<rparr>"

definition link_name :: "file_name \<Rightarrow> nat \<Rightarrow> file_system \<Rightarrow> file_system" where
  "link_name n i fs = fs\<lparr>names := AList.update n i (names fs),
     lingering := (lingering fs)(n := insert (Some i) (lingering fs n))\<rparr>"

definition unlink_name :: "file_name \<Rightarrow> file_system \<Rightarrow> file_system" where
  "unlink_name n fs = fs\<lparr>names := AList.delete n (names fs), lingering := (lingering fs)(n := insert None (lingering fs n))\<rparr>"

definition append_file :: "file_name \<Rightarrow> bytes \<Rightarrow> file_system \<Rightarrow> file_system" where
  "append_file n bs fs = (case inode_of fs n of None \<Rightarrow> fs | Some i \<Rightarrow> set_content i (files fs i @ bs) fs)"

definition fs_effect :: "fs_op \<Rightarrow> file_system \<Rightarrow> file_system" where
  "fs_effect op fs = (case op of
      OpenTruncate n \<Rightarrow>
        (case inode_of fs n of
           Some i \<Rightarrow> set_content i [] fs
         | None \<Rightarrow> link_name n (next_inode fs) (set_content (next_inode fs) [] (fs\<lparr>next_inode := next_inode fs + 1\<rparr>)))
    | WriteAll n bs \<Rightarrow> append_file n bs fs
    | SyncFile n \<Rightarrow> (case inode_of fs n of None \<Rightarrow> fs | Some i \<Rightarrow> fs\<lparr>synced := insert i (synced fs)\<rparr>)
    | Rename src dst \<Rightarrow> (case inode_of fs src of None \<Rightarrow> fs | Some i \<Rightarrow> unlink_name src (link_name dst i fs))
    | RemoveFile n \<Rightarrow> unlink_name n fs
    | SyncDir \<Rightarrow> fs\<lparr>lingering := (\<lambda>n. {inode_of fs n})\<rparr>
    | _ \<Rightarrow> fs)"

text \<open>The oracle: \<open>None\<close> lets the operation pass; \<open>Some (msg, n)\<close> refuses it, after \<open>n\<close> bytes of a write.\<close>

type_synonym os = "fs_op \<Rightarrow> (string \<times> nat) option"

definition fs_refused :: "fs_op \<Rightarrow> nat \<Rightarrow> file_system \<Rightarrow> file_system" where
  "fs_refused op n fs = (case op of WriteAll f bs \<Rightarrow> append_file f (take n bs) fs | _ \<Rightarrow> fs)"

text \<open>Operations one after the other, each with the context of its error, up to the first that is refused.\<close>

fun run_ops :: "os \<Rightarrow> (string \<times> fs_op) list \<Rightarrow> file_system \<Rightarrow> (store_error + unit) \<times> file_system" where
  "run_ops os [] fs = (Inr (), fs)"
| "run_ops os ((ctx, op) # ops) fs =
     (case os op of
        Some (msg, n) \<Rightarrow> (Inl (store_error.Io ctx msg), fs_refused op n fs)
      | None \<Rightarrow> run_ops os ops (fs_effect op fs))"



section \<open>The store\<close>

definition block_path :: "env \<Rightarrow> hash32 \<Rightarrow> file_name" where
  "block_path E h = rust_str (hex_encode E h)"

definition temp_path :: "env \<Rightarrow> hash32 \<Rightarrow> file_name" where
  "temp_path E h = rust_str (hex_encode E h) @ rust_str ''.tmp''"






definition sync_dir :: "(string \<times> fs_op) list" where
  "sync_dir = [(''open store directory for sync'', OpenDir), (''sync store directory'', SyncDir)]"

definition put_ops :: "env \<Rightarrow> block \<Rightarrow> (string \<times> fs_op) list" where
  "put_ops E b =
     (let h = hash_block E b; path = block_path E h; temp = temp_path E h; bs = serialize_block b
      in [(''open temp block file'', OpenTruncate temp), (''write temp block file'', WriteAll temp bs),
          (''sync temp block file'', SyncFile temp), (''rename temp block file'', Rename temp path)] @ sync_dir)"

definition file_put_block :: "env \<Rightarrow> os \<Rightarrow> block \<Rightarrow> file_system \<Rightarrow> (store_error + unit) \<times> file_system" where
  "file_put_block E os b fs = run_ops os (put_ops E b) fs"


text \<open>The decimal digits of a number, as \<open>{value}\<close> prints them.\<close>

fun decimal :: "nat \<Rightarrow> string" where
  "decimal n = (if n < 10 then [char_of (48 + n)] else decimal (n div 10) @ [char_of (48 + n mod 10)])"

declare decimal.simps [simp del]

definition display_decode_error :: "decode_error \<Rightarrow> string" where
  "display_decode_error e = (case e of
      Truncated ctx needed rem \<Rightarrow>
        ''truncated '' @ ctx @ '': needed '' @ decimal needed @ '' bytes, only '' @ decimal rem @ '' remain''
    | NonCanonicalCompactSize ctx v \<Rightarrow> ''non-canonical CompactSize for '' @ ctx @ '': '' @ decimal (unat v)
    | LimitExceeded ctx actual limit \<Rightarrow>
        ctx @ '' length '' @ decimal (unat actual) @ '' exceeds limit '' @ decimal limit
    | TrailingBytes ctx rem \<Rightarrow> ''trailing bytes after '' @ ctx @ '': '' @ decimal rem)"

definition file_get_block ::
  "env \<Rightarrow> (file_name \<Rightarrow> string option) \<Rightarrow> hash32 \<Rightarrow> file_system \<Rightarrow> store_error + block option" where
  "file_get_block E read_error h fs =
     (case file_content fs (block_path E h) of
        None \<Rightarrow> Inr None
      | Some bs \<Rightarrow>
          (case read_error (block_path E h) of
             Some msg \<Rightarrow> Inl (store_error.Io ''read block file'' msg)
           | None \<Rightarrow>
               and_then
                 (map_err (\<lambda>e. case e of
                     Truncated _ _ _ \<Rightarrow> Corrupt ''truncated block file''
                   | TrailingBytes _ _ \<Rightarrow> Corrupt ''truncated block file''
                   | LimitExceeded _ _ _ \<Rightarrow> Corrupt ''oversized block file''
                   | _ \<Rightarrow> Corrupt (''malformed block file: '' @ display_decode_error e))
                   (deserialize_block bs))
                 (\<lambda>b. let actual = hash_block E b
                      in if actual \<noteq> h then Inl (HashMismatch h actual) else Inr (Some b))))"

section \<open>Names\<close>

lemma rust_str_inj: "rust_str s = rust_str t \<longleftrightarrow> s = t"
proof -
  have "inj (\<lambda>c. of_char c :: u8)"
  proof (rule injI)
    fix c d assume eq: "(of_char c :: u8) = of_char d"
    have "unat (of_char c :: u8) = (of_char c :: nat)" for c
    proof -
      have "(of_char c :: nat) < 256" by (cases c) simp
      moreover have eq: "(of_char c :: u8) = of_nat (of_char c)" by (rule of_nat_of_char [symmetric])
      ultimately show ?thesis unfolding eq unat_of_nat by simp
    qed
    then have "(of_char c :: nat) = of_char d" using eq by metis
    then show "c = d" by simp
  qed
  then show ?thesis unfolding rust_str_def by (rule inj_map_eq_map)
qed

lemma length_rust_str [simp]: "length (rust_str s) = length s"
  by (simp add: rust_str_def)

lemma block_path_inj: "hex_ok E \<Longrightarrow> block_path E g = block_path E h \<longleftrightarrow> g = h"
  by (auto simp: block_path_def rust_str_inj hex_ok_def)

lemma temp_neq_block: "hex_ok E \<Longrightarrow> length h = 32 \<Longrightarrow> length g = 32 \<Longrightarrow> temp_path E h \<noteq> block_path E g"
proof
  assume "hex_ok E" "length h = 32" "length g = 32" "temp_path E h = block_path E g"
  then have "length (temp_path E h) = length (block_path E g)" by simp
  then show False using \<open>hex_ok E\<close> \<open>length h = 32\<close> \<open>length g = 32\<close>
    by (simp add: temp_path_def block_path_def hex_ok_def)
qed






section \<open>What the operations keep\<close>

lemma inode_of_simps [simp]:
  "inode_of (set_content i bs fs) = inode_of fs" "inode_of (link_name n i fs) = (inode_of fs)(n \<mapsto> i)"
  "inode_of (unlink_name n fs) = (inode_of fs)(n := None)" "inode_of (fs\<lparr>synced := S\<rparr>) = inode_of fs"
  "inode_of (fs\<lparr>lingering := L\<rparr>) = inode_of fs" "inode_of (fs\<lparr>next_inode := k\<rparr>) = inode_of fs"
  "inode_of (fs\<lparr>files := F\<rparr>) = inode_of fs"
  by (auto simp: inode_of_def set_content_def link_name_def unlink_name_def update_conv' delete_conv')

text \<open>
  What a name stands for now it may stand for on the disk, where there are no other inodes than those given out; and
  the inode of a temporary name is on the disk under no other name.
\<close>

definition tracks :: "file_system \<Rightarrow> bool" where
  "tracks fs \<longleftrightarrow> (\<forall>n. inode_of fs n \<in> lingering fs n \<and> (\<forall>i. Some i \<in> lingering fs n \<longrightarrow> i < next_inode fs))"

definition private_temps :: "env \<Rightarrow> file_system \<Rightarrow> bool" where
  "private_temps E fs \<longleftrightarrow>
     (\<forall>h i n. length h = 32 \<longrightarrow> inode_of fs (temp_path E h) = Some i \<longrightarrow> Some i \<in> lingering fs n \<longrightarrow> n = temp_path E h)"

definition settled :: "env \<Rightarrow> file_system \<Rightarrow> bool" where
  "settled E fs \<longleftrightarrow> tracks fs \<and> private_temps E fs"

text \<open>
  Whatever a block's name stands for on the disk is synced and is the encoding of a block written under it; if the write was
  acknowledged it cannot stand for nothing.
\<close>

definition holds_block :: "env \<Rightarrow> block set \<Rightarrow> file_system \<Rightarrow> hash32 \<Rightarrow> nat \<Rightarrow> bool" where
  "holds_block E P fs h i \<longleftrightarrow> i \<in> synced fs \<and> (\<exists>c\<in>P. files fs i = serialize_block c \<and> hash_block E c = h)"

definition blocks_ok :: "env \<Rightarrow> block set \<Rightarrow> block set \<Rightarrow> file_system \<Rightarrow> bool" where
  "blocks_ok E P K fs \<longleftrightarrow>
     (\<forall>h. length h = 32 \<longrightarrow>
        (None \<in> lingering fs (block_path E h) \<longrightarrow> h \<notin> hash_block E ` K) \<and>
        (\<forall>i. Some i \<in> lingering fs (block_path E h) \<longrightarrow> holds_block E P fs h i))"

text \<open>One state and a later one, as far as the blocks are concerned.\<close>

definition keeps :: "env \<Rightarrow> file_system \<Rightarrow> file_system \<Rightarrow> bool" where
  "keeps E fs fs' \<longleftrightarrow> settled E fs' \<and> (\<forall>P K. blocks_ok E P K fs \<longrightarrow> blocks_ok E P K fs') \<and>
     (\<forall>h. length h = 32 \<longrightarrow> file_content fs' (block_path E h) = file_content fs (block_path E h))"

lemma keeps_refl: "settled E fs \<Longrightarrow> keeps E fs fs"
  by (simp add: keeps_def)

lemma keeps_trans: "keeps E fs fs' \<Longrightarrow> keeps E fs' fs'' \<Longrightarrow> keeps E fs fs''"
  by (simp add: keeps_def)

lemma blocks_ok_mono: "blocks_ok E P K fs \<Longrightarrow> P \<subseteq> P' \<Longrightarrow> blocks_ok E P' K fs"
  unfolding blocks_ok_def holds_block_def by blast

lemma keeps_set_content:
  assumes E: "hex_ok E" and s: "settled E fs" and h: "length h = 32" and i: "inode_of fs (temp_path E h) = Some i"
  shows "keeps E fs (set_content i bs fs)"
proof -
  have own: "Some i \<notin> lingering fs (block_path E g)" if "length g = 32" for g
    using s h i temp_neq_block [OF E h that] unfolding settled_def private_temps_def by metis
  have now: "inode_of fs (block_path E g) \<in> lingering fs (block_path E g)" for g
    using s by (simp add: settled_def tracks_def)
  have l: "lingering (set_content i bs fs) = lingering fs" "next_inode (set_content i bs fs) = next_inode fs"
    by (simp_all add: set_content_def)
  have "settled E (set_content i bs fs)"
    using s by (simp add: settled_def tracks_def private_temps_def l)
  moreover have "blocks_ok E P K (set_content i bs fs)" if "blocks_ok E P K fs" for P K
    using that own unfolding blocks_ok_def l by (auto simp: holds_block_def set_content_def)
  moreover have "file_content (set_content i bs fs) (block_path E g) = file_content fs (block_path E g)" if "length g = 32" for g
    using own [OF that] now [of g] by (cases "inode_of fs (block_path E g)") (auto simp: file_content_def set_content_def)
  ultimately show ?thesis by (simp add: keeps_def)
qed

lemma open_truncate_keeps:
  assumes E: "hex_ok E" and s: "settled E fs" and h: "length h = 32"
  shows "\<exists>i. keeps E fs (fs_effect (OpenTruncate (temp_path E h)) fs) \<and>
    inode_of (fs_effect (OpenTruncate (temp_path E h)) fs) (temp_path E h) = Some i \<and>
    files (fs_effect (OpenTruncate (temp_path E h)) fs) i = []"
proof (cases "inode_of fs (temp_path E h)")
  case (Some i)
  then show ?thesis using keeps_set_content [OF E s h Some, of "[]"]
    by (simp add: fs_effect_def) (simp add: set_content_def)
next
  case None
  let ?t = "temp_path E h" and ?i = "next_inode fs"
  define fs' where "fs' = fs_effect (OpenTruncate ?t) fs"
  have names': "inode_of fs' = (inode_of fs)(?t \<mapsto> ?i)" using None by (simp add: fs'_def fs_effect_def)
  have f: "lingering fs' = (lingering fs)(?t := insert (Some ?i) (lingering fs ?t))" "files fs' = (files fs)(?i := [])"
    "synced fs' = synced fs - {?i}" "next_inode fs' = Suc ?i"
    using None by (simp_all add: fs'_def fs_effect_def link_name_def set_content_def)
  have fresh: "Some ?i \<notin> lingering fs n" for n using s unfolding settled_def tracks_def by (meson less_irrefl)
  have now: "inode_of fs n \<in> lingering fs n" for n using s by (simp add: settled_def tracks_def)
  have path: "block_path E g \<noteq> ?t" if "length g = 32" for g using temp_neq_block [OF E h that] by simp
  have "tracks fs'"
    using s by (auto simp: settled_def tracks_def names' f intro: less_SucI)
  moreover have "private_temps E fs'"
    unfolding private_temps_def
  proof (intro allI impI)
    fix g i n assume g: "length g = 32" "inode_of fs' (temp_path E g) = Some i" "Some i \<in> lingering fs' n"
    show "n = temp_path E g"
    proof (cases "temp_path E g = ?t")
      case True
      then have "i = ?i" using g(2) by (simp add: names')
      then show ?thesis using g(3) fresh [of n] True by (auto simp: f(1) split: if_splits)
    next
      case False
      then have old: "inode_of fs (temp_path E g) = Some i" using g(2) by (simp add: names')
      then have "i \<noteq> ?i" using now [of "temp_path E g"] fresh [of "temp_path E g"] by auto
      then have "Some i \<in> lingering fs n" using g(3) by (auto simp: f(1) split: if_splits)
      then show ?thesis using s g(1) old unfolding settled_def private_temps_def by blast
    qed
  qed
  moreover have "blocks_ok E P K fs'" if "blocks_ok E P K fs" for P K
  proof -
    have "holds_block E P fs' g i" if "holds_block E P fs g i" "i \<noteq> ?i" for g i
      using that by (simp add: holds_block_def f)
    then show ?thesis using that path fresh unfolding blocks_ok_def f(1) by (metis fun_upd_other)
  qed
  moreover have "file_content fs' (block_path E g) = file_content fs (block_path E g)" if "length g = 32" for g
  proof -
    have "inode_of fs (block_path E g) \<noteq> Some ?i" using now [of "block_path E g"] fresh [of "block_path E g"] by auto
    then show ?thesis using path [OF that]
      by (cases "inode_of fs (block_path E g)") (auto simp: file_content_def names' f(2))
  qed
  ultimately show ?thesis by (simp add: keeps_def settled_def fs'_def [symmetric] names' f(2))
qed

lemma sync_file_keeps:
  assumes "settled E fs"
  shows "keeps E fs (fs\<lparr>synced := insert i (synced fs)\<rparr>)"
  using assms by (auto simp: keeps_def settled_def tracks_def private_temps_def blocks_ok_def holds_block_def file_content_def)

text \<open>The rename puts the synced file in place; the sync of the directory makes that final.\<close>

lemma rename_placed:
  assumes E: "hex_ok E" and h: "length (hash_block E b) = 32" and s: "settled E fs"
    and i: "inode_of fs (temp_path E (hash_block E b)) = Some i" "i \<in> synced fs" "files fs i = serialize_block b"
    and fs': "fs' = fs_effect (Rename (temp_path E (hash_block E b)) (block_path E (hash_block E b))) fs"
  shows "settled E fs'" "blocks_ok E P K fs \<Longrightarrow> b \<in> P \<Longrightarrow> blocks_ok E P K fs'"
    "inode_of fs' (block_path E (hash_block E b)) = Some i"
    "length g = 32 \<Longrightarrow> file_content fs' (block_path E g) =
       (if g = hash_block E b then Some (serialize_block b) else file_content fs (block_path E g))"
proof -
  let ?t = "temp_path E (hash_block E b)" and ?p = "block_path E (hash_block E b)"
  have tp: "?t \<noteq> block_path E g" if "length g = 32" for g using temp_neq_block [OF E h that] .
  have names': "inode_of fs' = (inode_of fs)(?p \<mapsto> i, ?t := None)" using i(1) by (simp add: fs' fs_effect_def)
  have f: "lingering fs' = (\<lambda>n. if n = ?t then insert None (lingering fs ?t) else if n = ?p then insert (Some i) (lingering fs ?p) else lingering fs n)"
    "files fs' = files fs" "synced fs' = synced fs" "next_inode fs' = next_inode fs"
    using i(1) tp [OF h] by (auto simp: fs' fs_effect_def link_name_def unlink_name_def fun_eq_iff)
  have now: "inode_of fs n \<in> lingering fs n" and small: "Some j \<in> lingering fs n \<Longrightarrow> j < next_inode fs" for n j
    using s by (auto simp: settled_def tracks_def)
  have it: "Some i \<in> lingering fs ?t" using now [of ?t] i(1) by simp
  have "tracks fs'" using now small small [OF it] by (auto simp: tracks_def names' f split: if_splits)
  moreover have "private_temps E fs'"
    unfolding private_temps_def
  proof (intro allI impI)
    fix g j n assume g: "length g = 32" "inode_of fs' (temp_path E g) = Some j" "Some j \<in> lingering fs' n"
    have t: "temp_path E g \<noteq> ?t" "temp_path E g \<noteq> ?p" using g(2) temp_neq_block [OF E g(1) h] by (auto simp: names')
    then have old: "inode_of fs (temp_path E g) = Some j" using g(2) by (simp add: names')
    then have all: "Some j \<in> lingering fs m \<Longrightarrow> m = temp_path E g" for m
      using s g(1) unfolding settled_def private_temps_def by blast
    then have "j \<noteq> i" using it t(1) by metis
    then have "Some j \<in> lingering fs n" using g(3) by (auto simp: f(1) split: if_splits)
    then show "n = temp_path E g" using all by blast
  qed
  ultimately show "settled E fs'" by (simp add: settled_def)
  have same: "holds_block E P fs' g j = holds_block E P fs g j" for P g j by (simp add: holds_block_def f)
  have placed: "lingering fs' (block_path E g) =
      (if g = hash_block E b then insert (Some i) (lingering fs (block_path E g)) else lingering fs (block_path E g))" if "length g = 32" for g
    using tp [OF that] block_path_inj [OF E, of g "hash_block E b"] by (auto simp: f(1))
  show "blocks_ok E P K fs'" if ok: "blocks_ok E P K fs" and b: "b \<in> P"
  proof -
    have "holds_block E P fs (hash_block E b) i" using i(2,3) b by (auto simp: holds_block_def)
    then show ?thesis using ok placed unfolding blocks_ok_def same by auto
  qed
  show "inode_of fs' ?p = Some i" using tp [OF h] by (simp add: names')
  show "file_content fs' (block_path E g) =
       (if g = hash_block E b then Some (serialize_block b) else file_content fs (block_path E g))" if "length g = 32"
    using tp [OF that] i(3) block_path_inj [OF E, of g "hash_block E b"] by (auto simp: file_content_def names' f(2))
qed

lemma sync_dir_keeps:
  assumes "settled E fs"
  shows "keeps E fs (fs_effect SyncDir fs)"
    and "blocks_ok E P K fs \<Longrightarrow> inode_of fs (block_path E (hash_block E b)) \<noteq> None \<Longrightarrow> hex_ok E \<Longrightarrow>
      blocks_ok E P (insert b K) (fs_effect SyncDir fs)"
proof -
  have f: "fs_effect SyncDir fs = fs\<lparr>lingering := (\<lambda>n. {inode_of fs n})\<rparr>" by (simp add: fs_effect_def)
  have now: "inode_of fs n \<in> lingering fs n" for n using assms by (simp add: settled_def tracks_def)
  have same: "holds_block E P (fs\<lparr>lingering := L\<rparr>) g j = holds_block E P fs g j" for P L g j by (simp add: holds_block_def)
  have "settled E (fs_effect SyncDir fs)"
    using assms now unfolding f settled_def tracks_def private_temps_def by (simp; metis)
  moreover have "blocks_ok E P K (fs_effect SyncDir fs)" if "blocks_ok E P K fs" for P K
    using that now unfolding f blocks_ok_def same by (simp; metis)
  ultimately show "keeps E fs (fs_effect SyncDir fs)" by (simp add: keeps_def f file_content_def)
  show "blocks_ok E P (insert b K) (fs_effect SyncDir fs)"
    if ok: "blocks_ok E P K fs" and p: "inode_of fs (block_path E (hash_block E b)) \<noteq> None" and E: "hex_ok E"
  proof -
    have "g \<noteq> hash_block E b" if "inode_of fs (block_path E g) = None" for g using that p by auto
    then show ?thesis using ok now unfolding f blocks_ok_def same by (simp; metis)
  qed
qed

section \<open>A write\<close>

text \<open>However a write ends: nothing a reader sees has changed and it has failed, or the block is in place.\<close>

lemma file_put_outcome:
  assumes E: "hex_ok E" "hash_ok E" and s: "settled E fs" and put: "file_put_block E os b fs = (r, fs')"
  shows "settled E fs'"
    and "blocks_ok E P K fs \<Longrightarrow> blocks_ok E (insert b P) (if r = Inr () then insert b K else K) fs'"
    and "(\<forall>g. length g = 32 \<longrightarrow> file_content fs' (block_path E g) = file_content fs (block_path E g)) \<and> r \<noteq> Inr () \<or>
      (\<forall>g. length g = 32 \<longrightarrow> file_content fs' (block_path E g) =
         (if g = hash_block E b then Some (serialize_block b) else file_content fs (block_path E g)))"
proof -
  let ?h = "hash_block E b" and ?bs = "serialize_block b"
  have h: "length ?h = 32" using length_hash_block [OF E(2)] .
  let ?t = "temp_path E ?h" and ?p = "block_path E ?h"
  define fs1 where "fs1 = fs_effect (OpenTruncate ?t) fs"
  define fs2 where "fs2 = fs_effect (WriteAll ?t ?bs) fs1"
  define fs3 where "fs3 = fs_effect (SyncFile ?t) fs2"
  define fs4 where "fs4 = fs_effect (Rename ?t ?p) fs3"
  define fs5 where "fs5 = fs_effect SyncDir fs4"
  obtain i where one: "keeps E fs fs1" "inode_of fs1 ?t = Some i" "files fs1 i = []"
    using open_truncate_keeps [OF E(1) s h] unfolding fs1_def by blast
  have s1: "settled E fs1" using one(1) by (simp add: keeps_def)
  have w: "append_file ?t bs fs1 = set_content i bs fs1" for bs using one(2,3) by (simp add: append_file_def)
  have two: "keeps E fs (append_file ?t bs fs1)" for bs
    unfolding w using keeps_trans [OF one(1) keeps_set_content [OF E(1) s1 h one(2)]] .
  have fs2: "fs2 = set_content i ?bs fs1" by (simp add: fs2_def fs_effect_def w)
  have keep2: "keeps E fs fs2" and s2: "settled E fs2" using two [of ?bs] by (simp_all add: fs2 w keeps_def)
  have fs3: "fs3 = fs2\<lparr>synced := insert i (synced fs2)\<rparr>" using one(2) by (simp add: fs3_def fs_effect_def fs2)
  have keep3: "keeps E fs fs3" unfolding fs3 using keeps_trans [OF keep2 sync_file_keeps [OF s2]] .
  have s3: "settled E fs3" using keep3 by (simp add: keeps_def)
  have i3: "inode_of fs3 ?t = Some i" "i \<in> synced fs3" "files fs3 i = ?bs"
    using one(2) by (simp_all add: fs3 fs2 set_content_def)
  note placed = rename_placed [OF E(1) h s3 i3 fs4_def]
  have content4: "\<forall>g. length g = 32 \<longrightarrow> file_content fs4 (block_path E g) =
      (if g = ?h then Some ?bs else file_content fs (block_path E g))"
    using placed(4) keep3 by (simp add: keeps_def)
  note final = sync_dir_keeps [OF placed(1), folded fs5_def]
  have content5: "\<forall>g. length g = 32 \<longrightarrow> file_content fs5 (block_path E g) =
      (if g = ?h then Some ?bs else file_content fs (block_path E g))"
    using content4 final(1) by (simp add: keeps_def)
  consider (failed) "keeps E fs fs'" "r \<noteq> Inr ()" | (unsynced) "fs' = fs4" "r \<noteq> Inr ()" | (complete) "fs' = fs5" "r = Inr ()"
  proof -
    have "(r \<noteq> Inr () \<and> (fs' = fs \<or> (\<exists>n. fs' = append_file ?t (take n ?bs) fs1) \<or> fs' = fs2 \<or> fs' = fs3 \<or> fs' = fs4)) \<or>
        (r = Inr () \<and> fs' = fs5)"
      using put
      by (auto simp: file_put_block_def put_ops_def sync_dir_def Let_def fs_refused_def fs1_def fs2_def fs3_def fs4_def fs5_def
          fs_effect_def [of OpenDir] split: option.splits)
    then show thesis using failed unsynced complete keeps_refl [OF s] two keep2 keep3 by blast
  qed
  then have "settled E fs' \<and> (\<forall>P K. blocks_ok E P K fs \<longrightarrow> blocks_ok E (insert b P) (if r = Inr () then insert b K else K) fs') \<and>
    ((\<forall>g. length g = 32 \<longrightarrow> file_content fs' (block_path E g) = file_content fs (block_path E g)) \<and> r \<noteq> Inr () \<or>
      (\<forall>g. length g = 32 \<longrightarrow> file_content fs' (block_path E g) =
         (if g = ?h then Some ?bs else file_content fs (block_path E g))))"
  proof cases
    case failed
    have "blocks_ok E (insert b P) K fs'" if "blocks_ok E P K fs" for P K
      using blocks_ok_mono [of E P K fs' "insert b P"] failed(1) that by (auto simp: keeps_def)
    then show ?thesis using failed by (simp add: keeps_def)
  next
    case unsynced
    have "blocks_ok E (insert b P) K fs4" if "blocks_ok E P K fs" for P K
      using placed(2) blocks_ok_mono [of E P K fs3 "insert b P"] keep3 that by (auto simp: keeps_def)
    then show ?thesis using unsynced content4 placed(1) by simp
  next
    case complete
    have "blocks_ok E (insert b P) (insert b K) fs5" if "blocks_ok E P K fs" for P K
    proof (rule final(2) [OF _ _ E(1)])
      show "blocks_ok E (insert b P) K fs4"
        using placed(2) blocks_ok_mono [of E P K fs3 "insert b P"] keep3 that by (auto simp: keeps_def)
    qed (simp add: placed(3))
    then show ?thesis using complete content5 final(1) by (simp add: keeps_def)
  qed
  then show "settled E fs'"
    and "blocks_ok E P K fs \<Longrightarrow> blocks_ok E (insert b P) (if r = Inr () then insert b K else K) fs'"
    and "(\<forall>g. length g = 32 \<longrightarrow> file_content fs' (block_path E g) = file_content fs (block_path E g)) \<and> r \<noteq> Inr () \<or>
      (\<forall>g. length g = 32 \<longrightarrow> file_content fs' (block_path E g) =
         (if g = ?h then Some ?bs else file_content fs (block_path E g)))"
    by blast+
qed

lemma file_get_cong:
  "file_content fs (block_path E h) = file_content fs' (block_path E h) \<Longrightarrow> file_get_block E re h fs = file_get_block E re h fs'"
  by (simp add: file_get_block_def)

lemma file_get_stored:
  "file_content fs (block_path E (hash_block E b)) = Some (serialize_block b) \<Longrightarrow> valid_block_encoding b \<Longrightarrow>
     file_get_block E (\<lambda>_. None) (hash_block E b) fs = Inr (Some b)"
  using deserialize_block_Inr_iff [of "serialize_block b" b] by (simp add: file_get_block_def)

interpretation file_store: block_store "file_put_block E os" "file_get_block E (\<lambda>_. None)" "hash_block E"
  "\<lambda>b. hex_ok E \<and> hash_ok E \<and> valid_block_encoding b" "settled E"
proof
  fix b c fs fs' r
  assume b: "hex_ok E \<and> hash_ok E \<and> valid_block_encoding b" and s: "settled E fs"
  show "settled E fs'" if "file_put_block E os b fs = (r, fs')"
    using file_put_outcome(1) [OF _ _ s that] b by blast
  show "file_get_block E (\<lambda>_. None) (hash_block E b) fs' = Inr (Some b)" if "file_put_block E os b fs = (Inr (), fs')"
    using file_put_outcome(3) [OF _ _ s that] b length_hash_block [of E b] by (intro file_get_stored) auto
  show "file_get_block E (\<lambda>_. None) (hash_block E c) fs' = file_get_block E (\<lambda>_. None) (hash_block E c) fs"
    if "file_put_block E os b fs = (r, fs')" "hash_block E c \<noteq> hash_block E b"
    using file_put_outcome(3) [OF _ _ s that(1)] b that(2) length_hash_block [of E c] by (intro file_get_cong) auto
qed

section \<open>Opening and crashing\<close>






section \<open>Histories\<close>








end
