(* ===== verification/Chain.thy ===== *)
theory Chain
  imports BlockRules
begin

text \<open>
  \<open>Chain\<close> of \<open>crates/bitrst-core/src/chain.rs\<close>: the active chain, the block index, the unspent set, the
  orphan pool and the journals.  An operation that can fail after it has changed the state returns its
  result together with the state it leaves; \<open>?\<close> is then an explicit case.  Iteration over the hash map of
  orphans follows insertion order, one of the orders the code may see.
\<close>

section \<open>State\<close>

datatype connect_result =
    Connected u32 hash32
  | Orphaned hash32
  | Reorganized hash32 hash32
  | SideChain u32 hash32

record orphan_entry =
  orphan_block :: block
  received_at :: u64

record chain =
  blocks :: "block list"
  active_hashes :: "hash32 set"
  known :: block_index
  total_work :: chain_work
  utxo :: utxo_set
  orphans :: "(hash32 \<times> orphan_entry) list"
  orphan_receive_seq :: u64
  network_time :: u32
  store :: memory_block_store
  event_journal :: chain_event_journal
  disconnected_journal :: disconnected_block_journal

section \<open>Queries\<close>

definition height :: "chain \<Rightarrow> u32" where
  "height c = of_nat (length (blocks c) - 1)"

definition active_block_count :: "chain \<Rightarrow> nat" where
  "active_block_count c = length (blocks c)"

definition tip_hash :: "env \<Rightarrow> chain \<Rightarrow> hash32" where
  "tip_hash E c = (if blocks c = [] then replicate 32 0 else hash_block E (last (blocks c)))"

definition active_block_at :: "chain \<Rightarrow> u32 \<Rightarrow> block option" where
  "active_block_at c h = (if unat h < length (blocks c) then Some (blocks c ! unat h) else None)"

definition has_block_hash :: "chain \<Rightarrow> hash32 \<Rightarrow> bool" where
  "has_block_hash c h \<longleftrightarrow> map_of (known c) h \<noteq> None \<or> map_of (orphans c) h \<noteq> None"

definition block_by_hash :: "chain \<Rightarrow> hash32 \<Rightarrow> block option" where
  "block_by_hash c h =
     (case map_of (known c) h of
        Some m \<Rightarrow> Some (meta_block m)
      | None \<Rightarrow> map_option orphan_block (map_of (orphans c) h))"

definition find_height :: "chain \<Rightarrow> hash32 \<Rightarrow> u32 option" where
  "find_height c h = map_option meta_height (map_of (known c) h)"

definition set_network_time :: "u32 \<Rightarrow> chain \<Rightarrow> (chain_error + unit) \<times> chain" where
  "set_network_time t c = (if t = 0 then (Inl InvalidNetworkTime, c) else (Inr (), c\<lparr>network_time := t\<rparr>))"

definition event_cursor :: "chain \<Rightarrow> chain_event_cursor" where
  "event_cursor c = journal_event_cursor (event_journal c)"

definition collect_events ::
  "chain \<Rightarrow> chain_event_cursor \<Rightarrow> chain_event_cursor_error + chain_event list \<times> chain_event_cursor" where
  "collect_events c cur = journal_collect_events (event_journal c) cur"

definition take_events :: "chain \<Rightarrow> chain_event_cursor_error + chain_event list \<times> chain" where
  "take_events c =
     map_sum id (map_prod id (\<lambda>j. c\<lparr>event_journal := j\<rparr>)) (journal_take_events (event_journal c))"

definition recovery_disconnected_blocks :: "chain \<Rightarrow> u64 \<Rightarrow> chain_event_cursor_error + block list" where
  "recovery_disconnected_blocks c since = dj_blocks_since (disconnected_journal c) since"

definition validate_block_for_parent ::
  "env \<Rightarrow> chain \<Rightarrow> block \<Rightarrow> block option \<Rightarrow> hash32 option \<Rightarrow> u32 \<Rightarrow> chain_error + unit" where
  "validate_block_for_parent E c b parent parent_hash hgt =
     and_then (validate_block_header_for_parent E (known c) (blocks c) (network_time c) b parent parent_hash hgt) (\<lambda>_.
       validate_block_transactions_for_utxo E b (utxo c))"

section \<open>Journals, index and store\<close>

definition push_event :: "chain_event \<Rightarrow> chain \<Rightarrow> chain" where
  "push_event e c = c\<lparr>event_journal := fst (journal_push e (event_journal c))\<rparr>"

definition insert_known :: "hash32 \<Rightarrow> block_meta \<Rightarrow> chain \<Rightarrow> chain" where
  "insert_known h m c = c\<lparr>known := AList.update h m (known c)\<rparr>"

definition put_store :: "env \<Rightarrow> block \<Rightarrow> chain \<Rightarrow> chain_error + chain" where
  "put_store E b c =
     and_then (map_err StoreFailed (memory_put_block E b (store c))) (\<lambda>s. Inr (c\<lparr>store := s\<rparr>))"

text \<open>
  The tail that \<open>connect_block_inner\<close> and \<open>try_reorg_to_block\<close> share once the transactions are applied:
  store, index, extend the active chain; \<open>push_active\<close> is its infallible part.
\<close>

definition push_active :: "env \<Rightarrow> block \<Rightarrow> u32 \<Rightarrow> chain_work \<Rightarrow> tx_undo list \<Rightarrow> chain \<Rightarrow> chain" where
  "push_active E b hgt work undo c =
     (let h = hash_block E b;
          c1 = insert_known h \<lparr>meta_block = b, meta_height = hgt, meta_work = work, meta_undo = undo\<rparr> c
      in c1\<lparr>blocks := blocks c1 @ [b], active_hashes := insert h (active_hashes c1)\<rparr>)"

section \<open>Genesis\<close>

definition genesis_chain ::
  "env \<Rightarrow> block \<Rightarrow> u32 \<Rightarrow> chain_event_journal \<Rightarrow> disconnected_block_journal \<Rightarrow> chain_error + chain" where
  "genesis_chain E genesis nt ej dj =
     (if nt = 0 then Inl InvalidNetworkTime
      else
        let c = \<lparr>blocks = [], active_hashes = {}, known = [], total_work = default_work, utxo = new_utxo,
                  orphans = [], orphan_receive_seq = 0, network_time = nt, store = new_memory_store,
                  event_journal = ej, disconnected_journal = dj\<rparr>;
            h = hash_block E genesis
        in
        and_then (validate_block_limits genesis) (\<lambda>_.
        and_then (validate_block_for_parent E c genesis None None 0) (\<lambda>_.
          case apply_block_transactions E genesis (utxo c) of
            (u, undo) \<Rightarrow>
              and_then (block_work (bits (header genesis))) (\<lambda>work.
              and_then (put_store E genesis (c\<lparr>utxo := u\<rparr>)) (\<lambda>c.
                Inr (push_event (BlockConnected 0 h (length (transactions genesis)))
                       ((push_active E genesis 0 work undo c)\<lparr>total_work := work\<rparr>)))))))"

definition new_genesis :: "env \<Rightarrow> block \<Rightarrow> u32 \<Rightarrow> chain_error + chain" where
  "new_genesis E genesis nt = genesis_chain E genesis nt default_journal default_dj"

definition with_journal_capacities :: "env \<Rightarrow> block \<Rightarrow> u32 \<Rightarrow> nat \<Rightarrow> chain_error + chain" where
  "with_journal_capacities E genesis nt event_capacity =
     genesis_chain E genesis nt (journal_with_capacity event_capacity) (dj_with_capacity event_capacity)"

section \<open>Orphan pool\<close>

fun oldest_orphan :: "(hash32 \<times> orphan_entry) list \<Rightarrow> (hash32 \<times> orphan_entry) option" where
  "oldest_orphan [] = None"
| "oldest_orphan (e # es) =
     (case oldest_orphan es of
        None \<Rightarrow> Some e
      | Some f \<Rightarrow> if received_at (snd e) \<le> received_at (snd f) then Some e else Some f)"

definition evict_oldest_orphan :: "chain \<Rightarrow> chain" where
  "evict_oldest_orphan c =
     (case oldest_orphan (orphans c) of
        None \<Rightarrow> c
      | Some (h, _) \<Rightarrow>
          push_event (OrphanEvicted h PoolFull) (c\<lparr>orphans := AList.delete h (orphans c)\<rparr>))"

definition insert_orphan :: "env \<Rightarrow> block \<Rightarrow> chain \<Rightarrow> chain" where
  "insert_orphan E b c =
     (let c1 = (if length (orphans c) \<ge> MAX_ORPHAN_BLOCKS then evict_oldest_orphan c else c);
          h = hash_block E b;
          sq = orphan_receive_seq c1 + 1;
          c2 = c1\<lparr>orphan_receive_seq := sq,
                   orphans := AList.update h \<lparr>orphan_block = b, received_at = sq\<rparr> (orphans c1)\<rparr>
      in push_event (OrphanAdded h (length (orphans c2))) c2)"

section \<open>Reorganisation\<close>

text \<open>
  The \<open>while let\<close> loop of \<open>collect_fork_path\<close>; \<open>path\<close> is in the order of the source (tip first).
  Each turn but the first moves to an indexed parent, so \<open>length (known c) + 1\<close> turns are enough whenever
  every indexed block was preceded by its parent.
\<close>

fun fork_path_loop :: "nat \<Rightarrow> chain \<Rightarrow> block list \<Rightarrow> chain_error + block list" where
  "fork_path_loop 0 c path = Inl OutOfFuel"
| "fork_path_loop (Suc n) c path =
     (let parent_hash = prev_blockhash (header (last path)) in
      if parent_hash \<in> active_hashes c then Inr path
      else
        (case map_of (known c) parent_hash of
           None \<Rightarrow> Inl MissingAncestor
         | Some m \<Rightarrow> fork_path_loop n c (path @ [meta_block m])))"

definition collect_fork_path :: "chain \<Rightarrow> block \<Rightarrow> chain_error + block list \<times> hash32" where
  "collect_fork_path c b =
     and_then (fork_path_loop (length (known c) + 1) c [b]) (\<lambda>path.
       Inr (rev path, prev_blockhash (header (last path))))"

definition disconnect_tip_block :: "env \<Rightarrow> chain \<Rightarrow> (chain_error + unit) \<times> chain" where
  "disconnect_tip_block E c =
     (if blocks c = [] then (Inl NoActiveTip, c)
      else
        let b = last (blocks c);
            h = hash_block E b;
            c1 = c\<lparr>blocks := butlast (blocks c), active_hashes := active_hashes c - {h}\<rparr>;
            hgt = saturating_add (height c1) 1
        in case map_of (known c1) h of
             None \<Rightarrow> (Inl MissingAncestor, c1)
           | Some m \<Rightarrow>
               let c2 = c1\<lparr>utxo := foldl disconnect_undo (utxo c1) (rev (meta_undo m))\<rparr>;
                   c3 = c2\<lparr>total_work :=
                             (if blocks c2 = [] then default_work
                              else case map_of (known c2) (hash_block E (last (blocks c2))) of
                                     None \<Rightarrow> default_work | Some pm \<Rightarrow> meta_work pm)\<rparr>
               in case journal_push (BlockDisconnected hgt h) (event_journal c3) of
                    (j, sq) \<Rightarrow>
                      (Inr (), c3\<lparr>event_journal := j,
                                   disconnected_journal := dj_record sq b (disconnected_journal c3)\<rparr>))"

lemma disconnect_tip_block_shorter:
  "disconnect_tip_block E c = (r, c') \<Longrightarrow> blocks c \<noteq> [] \<Longrightarrow> length (blocks c') < length (blocks c)"
  by (auto simp: disconnect_tip_block_def Let_def split: option.splits prod.splits)

lemma disconnect_tip_block_empty: "blocks c = [] \<Longrightarrow> disconnect_tip_block E c = (Inl NoActiveTip, c)"
  by (simp add: disconnect_tip_block_def)

lemma disconnect_tip_block_ok_shorter:
  "(Inr u, c') = disconnect_tip_block E c \<Longrightarrow> length (blocks c') < length (blocks c)"
  by (metis Inl_Inr_False disconnect_tip_block_empty disconnect_tip_block_shorter prod.inject)

text \<open>The loop \<open>while self.tip_hash() != fork_hash\<close>; every turn shortens the active chain.\<close>

function disconnect_until :: "env \<Rightarrow> hash32 \<Rightarrow> u32 \<Rightarrow> chain \<Rightarrow> (chain_error + u32) \<times> chain" where
  "disconnect_until E fork_hash n c =
     (if tip_hash E c = fork_hash then (Inr n, c)
      else case disconnect_tip_block E c of
             (Inl e, c') \<Rightarrow> (Inl e, c')
           | (Inr _, c') \<Rightarrow> disconnect_until E fork_hash (n + 1) c')"
  by pat_completeness auto
termination
  by (relation "measure (\<lambda>(E, f, n, c). length (blocks c))") (auto dest: disconnect_tip_block_ok_shorter)

declare disconnect_until.simps [simp del]

text \<open>One turn of \<open>for block in fork_path\<close>.\<close>

definition connect_fork_block :: "env \<Rightarrow> block \<Rightarrow> chain \<Rightarrow> (chain_error + unit) \<times> chain" where
  "connect_fork_block E b c =
     (let h = hash_block E b;
          hgt = height c + 1;
          parent = (if blocks c = [] then None else Some (last (blocks c)));
          parent_hash = prev_blockhash (header b)
      in case validate_block_for_parent E c b parent (Some parent_hash) hgt of
           Inl e \<Rightarrow> (Inl e, c)
         | Inr _ \<Rightarrow>
             (case apply_block_transactions E b (utxo c) of
                (u, undo) \<Rightarrow>
                  let c1 = c\<lparr>utxo := u\<rparr>;
                      parent_work = (case map_of (known c1) parent_hash of None \<Rightarrow> default_work | Some m \<Rightarrow> meta_work m)
                  in case block_work (bits (header b)) of
                       Inl e \<Rightarrow> (Inl e, c1)
                     | Inr bw \<Rightarrow>
                         (case put_store E b c1 of
                            Inl e \<Rightarrow> (Inl e, c1)
                          | Inr c2 \<Rightarrow>
                              (Inr (), push_event (BlockConnected hgt h (length (transactions b)))
                                         (push_active E b hgt (work_add parent_work bw) undo c2)))))"

fun connect_fork_path :: "env \<Rightarrow> block list \<Rightarrow> chain \<Rightarrow> (chain_error + unit) \<times> chain" where
  "connect_fork_path E [] c = (Inr (), c)"
| "connect_fork_path E (b # bs) c =
     (case connect_fork_block E b c of
        (Inl e, c') \<Rightarrow> (Inl e, c')
      | (Inr _, c') \<Rightarrow> connect_fork_path E bs c')"

definition try_reorg_to_block ::
  "env \<Rightarrow> block list \<Rightarrow> hash32 \<Rightarrow> chain_work \<Rightarrow> chain \<Rightarrow> (chain_error + u32) \<times> chain" where
  "try_reorg_to_block E fork_path fork_hash new_tip_work c =
     (case find_height c fork_hash of
        None \<Rightarrow> (Inl MissingAncestor, c)
      | Some _ \<Rightarrow>
          (case disconnect_until E fork_hash 0 c of
             (Inl e, c1) \<Rightarrow> (Inl e, c1)
           | (Inr disconnected, c1) \<Rightarrow>
               (case connect_fork_path E fork_path c1 of
                  (Inl e, c2) \<Rightarrow> (Inl e, c2)
                | (Inr _, c2) \<Rightarrow> (Inr disconnected, c2\<lparr>total_work := new_tip_work\<rparr>))))"

definition reorg_to_block :: "env \<Rightarrow> block \<Rightarrow> chain_work \<Rightarrow> chain \<Rightarrow> (chain_error + u32) \<times> chain" where
  "reorg_to_block E nb new_tip_work c =
     (case collect_fork_path c nb of
        Inl e \<Rightarrow> (Inl e, c)
      | Inr (fork_path, fork_hash) \<Rightarrow>
          (case try_reorg_to_block E fork_path fork_hash new_tip_work c of
             (Inl e, c') \<Rightarrow>
               (Inl e, c'\<lparr>blocks := blocks c, utxo := utxo c, total_work := total_work c,
                          active_hashes := active_hashes c\<rparr>)
           | (Inr depth, c') \<Rightarrow> (Inr depth, c')))"

section \<open>Connecting a block\<close>

text \<open>
  \<open>connect_block_inner\<close>; \<open>after\<close> is what \<open>if process_orphans { self.process_orphans()? }\<close> does: it is
  the identity when the flag is false.
\<close>

definition connect_block_inner ::
  "env \<Rightarrow> (chain \<Rightarrow> (chain_error + unit) \<times> chain) \<Rightarrow> block \<Rightarrow> chain \<Rightarrow> (chain_error + connect_result) \<times> chain" where
  "connect_block_inner E after b c =
     (case validate_block_limits b of
        Inl e \<Rightarrow> (Inl e, c)
      | Inr _ \<Rightarrow>
          let h = hash_block E b; parent_hash = prev_blockhash (header b) in
          if map_of (known c) h \<noteq> None \<or> map_of (orphans c) h \<noteq> None then (Inl BlockAlreadyKnown, c)
          else
            (case map_of (known c) parent_hash of
               None \<Rightarrow> (Inr (Orphaned h), insert_orphan E b c)
             | Some parent_meta \<Rightarrow>
                 let hgt = meta_height parent_meta + 1 in
                 (case validate_block_for_parent E c b (Some (meta_block parent_meta)) (Some parent_hash) hgt of
                    Inl e \<Rightarrow> (Inl e, c)
                  | Inr _ \<Rightarrow>
                      (case block_work (bits (header b)) of
                         Inl e \<Rightarrow> (Inl e, c)
                       | Inr bw \<Rightarrow>
                           let candidate_work = work_add (meta_work parent_meta) bw;
                               old_tip = tip_hash E c
                           in
                           if parent_hash = old_tip then
                             (case apply_block_transactions E b (utxo c) of
                                (u, undo) \<Rightarrow>
                                  (case put_store E b (c\<lparr>utxo := u\<rparr>) of
                                     Inl e \<Rightarrow> (Inl e, c\<lparr>utxo := u\<rparr>)
                                   | Inr c1 \<Rightarrow>
                                       (case after (push_event (BlockConnected hgt h (length (transactions b)))
                                               ((push_active E b hgt candidate_work undo c1)\<lparr>total_work := candidate_work\<rparr>)) of
                                          (Inl e, c2) \<Rightarrow> (Inl e, c2)
                                        | (Inr _, c2) \<Rightarrow> (Inr (Connected hgt h), c2))))
                           else if candidate_work \<le> total_work c then
                             (Inr (SideChain hgt h),
                              insert_known h \<lparr>meta_block = b, meta_height = hgt, meta_work = candidate_work,
                                              meta_undo = []\<rparr> c)
                           else
                             (case reorg_to_block E b candidate_work c of
                                (Inl e, c1) \<Rightarrow> (Inl e, c1)
                              | (Inr depth, c1) \<Rightarrow>
                                  let new_tip = tip_hash E c1 in
                                  (case after (push_event (ChainReorg depth old_tip new_tip) c1) of
                                     (Inl e, c2) \<Rightarrow> (Inl e, c2)
                                   | (Inr _, c2) \<Rightarrow> (Inr (Reorganized old_tip new_tip), c2)))))))"

definition no_orphans :: "chain \<Rightarrow> (chain_error + unit) \<times> chain" where
  "no_orphans c = (Inr (), c)"

definition connect_without_orphans :: "env \<Rightarrow> block \<Rightarrow> chain \<Rightarrow> (chain_error + connect_result) \<times> chain" where
  "connect_without_orphans E = connect_block_inner E no_orphans"

text \<open>\<open>enqueue_ready_orphans\<close>: the blocks appended to the queue, and the chain without them.\<close>

definition ready_orphans :: "chain \<Rightarrow> hash32 list" where
  "ready_orphans c =
     map fst (filter (\<lambda>(_, entry). map_of (known c) (prev_blockhash (header (orphan_block entry))) \<noteq> None) (orphans c))"

definition remove_ready :: "hash32 list \<Rightarrow> block list \<times> chain \<Rightarrow> block list \<times> chain" where
  "remove_ready ready st =
     foldl (\<lambda>(queue, c) h.
        case map_of (orphans c) h of
          None \<Rightarrow> (queue, c)
        | Some entry \<Rightarrow> (queue @ [orphan_block entry], c\<lparr>orphans := AList.delete h (orphans c)\<rparr>)) st ready"

definition enqueue_ready_orphans :: "block list \<times> chain \<Rightarrow> block list \<times> chain" where
  "enqueue_ready_orphans st = remove_ready (ready_orphans (snd st)) st"

fun process_orphans_loop :: "env \<Rightarrow> nat \<Rightarrow> block list \<times> chain \<Rightarrow> (chain_error + unit) \<times> chain" where
  "process_orphans_loop E n ([], c) = (Inr (), c)"
| "process_orphans_loop E 0 (b # queue, c) = (Inl OutOfFuel, c)"
| "process_orphans_loop E (Suc n) (b # queue, c) =
     (case connect_without_orphans E b c of
        (Inl e, c1) \<Rightarrow> (Inl e, c1)
      | (Inr _, c1) \<Rightarrow> process_orphans_loop E n (enqueue_ready_orphans (queue, c1)))"

text \<open>Every turn takes one block out of the pool or the queue, so the size of the pool bounds the turns.\<close>

definition process_orphans :: "env \<Rightarrow> chain \<Rightarrow> (chain_error + unit) \<times> chain" where
  "process_orphans E c = process_orphans_loop E (length (orphans c)) (enqueue_ready_orphans ([], c))"

definition connect_block :: "env \<Rightarrow> block \<Rightarrow> chain \<Rightarrow> (chain_error + connect_result) \<times> chain" where
  "connect_block E b c = connect_block_inner E (process_orphans E) b c"

end
