(* ===== verification/ChainInv.thy ===== *)
theory ChainInv
  imports Chain
begin

text \<open>
  The invariant of \<open>Chain\<close>: the block index is a tree rooted at the genesis block with consistent heights
  and cumulative work, the active chain is a path of it, the hash set, the store and the orphan pool agree
  with it.  Every operation preserves it, on every branch.
\<close>

section \<open>The invariant\<close>

abbreviation parent_of :: "block \<Rightarrow> hash32" where
  "parent_of b \<equiv> prev_blockhash (header b)"

text \<open>An entry that is not the genesis hangs off its parent, which is indexed and has a lower rank.\<close>

definition hangs_off :: "block_index \<Rightarrow> (hash32 \<Rightarrow> nat) \<Rightarrow> hash32 \<Rightarrow> block_meta \<Rightarrow> bool" where
  "hangs_off idx rank h m \<longleftrightarrow>
     (\<exists>pm bw. map_of idx (parent_of (meta_block m)) = Some pm \<and>
        rank (parent_of (meta_block m)) < rank h \<and> meta_height m = meta_height pm + 1 \<and>
        block_work (bits (header (meta_block m))) = Inr bw \<and> meta_work m = work_add (meta_work pm) bw)"

definition index_rank :: "hash32 \<Rightarrow> block_index \<Rightarrow> (hash32 \<Rightarrow> nat) \<Rightarrow> bool" where
  "index_rank g idx rank \<longleftrightarrow>
     (\<forall>h m. map_of idx h = Some m \<longrightarrow> rank h < length idx \<and> (h \<noteq> g \<longrightarrow> hangs_off idx rank h m))"

definition index_ok :: "env \<Rightarrow> hash32 \<Rightarrow> block_index \<Rightarrow> bool" where
  "index_ok E g idx \<longleftrightarrow>
     (\<forall>h m. map_of idx h = Some m \<longrightarrow> hash_block E (meta_block m) = h) \<and>
     (\<exists>gm. map_of idx g = Some gm \<and> meta_height gm = 0) \<and>
     (\<exists>rank. index_rank g idx rank)"

lemma index_rankD:
  "index_rank g idx rank \<Longrightarrow> map_of idx h = Some m \<Longrightarrow> rank h < length idx"
  "index_rank g idx rank \<Longrightarrow> map_of idx h = Some m \<Longrightarrow> h \<noteq> g \<Longrightarrow> hangs_off idx rank h m"
  by (simp_all add: index_rank_def)

definition active_ok :: "env \<Rightarrow> hash32 \<Rightarrow> chain \<Rightarrow> bool" where
  "active_ok E g c \<longleftrightarrow>
     blocks c \<noteq> [] \<and> hash_block E (hd (blocks c)) = g \<and>
     successively (\<lambda>a b. parent_of b = hash_block E a) (blocks c) \<and>
     distinct (map (hash_block E) (blocks c)) \<and>
     active_hashes c = hash_block E ` set (blocks c) \<and>
     (\<forall>b\<in>set (blocks c). \<exists>m. map_of (known c) (hash_block E b) = Some m \<and> meta_block m = b)"

definition orphans_ok :: "env \<Rightarrow> chain \<Rightarrow> bool" where
  "orphans_ok E c \<longleftrightarrow>
     distinct (map fst (orphans c)) \<and> length (orphans c) \<le> MAX_ORPHAN_BLOCKS \<and>
     (\<forall>h e. map_of (orphans c) h = Some e \<longrightarrow> hash_block E (orphan_block e) = h \<and> map_of (known c) h = None)"

definition store_keyed :: "env \<Rightarrow> memory_block_store \<Rightarrow> bool" where
  "store_keyed E s \<longleftrightarrow> (\<forall>h b. memory_get_block h s = Inr (Some b) \<longrightarrow> hash_block E b = h)"

definition store_ok :: "env \<Rightarrow> chain \<Rightarrow> bool" where
  "store_ok E c \<longleftrightarrow>
     (\<forall>b\<in>set (blocks c). memory_get_block (hash_block E b) (store c) = Inr (Some b)) \<and> store_keyed E (store c)"

definition tip_ok :: "env \<Rightarrow> chain \<Rightarrow> bool" where
  "tip_ok E c \<longleftrightarrow> (\<exists>m. map_of (known c) (tip_hash E c) = Some m \<and> total_work c = meta_work m)"

definition core_ok :: "env \<Rightarrow> hash32 \<Rightarrow> chain \<Rightarrow> bool" where
  "core_ok E g c \<longleftrightarrow> index_ok E g (known c) \<and> active_ok E g c \<and> orphans_ok E c \<and> store_ok E c"

definition chain_ok :: "env \<Rightarrow> hash32 \<Rightarrow> chain \<Rightarrow> bool" where
  "chain_ok E g c \<longleftrightarrow> core_ok E g c \<and> tip_ok E c"

lemmas chain_ok_defs = chain_ok_def core_ok_def index_ok_def active_ok_def orphans_ok_def store_ok_def tip_ok_def

text \<open>What later states keep of the index: entries, up to their undo data.\<close>

definition index_extends :: "block_index \<Rightarrow> block_index \<Rightarrow> bool" where
  "index_extends idx idx' \<longleftrightarrow>
     (\<forall>h m. map_of idx h = Some m \<longrightarrow>
        (\<exists>m'. map_of idx' h = Some m' \<and> meta_block m' = meta_block m \<and> meta_height m' = meta_height m \<and>
           meta_work m' = meta_work m))"

lemma index_extends_refl [simp]: "index_extends idx idx"
  by (simp add: index_extends_def)

lemma index_extends_trans: "index_extends a b \<Longrightarrow> index_extends b c \<Longrightarrow> index_extends a c"
  unfolding index_extends_def by metis

lemma index_extendsD: "index_extends idx idx' \<Longrightarrow> map_of idx h = Some m \<Longrightarrow>
   \<exists>m'. map_of idx' h = Some m' \<and> meta_block m' = meta_block m \<and> meta_height m' = meta_height m \<and> meta_work m' = meta_work m"
  by (simp add: index_extends_def)

section \<open>The index under insertion\<close>

lemma length_update:
  "length (AList.update k v al) = (if map_of al k = None then Suc (length al) else length al)"
  by (induction al) auto

lemma index_ok_hash: "index_ok E g idx \<Longrightarrow> map_of idx h = Some m \<Longrightarrow> hash_block E (meta_block m) = h"
  by (simp add: index_ok_def)

lemma index_ok_parent:
  "index_ok E g idx \<Longrightarrow> map_of idx h = Some m \<Longrightarrow> h \<noteq> g \<Longrightarrow>
     \<exists>pm bw. map_of idx (parent_of (meta_block m)) = Some pm \<and> meta_height m = meta_height pm + 1 \<and>
       block_work (bits (header (meta_block m))) = Inr bw \<and> meta_work m = work_add (meta_work pm) bw"
  unfolding index_ok_def index_rank_def hangs_off_def by blast

lemma index_ok_insert_fresh:
  assumes ok: "index_ok E g idx" and fresh: "map_of idx h = None" and hash: "hash_block E (meta_block m) = h"
    and parent: "map_of idx (parent_of (meta_block m)) = Some pm" "meta_height m = meta_height pm + 1"
      "block_work (bits (header (meta_block m))) = Inr bw" "meta_work m = work_add (meta_work pm) bw"
  shows "index_ok E g (AList.update h m idx)" "index_extends idx (AList.update h m idx)"
proof -
  obtain rank where rank: "index_rank g idx rank" using ok unfolding index_ok_def by blast
  have up: "map_of (AList.update h m idx) = (map_of idx)(h \<mapsto> m)" by (simp add: update_conv')
  have len: "length (AList.update h m idx) = Suc (length idx)" by (simp add: length_update fresh)
  have ph: "parent_of (meta_block m) \<noteq> h" using parent(1) fresh by auto
  let ?r = "rank(h := length idx)"
  have "?r k < length (AList.update h m idx) \<and> (k \<noteq> g \<longrightarrow> hangs_off (AList.update h m idx) ?r k n)"
    if n: "map_of (AList.update h m idx) k = Some n" for k n
  proof (cases "k = h")
    case True
    then have "n = m" using n by (simp add: up)
    then show ?thesis using True ph parent index_rankD(1) [OF rank parent(1)]
      by (auto simp: up len hangs_off_def)
  next
    case False
    then have old: "map_of idx k = Some n" using n by (simp add: up)
    have "hangs_off (AList.update h m idx) ?r k n" if "k \<noteq> g"
    proof -
      have off: "hangs_off idx rank k n" using index_rankD(2) [OF rank old that] .
      then have "parent_of (meta_block n) \<noteq> h" using fresh by (auto simp: hangs_off_def)
      then show ?thesis using off False by (auto simp: hangs_off_def up)
    qed
    then show ?thesis using False index_rankD(1) [OF rank old] by (auto simp: len)
  qed
  then have "index_rank g (AList.update h m idx) ?r" unfolding index_rank_def by blast
  moreover have "\<exists>gm. map_of (AList.update h m idx) g = Some gm \<and> meta_height gm = 0"
    using ok fresh unfolding index_ok_def up by auto
  moreover have "\<forall>k n. map_of (AList.update h m idx) k = Some n \<longrightarrow> hash_block E (meta_block n) = k"
    using ok hash unfolding index_ok_def up by auto
  ultimately show "index_ok E g (AList.update h m idx)" unfolding index_ok_def by blast
  show "index_extends idx (AList.update h m idx)" using fresh unfolding index_extends_def up by auto
qed

lemma index_ok_insert_known:
  assumes ok: "index_ok E g idx" and old: "map_of idx h = Some m0"
    and same: "meta_block m = meta_block m0" "meta_height m = meta_height m0" "meta_work m = meta_work m0"
  shows "index_ok E g (AList.update h m idx)" "index_extends idx (AList.update h m idx)"
proof -
  have up: "map_of (AList.update h m idx) = (map_of idx)(h \<mapsto> m)" by (simp add: update_conv')
  have len: "length (AList.update h m idx) = length idx" by (simp add: length_update old)
  obtain rank where rank: "index_rank g idx rank" using ok unfolding index_ok_def by blast
  have off: "hangs_off (AList.update h m idx) rank k n" if hang: "hangs_off idx rank k n" for k n
  proof -
    obtain pm bw where pm: "map_of idx (parent_of (meta_block n)) = Some pm"
        "rank (parent_of (meta_block n)) < rank k" "meta_height n = meta_height pm + 1"
        "block_work (bits (header (meta_block n))) = Inr bw" "meta_work n = work_add (meta_work pm) bw"
      using hang unfolding hangs_off_def by blast
    have "\<exists>pm'. map_of (AList.update h m idx) (parent_of (meta_block n)) = Some pm' \<and>
        meta_height pm' = meta_height pm \<and> meta_work pm' = meta_work pm"
      using pm(1) old same by (cases "parent_of (meta_block n) = h") (auto simp: up)
    then show ?thesis using pm unfolding hangs_off_def by auto
  qed
  have "rank k < length (AList.update h m idx) \<and> (k \<noteq> g \<longrightarrow> hangs_off (AList.update h m idx) rank k n)"
    if n: "map_of (AList.update h m idx) k = Some n" for k n
  proof -
    obtain n0 where n0: "map_of idx k = Some n0" "meta_block n = meta_block n0" "meta_height n = meta_height n0"
        "meta_work n = meta_work n0"
      using n old same by (cases "k = h") (auto simp: up)
    have "hangs_off idx rank k n" if "k \<noteq> g"
      using index_rankD(2) [OF rank n0(1) that] n0 by (simp add: hangs_off_def)
    then show ?thesis using index_rankD(1) [OF rank n0(1)] off len by auto
  qed
  then have step: "index_rank g (AList.update h m idx) rank" unfolding index_rank_def by blast
  have g: "\<exists>gm. map_of (AList.update h m idx) g = Some gm \<and> meta_height gm = 0"
    using ok old same unfolding index_ok_def up by (cases "g = h") auto
  have hash: "\<forall>k n. map_of (AList.update h m idx) k = Some n \<longrightarrow> hash_block E (meta_block n) = k"
    using ok old same unfolding index_ok_def up by auto
  show "index_ok E g (AList.update h m idx)" unfolding index_ok_def using hash g step by blast
  show "index_extends idx (AList.update h m idx)" using old same unfolding index_extends_def up by auto
qed

section \<open>Extending the active chain\<close>

lemma active_tip:
  assumes "active_ok E g c"
  shows "\<exists>m. map_of (known c) (tip_hash E c) = Some m \<and> meta_block m = last (blocks c)"
    and "tip_hash E c \<in> active_hashes c" and "tip_hash E c = hash_block E (last (blocks c))"
  using assms by (auto simp: active_ok_def tip_hash_def)

lemma active_genesis: "active_ok E g c \<Longrightarrow> g \<in> active_hashes c"
  by (auto simp: active_ok_def)

lemma active_known: "active_ok E g c \<Longrightarrow> h \<in> active_hashes c \<Longrightarrow> \<exists>m. map_of (known c) h = Some m \<and> meta_block m \<in> set (blocks c)"
  by (auto simp: active_ok_def)

lemma active_ok_index:
  assumes "active_ok E g c" "index_extends (known c) idx"
  shows "active_ok E g (c\<lparr>known := idx\<rparr>)"
proof -
  have "\<exists>m. map_of idx (hash_block E b) = Some m \<and> meta_block m = b" if "b \<in> set (blocks c)" for b
    using assms that index_extendsD [OF assms(2), of "hash_block E b"] unfolding active_ok_def by metis
  then show ?thesis using assms(1) by (simp add: active_ok_def)
qed

text \<open>Adding to the index what the block's parent entry prescribes.\<close>

definition fits_index :: "env \<Rightarrow> chain \<Rightarrow> block \<Rightarrow> u32 \<Rightarrow> chain_work \<Rightarrow> bool" where
  "fits_index E c b hgt work \<longleftrightarrow>
     (\<exists>pm bw. map_of (known c) (parent_of b) = Some pm \<and> hgt = meta_height pm + 1 \<and>
        block_work (bits (header b)) = Inr bw \<and> work = work_add (meta_work pm) bw) \<and>
     map_of (orphans c) (hash_block E b) = None \<and> hash_block E b \<notin> active_hashes c \<and>
     (case map_of (known c) (hash_block E b) of None \<Rightarrow> True | Some m \<Rightarrow> meta_block m = b)"

lemma insert_known_ok:
  assumes core: "core_ok E g c" and fits: "fits_index E c b hgt work"
  shows "core_ok E g (insert_known (hash_block E b) \<lparr>meta_block = b, meta_height = hgt, meta_work = work, meta_undo = undo\<rparr> c)"
    and "index_extends (known c) (known (insert_known (hash_block E b) \<lparr>meta_block = b, meta_height = hgt, meta_work = work, meta_undo = undo\<rparr> c))"
proof -
  let ?h = "hash_block E b" and ?m = "\<lparr>meta_block = b, meta_height = hgt, meta_work = work, meta_undo = undo\<rparr>"
  let ?idx = "AList.update ?h ?m (known c)"
  obtain pm bw where pm: "map_of (known c) (parent_of b) = Some pm" "hgt = meta_height pm + 1"
      "block_work (bits (header b)) = Inr bw" "work = work_add (meta_work pm) bw"
    using fits unfolding fits_index_def by blast
  have idx: "index_ok E g (known c)" and act: "active_ok E g c" using core by (auto simp: core_ok_def)
  have both: "index_ok E g ?idx \<and> index_extends (known c) ?idx"
  proof (cases "map_of (known c) ?h")
    case None
    then show ?thesis using index_ok_insert_fresh [OF idx None, of ?m pm bw] pm by simp
  next
    case (Some m0)
    then have b: "meta_block m0 = b" using fits by (simp add: fits_index_def)
    have "?h \<noteq> g" using fits active_genesis [OF act] by (auto simp: fits_index_def)
    then have "meta_height m0 = hgt \<and> meta_work m0 = work"
      using index_ok_parent [OF idx Some] b pm by auto
    then show ?thesis using index_ok_insert_known [OF idx Some, of ?m] b by simp
  qed
  then show ext: "index_extends (known c) (known (insert_known ?h ?m c))" by (simp add: insert_known_def)
  have "active_ok E g (insert_known ?h ?m c)"
    using active_ok_index [OF act] both by (simp add: insert_known_def)
  moreover have "orphans_ok E (insert_known ?h ?m c)"
    using core fits by (auto simp: core_ok_def orphans_ok_def insert_known_def update_conv' fits_index_def)
  moreover have "store_ok E (insert_known ?h ?m c)"
    using core by (simp add: core_ok_def store_ok_def insert_known_def)
  ultimately show "core_ok E g (insert_known ?h ?m c)"
    using both by (simp add: core_ok_def insert_known_def)
qed

lemma push_active_ok:
  assumes core: "core_ok E g c" and fits: "fits_index E c b hgt work" and tip: "parent_of b = tip_hash E c"
    and stored: "memory_get_block (hash_block E b) (store c) = Inr (Some b)"
  shows "core_ok E g (push_active E b hgt work undo c)"
    and "index_extends (known c) (known (push_active E b hgt work undo c))"
    and "map_of (known (push_active E b hgt work undo c)) (tip_hash E (push_active E b hgt work undo c)) =
      Some \<lparr>meta_block = b, meta_height = hgt, meta_work = work, meta_undo = undo\<rparr>"
proof -
  let ?h = "hash_block E b" and ?m = "\<lparr>meta_block = b, meta_height = hgt, meta_work = work, meta_undo = undo\<rparr>"
  define c1 where "c1 = insert_known ?h ?m c"
  have core1: "core_ok E g c1" and ext: "index_extends (known c) (known c1)"
    using insert_known_ok [OF core fits] unfolding c1_def by blast+
  have c1: "blocks c1 = blocks c" "active_hashes c1 = active_hashes c" "store c1 = store c" "orphans c1 = orphans c"
    "map_of (known c1) ?h = Some ?m"
    by (simp_all add: c1_def insert_known_def update_conv')
  have push: "push_active E b hgt work undo c = c1\<lparr>blocks := blocks c @ [b], active_hashes := insert ?h (active_hashes c)\<rparr>"
    by (simp add: push_active_def Let_def c1_def insert_known_def)
  have act: "active_ok E g c1" using core1 by (simp add: core_ok_def)
  have new: "?h \<notin> active_hashes c" using fits by (simp add: fits_index_def)
  have last: "tip_hash E c = hash_block E (last (blocks c))" using core active_tip(3) by (auto simp: core_ok_def)
  have "active_ok E g (push_active E b hgt work undo c)"
  proof -
    have a: "blocks c \<noteq> []" "hash_block E (hd (blocks c)) = g"
      "successively (\<lambda>a b. parent_of b = hash_block E a) (blocks c)" "distinct (map (hash_block E) (blocks c))"
      "active_hashes c = hash_block E ` set (blocks c)"
      "\<forall>b\<in>set (blocks c). \<exists>m. map_of (known c1) (hash_block E b) = Some m \<and> meta_block m = b"
      using act unfolding active_ok_def c1(1-4) by blast+
    have "successively (\<lambda>a b. parent_of b = hash_block E a) (blocks c @ [b])"
      using a(1,3) tip last by (simp add: successively_append_iff)
    moreover have "distinct (map (hash_block E) (blocks c @ [b]))" using a(4,5) new by simp
    moreover have "\<forall>b'\<in>set (blocks c @ [b]). \<exists>m. map_of (known c1) (hash_block E b') = Some m \<and> meta_block m = b'"
      using a(6) c1(5) by simp
    moreover have "hash_block E (hd (blocks c @ [b])) = g" using a(1,2) by simp
    ultimately show ?thesis unfolding push active_ok_def using a(5) by simp
  qed
  moreover have "store_ok E (push_active E b hgt work undo c)"
  proof -
    have "\<forall>b\<in>set (blocks c). memory_get_block (hash_block E b) (store c) = Inr (Some b)"
      "store_keyed E (store c)"
      using core unfolding core_ok_def store_ok_def by blast+
    then show ?thesis using stored unfolding store_ok_def push by (simp add: c1(3))
  qed
  ultimately show "core_ok E g (push_active E b hgt work undo c)"
    using core1 by (simp add: core_ok_def push orphans_ok_def)
  show "index_extends (known c) (known (push_active E b hgt work undo c))" using ext by (simp add: push)
  show "map_of (known (push_active E b hgt work undo c)) (tip_hash E (push_active E b hgt work undo c)) = Some ?m"
    using c1(5) by (simp add: push tip_hash_def)
qed

section \<open>Fields the invariant does not read\<close>

lemma core_ok_fields [simp]:
  "core_ok E g (c\<lparr>event_journal := j\<rparr>) = core_ok E g c"
  "core_ok E g (c\<lparr>disconnected_journal := d\<rparr>) = core_ok E g c"
  "core_ok E g (c\<lparr>network_time := t\<rparr>) = core_ok E g c"
  "core_ok E g (c\<lparr>utxo := u\<rparr>) = core_ok E g c"
  "core_ok E g (c\<lparr>total_work := w\<rparr>) = core_ok E g c"
  "core_ok E g (c\<lparr>orphan_receive_seq := sq\<rparr>) = core_ok E g c"
  by (simp_all add: core_ok_def active_ok_def orphans_ok_def store_ok_def)

lemma tip_hash_fields [simp]:
  "tip_hash E (c\<lparr>event_journal := j\<rparr>) = tip_hash E c"
  "tip_hash E (c\<lparr>disconnected_journal := d\<rparr>) = tip_hash E c"
  "tip_hash E (c\<lparr>network_time := t\<rparr>) = tip_hash E c"
  "tip_hash E (c\<lparr>utxo := u\<rparr>) = tip_hash E c"
  "tip_hash E (c\<lparr>total_work := w\<rparr>) = tip_hash E c"
  "tip_hash E (c\<lparr>orphans := os\<rparr>) = tip_hash E c"
  "tip_hash E (c\<lparr>known := idx\<rparr>) = tip_hash E c"
  "tip_hash E (c\<lparr>store := st\<rparr>) = tip_hash E c"
  "tip_hash E (c\<lparr>orphan_receive_seq := sq\<rparr>) = tip_hash E c"
  by (simp_all add: tip_hash_def)

lemma tip_ok_fields [simp]:
  "tip_ok E (c\<lparr>event_journal := j\<rparr>) = tip_ok E c"
  "tip_ok E (c\<lparr>orphans := os\<rparr>) = tip_ok E c"
  "tip_ok E (c\<lparr>orphan_receive_seq := sq\<rparr>) = tip_ok E c"
  by (simp_all add: tip_ok_def)

lemma push_event_fields [simp]:
  "blocks (push_event e c) = blocks c" "known (push_event e c) = known c" "orphans (push_event e c) = orphans c"
  "active_hashes (push_event e c) = active_hashes c" "utxo (push_event e c) = utxo c"
  "total_work (push_event e c) = total_work c" "store (push_event e c) = store c"
  "network_time (push_event e c) = network_time c"
  "tip_hash E (push_event e c) = tip_hash E c"
  "core_ok E g (push_event e c) = core_ok E g c" "tip_ok E (push_event e c) = tip_ok E c"
  by (simp_all add: push_event_def)

lemma chain_ok_push_event [simp]: "chain_ok E g (push_event e c) = chain_ok E g c"
  by (simp add: chain_ok_def)

lemma tip_ok_index:
  "tip_ok E c \<Longrightarrow> index_extends (known c) (known c') \<Longrightarrow> tip_hash E c' = tip_hash E c \<Longrightarrow> total_work c' = total_work c \<Longrightarrow> tip_ok E c'"
  unfolding tip_ok_def index_extends_def by metis

section \<open>The orphan pool\<close>

lemma oldest_orphan_Some: "oldest_orphan os = Some e \<Longrightarrow> e \<in> set os"
  by (induction os arbitrary: e) (auto split: option.splits if_splits)

lemma oldest_orphan_None [simp]: "oldest_orphan os = None \<longleftrightarrow> os = []"
  by (cases os) (auto split: option.splits)

lemma length_delete_present:
  "distinct (map fst al) \<Longrightarrow> k \<in> fst ` set al \<Longrightarrow> Suc (length (AList.delete k al)) = length al"
proof (induction al)
  case (Cons x al)
  show ?case
  proof (cases "fst x = k")
    case True
    then have "k \<notin> fst ` set al" using Cons.prems by auto
    then have "AList.delete k al = al" by (induction al) auto
    then show ?thesis using True by simp
  next
    case False
    then show ?thesis using Cons by auto
  qed
qed simp

lemma orphans_ok_subpool:
  "orphans_ok E c \<Longrightarrow> orphans_ok E (c\<lparr>orphans := AList.delete h (orphans c)\<rparr>)"
  using length_delete_le [of h "orphans c"]
  by (auto simp: orphans_ok_def delete_conv' distinct_delete split: if_splits)

lemma core_ok_subpool:
  "core_ok E g c \<Longrightarrow> core_ok E g (c\<lparr>orphans := AList.delete h (orphans c)\<rparr>)"
  using orphans_ok_subpool [of E c h] by (simp add: core_ok_def active_ok_def store_ok_def)

lemma evict_oldest_orphan_fields [simp]:
  "blocks (evict_oldest_orphan c) = blocks c" "known (evict_oldest_orphan c) = known c"
  "active_hashes (evict_oldest_orphan c) = active_hashes c" "utxo (evict_oldest_orphan c) = utxo c"
  "total_work (evict_oldest_orphan c) = total_work c" "store (evict_oldest_orphan c) = store c"
  "network_time (evict_oldest_orphan c) = network_time c" "tip_hash E (evict_oldest_orphan c) = tip_hash E c"
  by (auto simp: evict_oldest_orphan_def tip_hash_def split: option.split)

lemma evict_oldest_orphan_ok:
  assumes "core_ok E g c"
  shows "core_ok E g (evict_oldest_orphan c)"
    and "orphans c \<noteq> [] \<Longrightarrow> Suc (length (orphans (evict_oldest_orphan c))) = length (orphans c)"
proof -
  show "core_ok E g (evict_oldest_orphan c)"
    using assms core_ok_subpool by (auto simp: evict_oldest_orphan_def split: option.split)
  assume "orphans c \<noteq> []"
  then obtain h e where "oldest_orphan (orphans c) = Some (h, e)"
    by (cases "oldest_orphan (orphans c)") auto
  moreover from this have "h \<in> fst ` set (orphans c)" using oldest_orphan_Some by force
  moreover have "distinct (map fst (orphans c))" using assms by (simp add: core_ok_def orphans_ok_def)
  ultimately show "Suc (length (orphans (evict_oldest_orphan c))) = length (orphans c)"
    using length_delete_present [of "orphans c" h] by (simp add: evict_oldest_orphan_def)
qed

lemma insert_orphan_fields [simp]:
  "blocks (insert_orphan E b c) = blocks c" "known (insert_orphan E b c) = known c"
  "active_hashes (insert_orphan E b c) = active_hashes c" "utxo (insert_orphan E b c) = utxo c"
  "total_work (insert_orphan E b c) = total_work c" "store (insert_orphan E b c) = store c"
  "network_time (insert_orphan E b c) = network_time c" "tip_hash E (insert_orphan E b c) = tip_hash E c"
  by (simp_all add: insert_orphan_def Let_def)

lemma insert_orphan_ok:
  assumes core: "core_ok E g c" and new: "map_of (known c) (hash_block E b) = None"
  shows "core_ok E g (insert_orphan E b c)"
proof -
  let ?h = "hash_block E b"
  define c1 where "c1 = (if length (orphans c) \<ge> MAX_ORPHAN_BLOCKS then evict_oldest_orphan c else c)"
  have core1: "core_ok E g c1" and short: "length (orphans c1) < MAX_ORPHAN_BLOCKS" and known1: "known c1 = known c"
  proof -
    show "core_ok E g c1" using core evict_oldest_orphan_ok(1) [OF core] by (simp add: c1_def)
    show "known c1 = known c" by (simp add: c1_def)
    have "length (orphans c) \<le> MAX_ORPHAN_BLOCKS" using core by (simp add: core_ok_def orphans_ok_def)
    moreover have "orphans c \<noteq> [] \<or> length (orphans c) < MAX_ORPHAN_BLOCKS" by (auto simp: MAX_ORPHAN_BLOCKS_def)
    ultimately show "length (orphans c1) < MAX_ORPHAN_BLOCKS"
      using evict_oldest_orphan_ok(2) [OF core] by (cases "orphans c = []") (auto simp: c1_def)
  qed
  define c2 where "c2 = c1\<lparr>orphan_receive_seq := orphan_receive_seq c1 + 1,
      orphans := AList.update ?h \<lparr>orphan_block = b, received_at = orphan_receive_seq c1 + 1\<rparr> (orphans c1)\<rparr>"
  have "orphans_ok E c2"
    using core1 short new
    by (auto simp: c2_def core_ok_def orphans_ok_def distinct_update update_conv' length_update known1)
  then have "core_ok E g c2" using core1 by (simp add: core_ok_def c2_def active_ok_def store_ok_def)
  then show ?thesis by (simp add: insert_orphan_def Let_def c1_def [symmetric] c2_def)
qed

section \<open>The path to the fork\<close>

text \<open>A side branch read from its end: indexed, inactive blocks, each the parent of the one before.\<close>

definition side_branch :: "env \<Rightarrow> chain \<Rightarrow> block list \<Rightarrow> bool" where
  "side_branch E c ext \<longleftrightarrow>
     (\<forall>e\<in>set ext. (\<exists>m. map_of (known c) (hash_block E e) = Some m \<and> meta_block m = e) \<and>
        hash_block E e \<notin> active_hashes c)"

lemma fork_path_loop_ok:
  assumes idx: "index_ok E g (known c)" and rank: "index_rank g (known c) rank" and gen: "g \<in> active_hashes c"
  shows "path \<noteq> [] \<Longrightarrow> map_of (known c) (parent_of (last path)) \<noteq> None \<Longrightarrow> rank (parent_of (last path)) < n \<Longrightarrow>
    \<exists>ext. fork_path_loop n c path = Inr (path @ ext) \<and> side_branch E c ext \<and>
      successively (\<lambda>a b. parent_of a = hash_block E b) (last path # ext) \<and>
      parent_of (last (last path # ext)) \<in> active_hashes c \<and>
      distinct (map (hash_block E) ext) \<and> (\<forall>e\<in>set ext. rank (hash_block E e) \<le> rank (parent_of (last path)))"
proof (induction n arbitrary: path)
  case 0
  then show ?case by simp
next
  case (Suc n)
  let ?p = "parent_of (last path)"
  show ?case
  proof (cases "?p \<in> active_hashes c")
    case True
    then show ?thesis by (intro exI [of _ "[]"]) (simp add: side_branch_def Let_def)
  next
    case False
    obtain m where m: "map_of (known c) ?p = Some m" using Suc.prems(2) by blast
    have hash: "hash_block E (meta_block m) = ?p" using index_ok_hash [OF idx m] .
    have "?p \<noteq> g" using False gen by auto
    then have off: "hangs_off (known c) rank ?p m" using index_rankD(2) [OF rank m] by blast
    let ?path = "path @ [meta_block m]"
    have "map_of (known c) (parent_of (last ?path)) \<noteq> None" "rank (parent_of (last ?path)) < n"
      and less: "rank (parent_of (meta_block m)) < rank ?p"
      using off Suc.prems(3) by (auto simp: hangs_off_def)
    then obtain ext where ext: "fork_path_loop n c ?path = Inr (?path @ ext)" "side_branch E c ext"
        "successively (\<lambda>a b. parent_of a = hash_block E b) (meta_block m # ext)"
        "parent_of (last (meta_block m # ext)) \<in> active_hashes c" "distinct (map (hash_block E) ext)"
        "\<forall>e\<in>set ext. rank (hash_block E e) \<le> rank (parent_of (meta_block m))"
      using Suc.IH [of ?path] by auto
    have "fork_path_loop (Suc n) c path = Inr (path @ meta_block m # ext)"
      using False m ext(1) by (simp add: Let_def)
    moreover have "side_branch E c (meta_block m # ext)"
      using ext(2) m hash False by (auto simp: side_branch_def)
    moreover have "distinct (map (hash_block E) (meta_block m # ext))"
      using ext(5,6) less hash by (auto simp: image_iff)
    moreover have "\<forall>e\<in>set (meta_block m # ext). rank (hash_block E e) \<le> rank ?p"
      using ext(6) less hash by (auto intro: le_trans less_imp_le)
    moreover have "successively (\<lambda>a b. parent_of a = hash_block E b) (last path # meta_block m # ext)"
      using ext(3) hash by simp
    moreover have "parent_of (last (last path # meta_block m # ext)) \<in> active_hashes c" using ext(4) by simp
    ultimately show ?thesis by blast
  qed
qed

text \<open>The fork path in the order the reorganisation connects it.\<close>

definition fork_path :: "env \<Rightarrow> chain \<Rightarrow> block \<Rightarrow> block list \<Rightarrow> hash32 \<Rightarrow> bool" where
  "fork_path E c b path fork_hash \<longleftrightarrow>
     (\<exists>side. path = side @ [b] \<and> side_branch E c side) \<and>
     fork_hash \<in> active_hashes c \<and> parent_of (hd path) = fork_hash \<and>
     successively (\<lambda>a b. parent_of b = hash_block E a) path \<and> distinct (map (hash_block E) path)"

lemma collect_fork_path_ok:
  assumes core: "core_ok E g c" and parent: "map_of (known c) (parent_of b) \<noteq> None"
    and new: "map_of (known c) (hash_block E b) = None"
  obtains path fork_hash where "collect_fork_path c b = Inr (path, fork_hash)" "fork_path E c b path fork_hash"
proof -
  have idx: "index_ok E g (known c)" and act: "active_ok E g c" using core by (auto simp: core_ok_def)
  obtain rank where rank: "index_rank g (known c) rank" using idx by (auto simp: index_ok_def)
  have "rank (parent_of b) < length (known c) + 1"
    using parent index_rankD(1) [OF rank] by fastforce
  then obtain ext where ext: "fork_path_loop (length (known c) + 1) c [b] = Inr ([b] @ ext)" "side_branch E c ext"
      "successively (\<lambda>a b. parent_of a = hash_block E b) (b # ext)" "parent_of (last (b # ext)) \<in> active_hashes c"
      "distinct (map (hash_block E) ext)"
    using fork_path_loop_ok [OF idx rank active_genesis [OF act], of "[b]" "length (known c) + 1"] parent by auto
  have "hash_block E b \<notin> hash_block E ` set ext"
    using ext(2) new by (auto simp: side_branch_def)
  then have dist: "distinct (map (hash_block E) (rev (b # ext)))"
    using ext(5) by (simp add: rev_map [symmetric])
  have "successively (\<lambda>a b. parent_of b = hash_block E a) (rev (b # ext))"
    using ext(3) by (subst successively_rev) (simp add: successively_mono)
  moreover have "hd (rev (b # ext)) = last (b # ext)" by (simp add: hd_rev del: rev.simps)
  moreover have "side_branch E c (rev ext)" using ext(2) by (simp add: side_branch_def)
  ultimately have "fork_path E c b (rev (b # ext)) (parent_of (last (b # ext)))"
    unfolding fork_path_def using ext(4) dist by auto
  moreover have "collect_fork_path c b = Inr (rev (b # ext), parent_of (last (b # ext)))"
    using ext(1) by (simp add: collect_fork_path_def)
  ultimately show thesis using that by blast
qed

section \<open>Disconnecting\<close>

lemma active_prefix:
  assumes "active_ok E g c" "1 < length (blocks c)"
  shows "active_ok E g (c\<lparr>blocks := butlast (blocks c), active_hashes := active_hashes c - {hash_block E (last (blocks c))}\<rparr>)"
proof -
  obtain bs b where split: "blocks c = bs @ [b]"
    using assms(2) by (cases "blocks c" rule: rev_cases) auto
  have ne: "bs \<noteq> []" using assms(2) split by auto
  have a: "hash_block E (hd (blocks c)) = g" "successively (\<lambda>a b. parent_of b = hash_block E a) (bs @ [b])"
    "distinct (map (hash_block E) (bs @ [b]))" "active_hashes c = hash_block E ` set (bs @ [b])"
    "\<forall>b'\<in>set (bs @ [b]). \<exists>m. map_of (known c) (hash_block E b') = Some m \<and> meta_block m = b'"
    using assms(1) unfolding active_ok_def split by blast+
  have "active_hashes c - {hash_block E b} = hash_block E ` set bs" using a(3,4) by auto
  moreover have "successively (\<lambda>a b. parent_of b = hash_block E a) bs" using a(2) by (simp add: successively_append_iff)
  moreover have "hash_block E (hd bs) = g" using a(1) ne by (simp add: split)
  ultimately show ?thesis using ne a(3,5) by (simp add: active_ok_def split)
qed

lemma disconnect_tip_block_ok:
  assumes ok: "core_ok E g c" and len: "1 < length (blocks c)"
  obtains c' where "disconnect_tip_block E c = (Inr (), c')" "chain_ok E g c'" "blocks c' = butlast (blocks c)"
    "known c' = known c" "orphans c' = orphans c" "store c' = store c" "network_time c' = network_time c"
    "active_hashes c' = active_hashes c - {tip_hash E c}"
proof -
  have act: "active_ok E g c" using ok by (simp add: core_ok_def)
  define b where "b = last (blocks c)"
  have tip: "tip_hash E c = hash_block E b" using active_tip(3) [OF act] by (simp add: b_def)
  obtain m where m: "map_of (known c) (hash_block E b) = Some m" using active_tip(1) [OF act] tip by auto
  define c1 where "c1 = c\<lparr>blocks := butlast (blocks c), active_hashes := active_hashes c - {hash_block E b}\<rparr>"
  have act1: "active_ok E g c1" using active_prefix [OF act len] by (simp add: c1_def b_def)
  have "\<forall>b\<in>set (blocks c1). b \<in> set (blocks c)" by (auto simp: c1_def dest: in_set_butlastD)
  then have core1: "core_ok E g c1"
    using ok act1 by (auto simp: core_ok_def orphans_ok_def store_ok_def c1_def)
  obtain pm where pm: "map_of (known c1) (tip_hash E c1) = Some pm" using active_tip(1) [OF act1] by auto
  have ne: "blocks c1 \<noteq> []" using act1 by (simp add: active_ok_def)
  define c' where "c' = snd (disconnect_tip_block E c)"
  have "disconnect_tip_block E c = (Inr (), c') \<and> core_ok E g c' \<and> total_work c' = meta_work pm \<and>
      tip_hash E c' = tip_hash E c1 \<and> blocks c' = butlast (blocks c) \<and>
      known c' = known c \<and> orphans c' = orphans c \<and> store c' = store c \<and> network_time c' = network_time c \<and>
      active_hashes c' = active_hashes c - {hash_block E b}"
  proof -
    have bne: "blocks c \<noteq> []" using len by auto
    have k1: "known c1 = known c" by (simp add: c1_def)
    have tip1: "tip_hash E c1 = hash_block E (last (blocks c1))" using ne by (simp add: tip_hash_def)
    obtain j sq where j: "journal_push (BlockDisconnected (saturating_add (height c1) 1) (hash_block E b)) (event_journal c) = (j, sq)"
      by fastforce
    let ?c' = "c1\<lparr>utxo := foldl disconnect_undo (utxo c1) (rev (meta_undo m)), total_work := meta_work pm,
        event_journal := j, disconnected_journal := dj_record sq b (disconnected_journal c)\<rparr>"
    have "disconnect_tip_block E c = (Inr (), ?c')"
      using bne m pm ne j unfolding disconnect_tip_block_def Let_def b_def [symmetric] c1_def [symmetric] k1 tip1
      by (simp add: c1_def)
    then show ?thesis using core1 unfolding c'_def by (simp add: c1_def)
  qed
  moreover from this have "chain_ok E g c'" using pm by (simp add: chain_ok_def tip_ok_def c1_def)
  ultimately show thesis using that tip by simp
qed

lemma disconnect_until_ok:
  "chain_ok E g c \<Longrightarrow> fh \<in> active_hashes c \<Longrightarrow>
     \<exists>k c'. disconnect_until E fh n c = (Inr k, c') \<and> chain_ok E g c' \<and> tip_hash E c' = fh \<and>
       known c' = known c \<and> orphans c' = orphans c \<and> store c' = store c \<and> network_time c' = network_time c \<and>
       active_hashes c' \<subseteq> active_hashes c \<and> (\<exists>cut. blocks c = blocks c' @ cut)"
proof (induction E fh n c rule: disconnect_until.induct)
  case (1 E fh n c)
  show ?case
  proof (cases "tip_hash E c = fh")
    case True
    then show ?thesis using 1(2) by (subst disconnect_until.simps) auto
  next
    case False
    have act: "active_ok E g c" and core: "core_ok E g c" using 1(2) by (auto simp: chain_ok_def core_ok_def)
    have "fh \<in> hash_block E ` set (blocks c)" using act 1(3) by (simp add: active_ok_def)
    moreover have "fh \<noteq> hash_block E (last (blocks c))" using False active_tip(3) [OF act] by simp
    ultimately have "1 < length (blocks c)"
      using act by (cases "blocks c"; cases "tl (blocks c)") (auto simp: active_ok_def)
    then obtain c1 where c1: "disconnect_tip_block E c = (Inr (), c1)" "chain_ok E g c1" "blocks c1 = butlast (blocks c)"
      "known c1 = known c" "orphans c1 = orphans c" "store c1 = store c" "network_time c1 = network_time c"
      "active_hashes c1 = active_hashes c - {tip_hash E c}"
      using disconnect_tip_block_ok [OF core] by blast
    have "fh \<in> active_hashes c1" using False 1(3) c1(8) by simp
    then obtain k c' where c': "disconnect_until E fh (n + 1) c1 = (Inr k, c')" "chain_ok E g c'" "tip_hash E c' = fh"
        "known c' = known c1" "orphans c' = orphans c1" "store c' = store c1" "network_time c' = network_time c1"
        "active_hashes c' \<subseteq> active_hashes c1" "\<exists>cut. blocks c1 = blocks c' @ cut"
      using 1(1) [OF False c1(1) [symmetric] refl c1(2)] by blast
    have "disconnect_until E fh n c = (Inr k, c')"
      using False c1(1) c'(1) by (subst disconnect_until.simps) simp
    moreover have "\<exists>cut. blocks c = blocks c' @ cut"
    proof -
      have "blocks c = blocks c1 @ [last (blocks c)]" using c1(3) act by (simp add: active_ok_def)
      then show ?thesis using c'(9) by (metis append.assoc)
    qed
    moreover have "active_hashes c' \<subseteq> active_hashes c" using c'(8) c1(8) by auto
    ultimately show ?thesis using c' c1 by auto
  qed
qed

section \<open>Connecting a fork\<close>

lemma active_heights:
  assumes idx: "index_ok E g (known c)" and act: "active_ok E g c"
  shows "i < length (blocks c) \<Longrightarrow>
    \<exists>m. map_of (known c) (hash_block E (blocks c ! i)) = Some m \<and> meta_block m = blocks c ! i \<and> meta_height m = of_nat i"
proof (induction i)
  case 0
  have g: "hash_block E (blocks c ! 0) = g" using act by (auto simp: active_ok_def hd_conv_nth)
  obtain m where m: "map_of (known c) (hash_block E (blocks c ! 0)) = Some m" "meta_block m = blocks c ! 0"
    using act 0 unfolding active_ok_def by (metis nth_mem)
  then show ?case using idx g unfolding index_ok_def by auto
next
  case (Suc i)
  then obtain pm where pm: "map_of (known c) (hash_block E (blocks c ! i)) = Some pm" "meta_height pm = of_nat i"
    by auto
  obtain m where m: "map_of (known c) (hash_block E (blocks c ! Suc i)) = Some m" "meta_block m = blocks c ! Suc i"
    using act Suc.prems unfolding active_ok_def by (metis nth_mem)
  have "parent_of (blocks c ! Suc i) = hash_block E (blocks c ! i)"
    using act Suc.prems by (simp add: active_ok_def successively_conv_nth)
  moreover have "hash_block E (blocks c ! Suc i) \<noteq> g"
  proof -
    let ?hs = "map (hash_block E) (blocks c)"
    have "blocks c \<noteq> []" "distinct ?hs" "hash_block E (hd (blocks c)) = g" using act by (simp_all add: active_ok_def)
    then have "g = ?hs ! 0" "distinct ?hs" "0 < length ?hs" by (simp_all add: hd_conv_nth)
    moreover have "hash_block E (blocks c ! Suc i) = ?hs ! Suc i" "Suc i < length ?hs" using Suc.prems by simp_all
    ultimately show ?thesis by (metis nth_eq_iff_index_eq nat.distinct(1))
  qed
  ultimately have "meta_height m = of_nat i + 1"
    using index_ok_parent [OF idx m(1)] m(2) pm by auto
  then show ?case using m by simp
qed

lemma tip_height:
  assumes "core_ok E g c"
  shows "\<exists>m. map_of (known c) (tip_hash E c) = Some m \<and> meta_block m = last (blocks c) \<and> meta_height m = height c"
proof -
  have act: "active_ok E g c" and idx: "index_ok E g (known c)" using assms by (auto simp: core_ok_def)
  then have ne: "blocks c \<noteq> []" by (simp add: active_ok_def)
  then show ?thesis
    using active_heights [OF idx act, of "length (blocks c) - 1"] active_tip(3) [OF act]
    by (simp add: last_conv_nth height_def)
qed

text \<open>What connecting side blocks may do to the parts a failed reorganisation does not restore.\<close>

definition side_effect :: "env \<Rightarrow> hash32 \<Rightarrow> hash32 set \<Rightarrow> chain \<Rightarrow> chain \<Rightarrow> bool" where
  "side_effect E g A c c' \<longleftrightarrow>
     index_ok E g (known c') \<and> index_extends (known c) (known c') \<and> orphans c' = orphans c \<and>
     network_time c' = network_time c \<and> store_keyed E (store c') \<and>
     (\<forall>h\<in>A. memory_get_block h (store c') = memory_get_block h (store c)) \<and>
     (\<forall>h. map_of (orphans c) h \<noteq> None \<longrightarrow> map_of (known c') h = map_of (known c) h)"

lemma side_effect_refl: "core_ok E g c \<Longrightarrow> side_effect E g A c c"
  by (simp add: side_effect_def core_ok_def store_ok_def)

lemma side_effect_trans: "side_effect E g A a b \<Longrightarrow> side_effect E g A b c \<Longrightarrow> side_effect E g A a c"
  unfolding side_effect_def using index_extends_trans by auto

lemma put_store_Inr: "put_store E b c = Inr (c\<lparr>store := (store c)\<lparr>stored_blocks := (stored_blocks (store c))(hash_block E b \<mapsto> b)\<rparr>\<rparr>)"
  by (simp add: put_store_def memory_put_block_def)

lemma put_store_keyed:
  "store_keyed E s \<Longrightarrow> store_keyed E (s\<lparr>stored_blocks := (stored_blocks s)(hash_block E b \<mapsto> b)\<rparr>)"
  by (auto simp: store_keyed_def memory_get_block_def)

lemma put_store_core:
  assumes "core_ok E g c" "hash_block E b \<notin> active_hashes c" "put_store E b c = Inr c'"
  shows "core_ok E g c'"
proof -
  have s: "c' = c\<lparr>store := (store c)\<lparr>stored_blocks := (stored_blocks (store c))(hash_block E b \<mapsto> b)\<rparr>\<rparr>"
    using assms(3) by (simp add: put_store_Inr)
  have "hash_block E x \<noteq> hash_block E b" if "x \<in> set (blocks c)" for x
  proof -
    have "hash_block E x \<in> active_hashes c" using assms(1) that by (simp add: core_ok_def active_ok_def)
    then show ?thesis using assms(2) by auto
  qed
  then have "store_ok E c'"
    using assms(1) put_store_keyed [of E "store c" b]
    by (auto simp: core_ok_def store_ok_def memory_get_block_def s)
  then show ?thesis using assms(1) by (simp add: core_ok_def active_ok_def orphans_ok_def s)
qed

text \<open>Blocks that can be connected in this order on top of the tip.\<close>

definition connectable :: "env \<Rightarrow> chain \<Rightarrow> block list \<Rightarrow> bool" where
  "connectable E c bs \<longleftrightarrow>
     (bs \<noteq> [] \<longrightarrow> parent_of (hd bs) = tip_hash E c) \<and>
     successively (\<lambda>a b. parent_of b = hash_block E a) bs \<and> distinct (map (hash_block E) bs) \<and>
     (\<forall>b\<in>set bs. hash_block E b \<notin> active_hashes c \<and> map_of (orphans c) (hash_block E b) = None \<and>
        (case map_of (known c) (hash_block E b) of None \<Rightarrow> True | Some m \<Rightarrow> meta_block m = b))"

lemma connect_fork_block_ok:
  assumes core: "core_ok E g c" and con: "connectable E c (b # bs)"
    and A: "hash_block E b \<notin> A" and res: "connect_fork_block E b c = (r, c')"
  shows "side_effect E g A c c' \<and>
    (r = Inr () \<longrightarrow> core_ok E g c' \<and> blocks c' = blocks c @ [b] \<and> connectable E c' bs)"
proof -
  have tip: "parent_of b = tip_hash E c" using con by (simp add: connectable_def)
  let ?h = "hash_block E b"
  obtain tm where tm: "map_of (known c) (tip_hash E c) = Some tm" "meta_height tm = height c"
    using tip_height [OF core] by blast
  have new: "?h \<notin> active_hashes c" "map_of (orphans c) ?h = None"
    "case map_of (known c) ?h of None \<Rightarrow> True | Some m \<Rightarrow> meta_block m = b"
    using con by (auto simp: connectable_def)
  obtain u undo where ap: "apply_block_transactions E b (utxo c) = (u, undo)" by fastforce
  have utxo_only: "side_effect E g A c (c\<lparr>utxo := u\<rparr>)" "side_effect E g A c c"
    using side_effect_refl [OF core, of A] by (simp_all add: side_effect_def)
  show ?thesis
  proof (cases "validate_block_for_parent E c b (if blocks c = [] then None else Some (last (blocks c))) (Some (parent_of b)) (height c + 1)")
    case (Inl e)
    then have "r = Inl e" "c' = c" using res by (simp_all add: connect_fork_block_def Let_def)
    then show ?thesis using utxo_only by simp
  next
    case valid: (Inr _)
    show ?thesis
    proof (cases "block_work (bits (header b))")
      case (Inl e)
      then have "r = Inl e" "c' = c\<lparr>utxo := u\<rparr>" using res valid ap by (simp_all add: connect_fork_block_def Let_def)
      then show ?thesis using utxo_only by simp
    next
      case (Inr bw)
      obtain c2 where c2: "put_store E b (c\<lparr>utxo := u\<rparr>) = Inr c2" by (simp add: put_store_Inr)
      let ?w = "work_add (meta_work tm) bw"
      have res': "r = Inr ()" "c' = push_event (BlockConnected (height c + 1) ?h (length (transactions b)))
          (push_active E b (height c + 1) ?w undo c2)"
        using res valid ap Inr c2 tm tip by (simp_all add: connect_fork_block_def Let_def)
      have c2f: "known c2 = known c" "orphans c2 = orphans c" "blocks c2 = blocks c" "active_hashes c2 = active_hashes c"
        "tip_hash E c2 = tip_hash E c" "network_time c2 = network_time c"
        "stored_blocks (store c2) = (stored_blocks (store c))(?h \<mapsto> b)"
        using c2 by (auto simp: put_store_Inr tip_hash_def)
      have core2: "core_ok E g c2" using put_store_core [OF _ _ c2] core new(1) by simp
      have fits: "fits_index E c2 b (height c + 1) ?w"
        using tm Inr new tip by (auto simp: fits_index_def c2f)
      have st: "memory_get_block ?h (store c2) = Inr (Some b)" by (simp add: memory_get_block_def c2f)
      note push = push_active_ok [OF core2 fits _ st, of undo, unfolded c2f, OF tip]
      have c'f: "blocks c' = blocks c @ [b]" "active_hashes c' = insert ?h (active_hashes c)" "orphans c' = orphans c"
        "store c' = store c2" "network_time c' = network_time c" "tip_hash E c' = ?h"
        "known c' = known (push_active E b (height c + 1) ?w undo c2)"
        "map_of (known c') = (map_of (known c))(?h \<mapsto> \<lparr>meta_block = b, meta_height = height c + 1, meta_work = ?w, meta_undo = undo\<rparr>)"
        by (simp_all add: res' push_active_def Let_def insert_known_def c2f tip_hash_def update_conv')
      have core': "core_ok E g c'" using push(1) by (simp add: res')
      have "side_effect E g A c c'"
        unfolding side_effect_def
      proof (intro conjI allI impI ballI)
        show "index_ok E g (known c')" "store_keyed E (store c')" using core' by (auto simp: core_ok_def store_ok_def)
        show "index_extends (known c) (known c')" using push(2) by (simp add: c'f(7))
        show "memory_get_block h (store c') = memory_get_block h (store c)" if "h \<in> A" for h
          using that A by (auto simp: c'f c2f memory_get_block_def)
        show "map_of (known c') h = map_of (known c) h" if "map_of (orphans c) h \<noteq> None" for h
          using that new(2) by (auto simp: c'f(8))
      qed (simp_all add: c'f)
      moreover have "connectable E c' bs"
        using con unfolding connectable_def c'f(2,3,6,8)
        by (cases bs) (auto simp: image_iff)
      ultimately show ?thesis using core' c'f(1) by simp
    qed
  qed
qed

lemma connect_fork_path_ok:
  "core_ok E g c \<Longrightarrow> connectable E c bs \<Longrightarrow> A \<inter> hash_block E ` set bs = {} \<Longrightarrow>
     connect_fork_path E bs c = (r, c') \<Longrightarrow>
     side_effect E g A c c' \<and> (r = Inr () \<longrightarrow> core_ok E g c' \<and> blocks c' = blocks c @ bs)"
proof (induction bs arbitrary: c)
  case Nil
  then show ?case using side_effect_refl [of E g c A] by auto
next
  case (Cons b bs)
  obtain r1 c1 where one: "connect_fork_block E b c = (r1, c1)" by fastforce
  have s1: "side_effect E g A c c1 \<and> (r1 = Inr () \<longrightarrow> core_ok E g c1 \<and> blocks c1 = blocks c @ [b] \<and> connectable E c1 bs)"
    using connect_fork_block_ok [OF Cons.prems(1,2) _ one, of A] Cons.prems(3) by auto
  show ?case
  proof (cases r1)
    case (Inl e)
    then show ?thesis using Cons.prems(4) one s1 by auto
  next
    case (Inr u)
    then have r1: "r1 = Inr ()" by simp
    then have rest: "connect_fork_path E bs c1 = (r, c')" using Cons.prems(4) one by simp
    have "side_effect E g A c1 c' \<and> (r = Inr () \<longrightarrow> core_ok E g c' \<and> blocks c' = blocks c1 @ bs)"
      using Cons.IH [OF _ _ _ rest] s1 r1 Cons.prems(3) by auto
    then show ?thesis using s1 r1 side_effect_trans [of E g A c c1 c'] by auto
  qed
qed

text \<open>What the restoring branch of \<open>reorg_to_block\<close> gives.\<close>

lemma restore_ok:
  assumes ok: "chain_ok E g c" and eff: "side_effect E g (active_hashes c) c c'"
  shows "chain_ok E g (c'\<lparr>blocks := blocks c, utxo := u, total_work := total_work c, active_hashes := active_hashes c\<rparr>)"
    (is "chain_ok E g ?r")
proof -
  have core: "core_ok E g c" and act: "active_ok E g c" using ok by (auto simp: chain_ok_def core_ok_def)
  have ext: "index_extends (known c) (known c')" and orph: "orphans c' = orphans c"
    and keep: "\<forall>h. map_of (orphans c) h \<noteq> None \<longrightarrow> map_of (known c') h = map_of (known c) h"
    and st: "\<forall>h\<in>active_hashes c. memory_get_block h (store c') = memory_get_block h (store c)"
    and keyed: "store_keyed E (store c')"
    using eff unfolding side_effect_def by blast+
  have "active_ok E g ?r" using active_ok_index [OF act ext] by (simp add: active_ok_def)
  moreover have "index_ok E g (known ?r)" using eff by (simp add: side_effect_def)
  moreover have "orphans_ok E ?r"
  proof -
    have o: "orphans_ok E c" using core by (simp add: core_ok_def)
    have "map_of (known c') h = None" if "map_of (orphans c) h = Some e" for h e
      using o keep that unfolding orphans_ok_def by auto
    then show ?thesis using o by (simp add: orphans_ok_def orph)
  qed
  moreover have "store_ok E ?r"
  proof -
    have "\<forall>b\<in>set (blocks c). memory_get_block (hash_block E b) (store c) = Inr (Some b)"
      using core by (simp add: core_ok_def store_ok_def)
    moreover have "\<forall>b\<in>set (blocks c). hash_block E b \<in> active_hashes c" using act by (simp add: active_ok_def)
    ultimately show ?thesis using st keyed by (simp add: store_ok_def)
  qed
  moreover have "tip_ok E ?r"
    by (rule tip_ok_index [of E c]) (use ok ext in \<open>simp_all add: chain_ok_def tip_hash_def\<close>)
  ultimately show ?thesis by (simp add: chain_ok_def core_ok_def)
qed

lemma reorg_connectable:
  assumes ok: "chain_ok E g c" and path: "fork_path E c b path fh"
    and new: "map_of (known c) (hash_block E b) = None" "map_of (orphans c) (hash_block E b) = None"
    and dis: "disconnect_until E fh 0 c = (Inr k, c1)"
  shows "connectable E c1 path" "active_hashes c \<inter> hash_block E ` set path = {}"
proof -
  have core: "core_ok E g c" and act: "active_ok E g c" using ok by (auto simp: chain_ok_def core_ok_def)
  have fh: "fh \<in> active_hashes c" using path by (simp add: fork_path_def)
  have c1: "tip_hash E c1 = fh" "known c1 = known c" "orphans c1 = orphans c" "active_hashes c1 \<subseteq> active_hashes c"
    using disconnect_until_ok [OF ok fh, of 0] dis by auto
  obtain side where side: "path = side @ [b]" "side_branch E c side" using path by (auto simp: fork_path_def)
  have inactive: "\<forall>e\<in>set path. hash_block E e \<notin> active_hashes c"
    using side new(1) active_known [OF act, of "hash_block E b"] by (auto simp: side_branch_def)
  have orph: "\<forall>e\<in>set path. map_of (orphans c) (hash_block E e) = None"
  proof
    fix e assume "e \<in> set path"
    show "map_of (orphans c) (hash_block E e) = None"
    proof (cases "e = b")
      case True
      then show ?thesis using new by simp
    next
      case False
      then have "map_of (known c) (hash_block E e) \<noteq> None" using side \<open>e \<in> set path\<close> by (auto simp: side_branch_def)
      then show ?thesis using core by (cases "map_of (orphans c) (hash_block E e)") (auto simp: core_ok_def orphans_ok_def)
    qed
  qed
  have same: "\<forall>e\<in>set path. case map_of (known c) (hash_block E e) of None \<Rightarrow> True | Some m \<Rightarrow> meta_block m = e"
    using side new(1) by (auto simp: side_branch_def split: option.split)
  show "connectable E c1 path"
    using path inactive orph same c1 by (auto simp: connectable_def fork_path_def)
  show "active_hashes c \<inter> hash_block E ` set path = {}" using inactive by auto
qed

lemma try_reorg_to_block_ok:
  assumes ok: "chain_ok E g c" and path: "fork_path E c b path fh"
    and new: "map_of (known c) (hash_block E b) = None" "map_of (orphans c) (hash_block E b) = None"
    and parent: "map_of (known c) (parent_of b) = Some pm" and bw: "block_work (bits (header b)) = Inr bw"
    and res: "try_reorg_to_block E path fh (work_add (meta_work pm) bw) c = (r, c')"
  shows "side_effect E g (active_hashes c) c c' \<and>
    (\<forall>d. r = Inr d \<longrightarrow> chain_ok E g c' \<and> total_work c' = work_add (meta_work pm) bw \<and> tip_hash E c' = hash_block E b \<and>
       (\<exists>kept cut. blocks c = kept @ cut \<and> blocks c' = kept @ path))"
proof -
  have core: "core_ok E g c" and act: "active_ok E g c" using ok by (auto simp: chain_ok_def core_ok_def)
  have fh: "fh \<in> active_hashes c" using path by (simp add: fork_path_def)
  obtain fm where "map_of (known c) fh = Some fm" using active_known [OF act fh] by blast
  then obtain hgt where hgt: "find_height c fh = Some hgt" by (simp add: find_height_def)
  obtain k c1 where c1: "disconnect_until E fh 0 c = (Inr k, c1)" "chain_ok E g c1" "tip_hash E c1 = fh"
      "known c1 = known c" "orphans c1 = orphans c" "store c1 = store c" "network_time c1 = network_time c"
      "active_hashes c1 \<subseteq> active_hashes c" "\<exists>cut. blocks c = blocks c1 @ cut"
    using disconnect_until_ok [OF ok fh, of 0] by blast
  obtain side where side: "path = side @ [b]" using path by (auto simp: fork_path_def)
  note con = reorg_connectable [OF ok path new c1(1)]
  obtain r2 c2 where c2: "connect_fork_path E path c1 = (r2, c2)" by fastforce
  have eff1: "side_effect E g (active_hashes c) c c1"
    using c1 core by (auto simp: side_effect_def core_ok_def store_ok_def chain_ok_def)
  have s2: "side_effect E g (active_hashes c) c1 c2 \<and> (r2 = Inr () \<longrightarrow> core_ok E g c2 \<and> blocks c2 = blocks c1 @ path)"
    using connect_fork_path_ok [where g = g and A = "active_hashes c", OF _ con(1) con(2) c2] c1(2) by (simp add: chain_ok_def)
  have eff: "side_effect E g (active_hashes c) c c2" using side_effect_trans [OF eff1] s2 by blast
  show ?thesis
  proof (cases r2)
    case (Inl e)
    then show ?thesis using res hgt c1(1) c2 eff by (auto simp: try_reorg_to_block_def)
  next
    case (Inr u)
    then have r: "r = Inr k" "c' = c2\<lparr>total_work := work_add (meta_work pm) bw\<rparr>" and core2: "core_ok E g c2"
      and bl: "blocks c2 = blocks c1 @ path"
      using res hgt c1(1) c2 s2 by (auto simp: try_reorg_to_block_def)
    have tip2: "tip_hash E c2 = hash_block E b" using bl side by (simp add: tip_hash_def)
    obtain m where m: "map_of (known c2) (hash_block E b) = Some m" "meta_block m = b"
      using active_tip(1) [of E g c2] core2 tip2 bl side by (auto simp: core_ok_def)
    have "hash_block E b \<noteq> g" using con(2) side active_genesis [OF act] by auto
    then obtain pm2 bw2 where pm2: "map_of (known c2) (parent_of b) = Some pm2"
        "block_work (bits (header b)) = Inr bw2" "meta_work m = work_add (meta_work pm2) bw2"
      using index_ok_parent [of E g "known c2", OF _ m(1)] core2 m(2) by (auto simp: core_ok_def)
    have "meta_work pm2 = meta_work pm"
      using eff index_extendsD [OF _ parent, of "known c2"] pm2(1) by (auto simp: side_effect_def)
    then have "tip_ok E c'" using m pm2 bw tip2 by (simp add: tip_ok_def r)
    moreover have "side_effect E g (active_hashes c) c c'" using eff by (simp add: r side_effect_def)
    moreover have "\<exists>kept cut. blocks c = kept @ cut \<and> blocks c' = kept @ path" using c1(9) bl r by auto
    ultimately show ?thesis using core2 tip2 by (simp add: r chain_ok_def)
  qed
qed

lemma reorg_to_block_ok:
  assumes ok: "chain_ok E g c"
    and new: "map_of (known c) (hash_block E b) = None" "map_of (orphans c) (hash_block E b) = None"
    and parent: "map_of (known c) (parent_of b) = Some pm" and bw: "block_work (bits (header b)) = Inr bw"
    and res: "reorg_to_block E b (work_add (meta_work pm) bw) c = (r, c')"
  shows "chain_ok E g c' \<and> side_effect E g (active_hashes c) c c' \<and>
    (case r of
       Inl e \<Rightarrow> blocks c' = blocks c \<and> utxo c' = utxo c \<and> total_work c' = total_work c \<and> active_hashes c' = active_hashes c
     | Inr d \<Rightarrow> total_work c' = work_add (meta_work pm) bw \<and> tip_hash E c' = hash_block E b \<and>
         (\<exists>kept cut path. blocks c = kept @ cut \<and> blocks c' = kept @ path \<and> fork_path E c b path (parent_of (hd path))))"
proof -
  have core: "core_ok E g c" using ok by (simp add: chain_ok_def)
  obtain path fh where path: "collect_fork_path c b = Inr (path, fh)" "fork_path E c b path fh"
    using collect_fork_path_ok [OF core _ new(1)] parent by auto
  have fh: "parent_of (hd path) = fh" using path(2) by (simp add: fork_path_def)
  obtain r1 c1 where try1: "try_reorg_to_block E path fh (work_add (meta_work pm) bw) c = (r1, c1)" by fastforce
  note t = try_reorg_to_block_ok [OF ok path(2) new parent bw try1]
  show ?thesis
  proof (cases r1)
    case (Inl e)
    then have r: "r = Inl e" "c' = c1\<lparr>blocks := blocks c, utxo := utxo c, total_work := total_work c, active_hashes := active_hashes c\<rparr>"
      using res path(1) try1 by (simp_all add: reorg_to_block_def)
    have eff: "side_effect E g (active_hashes c) c c1" using t by blast
    then have "side_effect E g (active_hashes c) c c'" by (simp add: r side_effect_def)
    then show ?thesis using restore_ok [OF ok eff] r by simp
  next
    case (Inr d)
    then have "r = Inr d" "c' = c1" using res path(1) try1 by (simp_all add: reorg_to_block_def)
    then show ?thesis using t Inr path(2) fh by auto
  qed
qed

section \<open>Connecting a block\<close>

text \<open>The processing of orphans comes last: the rest of \<open>connect_block_inner\<close> does not depend on it.\<close>

definition processes_orphans :: "connect_result \<Rightarrow> bool" where
  "processes_orphans res = (case res of Connected _ _ \<Rightarrow> True | Reorganized _ _ \<Rightarrow> True | _ \<Rightarrow> False)"

text \<open>Everything up to the decision between extending, keeping aside and reorganising.\<close>

definition connect_step :: "env \<Rightarrow> block \<Rightarrow> u32 \<Rightarrow> chain_work \<Rightarrow> chain \<Rightarrow> (chain_error + connect_result) \<times> chain" where
  "connect_step E b hgt work c =
     (let h = hash_block E b in
      if parent_of b = tip_hash E c then
        (case apply_block_transactions E b (utxo c) of
           (u, undo) \<Rightarrow>
             (case put_store E b (c\<lparr>utxo := u\<rparr>) of
                Inl e \<Rightarrow> (Inl e, c\<lparr>utxo := u\<rparr>)
              | Inr c1 \<Rightarrow>
                  (Inr (Connected hgt h),
                   push_event (BlockConnected hgt h (length (transactions b)))
                     ((push_active E b hgt work undo c1)\<lparr>total_work := work\<rparr>))))
      else if work \<le> total_work c then
        (Inr (SideChain hgt h),
         insert_known h \<lparr>meta_block = b, meta_height = hgt, meta_work = work, meta_undo = []\<rparr> c)
      else
        (case reorg_to_block E b work c of
           (Inl e, c1) \<Rightarrow> (Inl e, c1)
         | (Inr depth, c1) \<Rightarrow>
             (Inr (Reorganized (tip_hash E c) (tip_hash E c1)),
              push_event (ChainReorg depth (tip_hash E c) (tip_hash E c1)) c1)))"

definition then_orphans ::
  "(chain \<Rightarrow> (chain_error + unit) \<times> chain) \<Rightarrow> (chain_error + connect_result) \<times> chain \<Rightarrow> (chain_error + connect_result) \<times> chain" where
  "then_orphans after p =
     (case p of
        (Inl e, c1) \<Rightarrow> (Inl e, c1)
      | (Inr res, c1) \<Rightarrow>
          if processes_orphans res
          then (case after c1 of (Inl e, c2) \<Rightarrow> (Inl e, c2) | (Inr _, c2) \<Rightarrow> (Inr res, c2))
          else (Inr res, c1))"

lemma then_orphans_simps [simp]:
  "then_orphans after (Inl e, c1) = (Inl e, c1)"
  "then_orphans after (Inr (Orphaned h), c1) = (Inr (Orphaned h), c1)"
  "then_orphans after (Inr (SideChain n h), c1) = (Inr (SideChain n h), c1)"
  "then_orphans after (Inr (Connected n h), c1) =
     (case after c1 of (Inl e, c2) \<Rightarrow> (Inl e, c2) | (Inr _, c2) \<Rightarrow> (Inr (Connected n h), c2))"
  "then_orphans after (Inr (Reorganized h k), c1) =
     (case after c1 of (Inl e, c2) \<Rightarrow> (Inl e, c2) | (Inr _, c2) \<Rightarrow> (Inr (Reorganized h k), c2))"
  by (simp_all add: then_orphans_def processes_orphans_def)

lemma then_orphans_none [simp]: "then_orphans no_orphans p = p"
  by (simp add: then_orphans_def no_orphans_def split: prod.split sum.split)

lemma if_then_orphans: "(if P then then_orphans a x else then_orphans a y) = then_orphans a (if P then x else y)"
  by simp

lemma connect_block_inner_step:
  "connect_block_inner E after b c =
     (case validate_block_limits b of
        Inl e \<Rightarrow> (Inl e, c)
      | Inr _ \<Rightarrow>
          if map_of (known c) (hash_block E b) \<noteq> None \<or> map_of (orphans c) (hash_block E b) \<noteq> None
          then (Inl BlockAlreadyKnown, c)
          else
            (case map_of (known c) (parent_of b) of
               None \<Rightarrow> (Inr (Orphaned (hash_block E b)), insert_orphan E b c)
             | Some pm \<Rightarrow>
                 (case validate_block_for_parent E c b (Some (meta_block pm)) (Some (parent_of b)) (meta_height pm + 1) of
                    Inl e \<Rightarrow> (Inl e, c)
                  | Inr _ \<Rightarrow>
                      (case block_work (bits (header b)) of
                         Inl e \<Rightarrow> (Inl e, c)
                       | Inr bw \<Rightarrow>
                           then_orphans after (connect_step E b (meta_height pm + 1) (work_add (meta_work pm) bw) c)))))"
proof -
  have step: "(if parent_of b = tip_hash E c then
      (case apply_block_transactions E b (utxo c) of
         (u, undo) \<Rightarrow>
           (case put_store E b (c\<lparr>utxo := u\<rparr>) of
              Inl e \<Rightarrow> (Inl e, c\<lparr>utxo := u\<rparr>)
            | Inr c1 \<Rightarrow>
                (case after (push_event (BlockConnected hgt (hash_block E b) (length (transactions b)))
                        ((push_active E b hgt w undo c1)\<lparr>total_work := w\<rparr>)) of
                   (Inl e, c2) \<Rightarrow> (Inl e, c2)
                 | (Inr _, c2) \<Rightarrow> (Inr (Connected hgt (hash_block E b)), c2))))
    else if w \<le> total_work c then
      (Inr (SideChain hgt (hash_block E b)),
       insert_known (hash_block E b) \<lparr>meta_block = b, meta_height = hgt, meta_work = w, meta_undo = []\<rparr> c)
    else
      (case reorg_to_block E b w c of
         (Inl e, c1) \<Rightarrow> (Inl e, c1)
       | (Inr depth, c1) \<Rightarrow>
           (case after (push_event (ChainReorg depth (tip_hash E c) (tip_hash E c1)) c1) of
              (Inl e, c2) \<Rightarrow> (Inl e, c2)
            | (Inr _, c2) \<Rightarrow> (Inr (Reorganized (tip_hash E c) (tip_hash E c1)), c2))))
    = then_orphans after (connect_step E b hgt w c)" for hgt w
  proof -
    obtain u undo where a: "apply_block_transactions E b (utxo c) = (u, undo)" by fastforce
    obtain r c1 where r: "reorg_to_block E b w c = (r, c1)" by fastforce
    show ?thesis by (cases r) (simp_all add: connect_step_def Let_def a r put_store_Inr)
  qed
  show ?thesis by (simp only: connect_block_inner_def Let_def step)
qed

lemma connect_block_inner_after:
  "connect_block_inner E after b c = then_orphans after (connect_without_orphans E b c)"
  unfolding connect_without_orphans_def connect_block_inner_step then_orphans_none
  by (simp add: sum.case_distrib [of "then_orphans after"] option.case_distrib [of "then_orphans after"]
      if_distrib [of "then_orphans after"] cong: sum.case_cong option.case_cong)

text \<open>What one block does to the chain, by the result of \<open>connect_block_inner\<close>.\<close>

definition connect_outcome :: "env \<Rightarrow> block \<Rightarrow> chain \<Rightarrow> chain_error + connect_result \<Rightarrow> chain \<Rightarrow> bool" where
  "connect_outcome E b c r c' \<longleftrightarrow>
     (case r of
        Inl e \<Rightarrow> blocks c' = blocks c \<and> utxo c' = utxo c \<and> total_work c' = total_work c \<and>
          active_hashes c' = active_hashes c \<and> orphans c' = orphans c
      | Inr (Orphaned h) \<Rightarrow> h = hash_block E b \<and> map_of (known c) (parent_of b) = None \<and> c' = insert_orphan E b c
      | Inr (SideChain hgt h) \<Rightarrow> h = hash_block E b \<and> blocks c' = blocks c \<and> utxo c' = utxo c \<and>
          total_work c' = total_work c \<and> orphans c' = orphans c \<and>
          (\<exists>m. map_of (known c') h = Some m \<and> meta_block m = b \<and> meta_height m = hgt \<and> meta_work m \<le> total_work c)
      | Inr (Connected hgt h) \<Rightarrow> h = hash_block E b \<and> blocks c' = blocks c @ [b] \<and> parent_of b = tip_hash E c \<and>
          hgt = height c' \<and> utxo c' = fst (apply_block_transactions E b (utxo c)) \<and> orphans c' = orphans c \<and>
          (\<exists>m. map_of (known c') h = Some m \<and> meta_undo m = snd (apply_block_transactions E b (utxo c))) \<and>
          (\<exists>bw. block_work (bits (header b)) = Inr bw \<and> total_work c' = work_add (total_work c) bw) \<and>
          (\<exists>pm. validate_block_for_parent E c b (Some pm) (Some (parent_of b)) hgt = Inr ())
      | Inr (Reorganized old_tip new_tip) \<Rightarrow> old_tip = tip_hash E c \<and> new_tip = hash_block E b \<and>
          tip_hash E c' = new_tip \<and> total_work c < total_work c' \<and> orphans c' = orphans c \<and>
          (\<exists>kept cut path. blocks c = kept @ cut \<and> blocks c' = kept @ path \<and> fork_path E c b path (parent_of (hd path))))"

lemma side_effect_orphans: "side_effect E g A c c' \<Longrightarrow> orphans c' = orphans c"
  by (simp add: side_effect_def)

lemma connect_step_ok:
  assumes ok: "chain_ok E g c"
    and new: "map_of (known c) (hash_block E b) = None" "map_of (orphans c) (hash_block E b) = None"
    and parent: "map_of (known c) (parent_of b) = Some pm" and bw: "block_work (bits (header b)) = Inr bw"
    and valid: "validate_block_for_parent E c b (Some (meta_block pm)) (Some (parent_of b)) (meta_height pm + 1) = Inr ()"
    and res: "connect_step E b (meta_height pm + 1) (work_add (meta_work pm) bw) c = (r, c')"
  shows "chain_ok E g c' \<and> index_extends (known c) (known c') \<and> connect_outcome E b c r c'"
proof -
  have core: "core_ok E g c" and act: "active_ok E g c" using ok by (auto simp: chain_ok_def core_ok_def)
  let ?h = "hash_block E b" and ?hgt = "meta_height pm + 1"
  let ?w = "work_add (meta_work pm) bw"
  have inactive: "?h \<notin> active_hashes c" using new(1) active_known [OF act] by fastforce
  have fits: "fits_index E c b ?hgt ?w" using parent bw new inactive by (simp add: fits_index_def)
  consider "parent_of b = tip_hash E c" | "parent_of b \<noteq> tip_hash E c" "?w \<le> total_work c"
    | "parent_of b \<noteq> tip_hash E c" "\<not> ?w \<le> total_work c" by blast
  then show ?thesis
  proof cases
    case 1
    obtain u undo where ap: "apply_block_transactions E b (utxo c) = (u, undo)" by fastforce
    obtain c1 where put: "put_store E b (c\<lparr>utxo := u\<rparr>) = Inr c1"
      and c1: "blocks c1 = blocks c" "known c1 = known c" "orphans c1 = orphans c" "active_hashes c1 = active_hashes c"
        "utxo c1 = u" "memory_get_block ?h (store c1) = Inr (Some b)"
      by (simp add: put_store_Inr memory_get_block_def)
    have core1: "core_ok E g c1" using put_store_core [OF _ _ put] core inactive by simp
    have fits1: "fits_index E c1 b ?hgt ?w" using fits c1 by (simp add: fits_index_def)
    have tip1: "tip_hash E c1 = tip_hash E c" using c1 by (simp add: tip_hash_def)
    note push = push_active_ok [OF core1 fits1 _ c1(6), of undo, unfolded tip1, OF 1]
    define c2 where "c2 = push_active E b ?hgt ?w undo c1"
    have c2: "blocks c2 = blocks c @ [b]" "utxo c2 = u" "orphans c2 = orphans c"
      using c1 by (simp_all add: c2_def push_active_def insert_known_def Let_def)
    have r: "r = Inr (Connected ?hgt ?h)"
      "c' = push_event (BlockConnected ?hgt ?h (length (transactions b))) (c2\<lparr>total_work := ?w\<rparr>)"
      using res 1 by (simp_all add: connect_step_def Let_def ap put c2_def)
    obtain tm where tm: "map_of (known c) (tip_hash E c) = Some tm" "meta_height tm = height c"
      using tip_height [OF core] by blast
    have pm: "pm = tm" using tm parent 1 by simp
    have "total_work c = meta_work pm" using ok parent 1 by (simp add: chain_ok_def tip_ok_def)
    moreover have tip2: "tip_hash E c2 = ?h" using c2 by (simp add: tip_hash_def)
    moreover have "tip_ok E (c2\<lparr>total_work := ?w\<rparr>)" using push(3) by (simp add: tip_ok_def c2_def)
    moreover have "?hgt = height c'"
      using act by (cases "blocks c") (simp_all add: r c2 height_def pm tm(2) active_ok_def)
    moreover have "blocks c' = blocks c @ [b]" "utxo c' = u" "orphans c' = orphans c" "total_work c' = ?w"
      "known c' = known c2" by (simp_all add: r(2) c2)
    moreover have "map_of (known c2) ?h = Some \<lparr>meta_block = b, meta_height = ?hgt, meta_work = ?w, meta_undo = undo\<rparr>"
      using push(3) tip2 by (simp add: c2_def)
    moreover have "\<exists>p. validate_block_for_parent E c b (Some p) (Some (parent_of b)) ?hgt = Inr ()" using valid by blast
    ultimately have out: "connect_outcome E b c r c'"
      using 1 bw ap by (simp add: connect_outcome_def r(1))
    have "chain_ok E g c'"
      using push(1) \<open>tip_ok E (c2\<lparr>total_work := ?w\<rparr>)\<close> unfolding chain_ok_def r(2) push_event_fields core_ok_fields c2_def by blast
    moreover have "index_extends (known c) (known c')"
      using push(2) \<open>known c' = known c2\<close> unfolding c2_def c1(2) by simp
    ultimately show ?thesis using out by blast
  next
    case 2
    have r: "r = Inr (SideChain ?hgt ?h)"
        "c' = insert_known ?h \<lparr>meta_block = b, meta_height = ?hgt, meta_work = ?w, meta_undo = []\<rparr> c"
      using res 2 by (simp_all add: connect_step_def Let_def)
    note ins = insert_known_ok [OF core fits, of "[]", folded r(2)]
    have "tip_hash E c' = tip_hash E c" "total_work c' = total_work c" by (simp_all add: r(2) insert_known_def)
    moreover have "tip_ok E c" using ok by (simp only: chain_ok_def)
    ultimately have "tip_ok E c'" using tip_ok_index ins(2) by blast
    moreover have "blocks c' = blocks c" "utxo c' = utxo c" "total_work c' = total_work c" "orphans c' = orphans c"
      "map_of (known c') ?h = Some \<lparr>meta_block = b, meta_height = ?hgt, meta_work = ?w, meta_undo = []\<rparr>"
      by (simp_all add: r(2) insert_known_def update_conv')
    ultimately show ?thesis using ins 2(2) by (simp add: connect_outcome_def r(1) chain_ok_def)
  next
    case 3
    obtain r1 c1 where reorg: "reorg_to_block E b ?w c = (r1, c1)" by fastforce
    note t = reorg_to_block_ok [OF ok new parent bw reorg]
    show ?thesis
    proof (cases r1)
      case (Inl e)
      then have "r = Inl e" "c' = c1" using res 3 reorg by (simp_all add: connect_step_def)
      then show ?thesis using t Inl by (simp add: connect_outcome_def side_effect_def)
    next
      case (Inr d)
      then have r: "r = Inr (Reorganized (tip_hash E c) (tip_hash E c1))"
          "c' = push_event (ChainReorg d (tip_hash E c) (tip_hash E c1)) c1"
        using res 3 reorg by (simp_all add: connect_step_def)
      have "total_work c < total_work c1" using t Inr 3(2) by simp
      then show ?thesis using t Inr by (auto simp: connect_outcome_def side_effect_def r)
    qed
  qed
qed

lemma connect_without_orphans_cases [consumes 1]:
  assumes res: "connect_without_orphans E b c = (r, c')"
  obtains (bad) e where "r = Inl e" "c' = c"
    | (orphan) "map_of (known c) (hash_block E b) = None" "map_of (known c) (parent_of b) = None"
        "r = Inr (Orphaned (hash_block E b))" "c' = insert_orphan E b c"
    | (step) pm bw where "map_of (known c) (hash_block E b) = None" "map_of (orphans c) (hash_block E b) = None"
        "map_of (known c) (parent_of b) = Some pm" "block_work (bits (header b)) = Inr bw"
        "validate_block_for_parent E c b (Some (meta_block pm)) (Some (parent_of b)) (meta_height pm + 1) = Inr ()"
        "connect_step E b (meta_height pm + 1) (work_add (meta_work pm) bw) c = (r, c')"
proof -
  note run = res [unfolded connect_without_orphans_def connect_block_inner_step then_orphans_none]
  show thesis
  proof (cases "validate_block_limits b")
    case (Inl e)
    show thesis by (rule bad [of e]) (use run Inl in simp_all)
  next
    case lim: (Inr u)
    show thesis
    proof (cases "map_of (known c) (hash_block E b) \<noteq> None \<or> map_of (orphans c) (hash_block E b) \<noteq> None")
      case True
      then have "(r, c') = (Inl BlockAlreadyKnown, c)" using run lim by (simp only: sum.case if_True)
      then show thesis using bad by blast
    next
      case False
      then have new: "map_of (known c) (hash_block E b) = None" "map_of (orphans c) (hash_block E b) = None" by simp_all
      show thesis
      proof (cases "map_of (known c) (parent_of b)")
        case None
        show thesis by (rule orphan) (use run lim new None in simp_all)
      next
        case pm: (Some pm)
        show thesis
        proof (cases "validate_block_for_parent E c b (Some (meta_block pm)) (Some (parent_of b)) (meta_height pm + 1)")
          case (Inl e)
          show thesis by (rule bad [of e]) (use run lim new pm Inl in simp_all)
        next
          case valid: (Inr u)
          show thesis
          proof (cases "block_work (bits (header b))")
            case (Inl e)
            show thesis by (rule bad [of e]) (use run lim new pm valid Inl in simp_all)
          next
            case (Inr bw)
            show thesis by (rule step) (use run lim new pm valid Inr in simp_all)
          qed
        qed
      qed
    qed
  qed
qed

lemma connect_without_orphans_ok:
  assumes ok: "chain_ok E g c" and res: "connect_without_orphans E b c = (r, c')"
  shows "chain_ok E g c' \<and> index_extends (known c) (known c') \<and> connect_outcome E b c r c'"
proof -
  have core: "core_ok E g c" using ok by (simp add: chain_ok_def)
  have stay: "chain_ok E g c \<and> index_extends (known c) (known c) \<and> connect_outcome E b c (Inl e) c" for e
    using ok by (simp add: connect_outcome_def)
  show ?thesis using res
  proof (cases rule: connect_without_orphans_cases)
    case bad
    then show ?thesis using stay by simp
  next
    case orphan
    have "chain_ok E g (insert_orphan E b c)"
      using insert_orphan_ok [OF core orphan(1)] ok by (simp add: chain_ok_def tip_ok_def)
    then show ?thesis using orphan by (simp add: connect_outcome_def)
  next
    case step
    then show ?thesis using connect_step_ok [OF ok] by blast
  qed
qed

end
