(* ===== verification/ChainProps.thy ===== *)
theory ChainProps
  imports ChainInv
begin

text \<open>
  What \<open>connect_block\<close> guarantees: the invariant over every history of calls, termination of the
  orphan queue, the most-work rule.
\<close>

section \<open>Validation never runs out of turns\<close>

lemma validate_block_limits_no_fuel: "validate_block_limits b \<noteq> Inl OutOfFuel"
  by (simp add: validate_block_limits_def)

lemma block_work_no_fuel: "block_work bts \<noteq> Inl OutOfFuel"
  by (auto simp: block_work_def and_then_def ok_or_def split: option.splits sum.splits)

lemma header_no_fuel: "validate_block_header_for_parent E idx bs nt b p ph h \<noteq> Inl OutOfFuel"
  unfolding validate_block_header_for_parent_def expected_bits_def Let_def
  by (auto simp: and_then_def ok_or_def map_err_def split: option.splits sum.splits if_splits)

lemma mark_spent_no_fuel: "mark_spent ins spent \<noteq> Inl OutOfFuel"
  by (induction ins spent rule: mark_spent.induct) auto

lemma collect_prev_scripts_no_fuel: "collect_prev_scripts view ins \<noteq> Inl OutOfFuel"
  by (induction view ins rule: collect_prev_scripts.induct)
    (auto simp: and_then_def split: option.splits sum.splits)

lemma verify_inputs_no_fuel: "verify_inputs E tx ps k ins \<noteq> Inl OutOfFuel"
  by (induction E tx ps k ins rule: verify_inputs.induct)
    (auto simp: and_then_def map_err_def split: sum.splits)

lemma validate_txs_no_fuel: "validate_txs E txs st \<noteq> Inl OutOfFuel"
proof (induction E txs st rule: validate_txs.induct)
  case (2 E tx txs st)
  have "validate_tx_step E tx st \<noteq> Inl OutOfFuel"
    using mark_spent_no_fuel collect_prev_scripts_no_fuel verify_inputs_no_fuel
    by (auto simp: validate_tx_step_def and_then_def map_err_def split: prod.splits sum.splits if_splits)
  then show ?case using 2 by (auto simp: and_then_def split: sum.splits)
qed simp

lemma validate_no_fuel: "validate_block_for_parent E c b p ph h \<noteq> Inl OutOfFuel"
  using header_no_fuel validate_txs_no_fuel
  by (auto simp: validate_block_for_parent_def validate_block_transactions_for_utxo_def and_then_def split: sum.splits)

lemma disconnect_until_no_fuel: "disconnect_until E fh n c = (Inl e, c') \<Longrightarrow> e \<noteq> OutOfFuel"
proof (induction E fh n c rule: disconnect_until.induct)
  case (1 E fh n c)
  show ?case
  proof (cases "tip_hash E c = fh")
    case True
    then show ?thesis using 1(2) by (simp add: disconnect_until.simps)
  next
    case False
    obtain r c1 where d: "disconnect_tip_block E c = (r, c1)" by fastforce
    show ?thesis
    proof (cases r)
      case (Inl e1)
      then have "e = e1" using 1(2) False d by (simp add: disconnect_until.simps [of E fh n c])
      then show ?thesis using d Inl
        by (auto simp: disconnect_tip_block_def Let_def split: if_splits option.splits prod.splits)
    next
      case (Inr u)
      then have "disconnect_until E fh (n + 1) c1 = (Inl e, c')"
        using 1(2) False d by (simp add: disconnect_until.simps [of E fh n c])
      then show ?thesis using 1(1) [OF False d [symmetric] Inr] by simp
    qed
  qed
qed

lemma connect_fork_path_no_fuel: "connect_fork_path E bs c = (Inl e, c') \<Longrightarrow> e \<noteq> OutOfFuel"
proof (induction bs arbitrary: c)
  case (Cons b bs)
  have one: "connect_fork_block E b c = (Inl e1, c1) \<Longrightarrow> e1 \<noteq> OutOfFuel" for e1 c1
    using validate_no_fuel block_work_no_fuel
    by (auto simp: connect_fork_block_def Let_def put_store_Inr split: sum.splits prod.splits)
  obtain r c1 where "connect_fork_block E b c = (r, c1)" by fastforce
  then show ?case using Cons one by (cases r) auto
qed simp

lemma reorg_to_block_no_fuel:
  assumes core: "core_ok E g c" and new: "map_of (known c) (hash_block E b) = None"
    and parent: "map_of (known c) (parent_of b) \<noteq> None" and res: "reorg_to_block E b w c = (Inl e, c')"
  shows "e \<noteq> OutOfFuel"
proof -
  obtain path fh where "collect_fork_path c b = Inr (path, fh)"
    using collect_fork_path_ok [OF core parent new] by blast
  then show ?thesis using res disconnect_until_no_fuel connect_fork_path_no_fuel
    by (auto simp: reorg_to_block_def try_reorg_to_block_def split: prod.splits sum.splits option.splits)
qed

lemma connect_without_orphans_no_fuel:
  assumes ok: "chain_ok E g c" and res: "connect_without_orphans E b c = (Inl e, c')"
  shows "e \<noteq> OutOfFuel"
proof -
  have core: "core_ok E g c" using ok by (simp add: chain_ok_def)
  have step: "e \<noteq> OutOfFuel" if "connect_step E b hgt w c = (Inl e, c')"
      "map_of (known c) (hash_block E b) = None" "map_of (known c) (parent_of b) \<noteq> None" for hgt w
    using that reorg_to_block_no_fuel [OF core that(2,3)]
    by (auto simp: connect_step_def Let_def put_store_Inr split: if_splits prod.splits sum.splits)
  note run = res [unfolded connect_without_orphans_def connect_block_inner_step then_orphans_none]
  show ?thesis
    using run step validate_block_limits_no_fuel [of b] block_work_no_fuel [of "bits (header b)"]
      validate_no_fuel [of E c b]
    by (auto split: sum.splits option.splits if_splits)
qed

section \<open>The orphan queue\<close>

text \<open>Taking ready orphans out of the pool keeps every block either in the queue or in the pool.\<close>

definition queued_ready :: "block list \<times> chain \<Rightarrow> bool" where
  "queued_ready st \<longleftrightarrow> (\<forall>b\<in>set (fst st). map_of (known (snd st)) (parent_of b) \<noteq> None)"

lemma remove_ready_spec:
  assumes "core_ok E g c" "queued_ready (q, c)"
    and "\<forall>h\<in>set ready. \<forall>e. map_of (orphans c) h = Some e \<longrightarrow> map_of (known c) (parent_of (orphan_block e)) \<noteq> None"
  shows "\<exists>q' os. remove_ready ready (q, c) = (q', c\<lparr>orphans := os\<rparr>) \<and> core_ok E g (c\<lparr>orphans := os\<rparr>) \<and>
    queued_ready (q', c\<lparr>orphans := os\<rparr>) \<and> length q' + length os = length q + length (orphans c) \<and>
    (\<forall>h. map_of os h = (if h \<in> set ready then None else map_of (orphans c) h))"
  using assms
proof (induction ready arbitrary: q c)
  case Nil
  show ?case by (rule exI [of _ q], rule exI [of _ "orphans c"]) (use Nil in \<open>simp add: remove_ready_def\<close>)
next
  case (Cons h hs)
  show ?case
  proof (cases "map_of (orphans c) h")
    case None
    then have "remove_ready (h # hs) (q, c) = remove_ready hs (q, c)" by (simp add: remove_ready_def)
    then show ?thesis using Cons.IH [OF Cons.prems(1,2)] Cons.prems(3) None by (auto 0 4)
  next
    case (Some e)
    define c1 where "c1 = c\<lparr>orphans := AList.delete h (orphans c)\<rparr>"
    have c1: "known c1 = known c" "orphans c1 = AList.delete h (orphans c)" "\<And>os. c1\<lparr>orphans := os\<rparr> = c\<lparr>orphans := os\<rparr>"
      by (simp_all add: c1_def)
    have step: "remove_ready (h # hs) (q, c) = remove_ready hs (q @ [orphan_block e], c1)"
      by (simp add: remove_ready_def Some c1_def)
    have "core_ok E g c1" using core_ok_subpool Cons.prems(1) by (simp add: c1_def)
    moreover have "queued_ready (q @ [orphan_block e], c1)"
      using Cons.prems(2,3) Some by (auto simp: queued_ready_def c1(1))
    moreover have "\<forall>k\<in>set hs. \<forall>e. map_of (orphans c1) k = Some e \<longrightarrow> map_of (known c1) (parent_of (orphan_block e)) \<noteq> None"
      using Cons.prems(3) by (auto simp: c1(1,2) delete_conv' split: if_splits)
    ultimately obtain q' os where r: "remove_ready hs (q @ [orphan_block e], c1) = (q', c1\<lparr>orphans := os\<rparr>)"
        "core_ok E g (c1\<lparr>orphans := os\<rparr>)" "queued_ready (q', c1\<lparr>orphans := os\<rparr>)"
        "length q' + length os = length (q @ [orphan_block e]) + length (orphans c1)"
        "\<forall>k. map_of os k = (if k \<in> set hs then None else map_of (orphans c1) k)"
      using Cons.IH [of c1 "q @ [orphan_block e]"] by blast
    have "h \<in> fst ` set (orphans c)" using Some by (metis domI dom_map_of_conv_image_fst)
    moreover have "distinct (map fst (orphans c))" using Cons.prems(1) by (simp add: core_ok_def orphans_ok_def)
    ultimately have "Suc (length (orphans c1)) = length (orphans c)"
      using length_delete_present by (simp add: c1(2))
    then have "length q' + length os = length q + length (orphans c)" using r(4) by simp
    moreover have "\<forall>k. map_of os k = (if k \<in> set (h # hs) then None else map_of (orphans c) k)"
      using r(5) by (auto simp: c1(2) delete_conv')
    ultimately show ?thesis using r(1-3) step unfolding c1(3) by metis
  qed
qed

lemma ready_orphans_iff:
  assumes "distinct (map fst (orphans c))"
  shows "h \<in> set (ready_orphans c) \<longleftrightarrow>
    (\<exists>e. map_of (orphans c) h = Some e \<and> map_of (known c) (parent_of (orphan_block e)) \<noteq> None)"
  using assms by (force simp: ready_orphans_def)

lemma enqueue_spec:
  assumes ok: "chain_ok E g c" and q: "queued_ready (q, c)"
  shows "\<exists>q' os. enqueue_ready_orphans (q, c) = (q', c\<lparr>orphans := os\<rparr>) \<and> chain_ok E g (c\<lparr>orphans := os\<rparr>) \<and>
    queued_ready (q', c\<lparr>orphans := os\<rparr>) \<and> length q' + length os = length q + length (orphans c) \<and>
    (\<forall>h e. map_of os h = Some e \<longrightarrow> map_of (known c) (parent_of (orphan_block e)) = None)"
proof -
  have core: "core_ok E g c" and tip: "tip_ok E c" using ok by (auto simp: chain_ok_def)
  have d: "distinct (map fst (orphans c))" using core by (simp add: core_ok_def orphans_ok_def)
  have pre: "\<forall>h\<in>set (ready_orphans c). \<forall>e. map_of (orphans c) h = Some e \<longrightarrow>
      map_of (known c) (parent_of (orphan_block e)) \<noteq> None"
    using ready_orphans_iff [OF d] by auto
  obtain q' os where r: "remove_ready (ready_orphans c) (q, c) = (q', c\<lparr>orphans := os\<rparr>)"
      "core_ok E g (c\<lparr>orphans := os\<rparr>)" "queued_ready (q', c\<lparr>orphans := os\<rparr>)"
      "length q' + length os = length q + length (orphans c)"
      "\<forall>h. map_of os h = (if h \<in> set (ready_orphans c) then None else map_of (orphans c) h)"
    using remove_ready_spec [OF core q pre] by blast
  have left: "map_of (known c) (parent_of (orphan_block e)) = None" if "map_of os h = Some e" for h e
  proof (rule ccontr)
    assume "map_of (known c) (parent_of (orphan_block e)) \<noteq> None"
    moreover have "map_of (orphans c) h = Some e \<and> h \<notin> set (ready_orphans c)"
      using that r(5) by (auto split: if_splits)
    ultimately show False using ready_orphans_iff [OF d] by blast
  qed
  have "tip_ok E (c\<lparr>orphans := os\<rparr>)" using tip by simp
  then have "chain_ok E g (c\<lparr>orphans := os\<rparr>)" using r(2) by (simp only: chain_ok_def simp_thms)
  then show ?thesis using r(1,3,4) left unfolding enqueue_ready_orphans_def snd_conv by blast
qed

text \<open>
  A queued block has an indexed parent, so it is never sent back to the pool: every turn of the loop
  removes a block from queue and pool together.
\<close>

lemma connect_queued:
  assumes ok: "chain_ok E g c" and parent: "map_of (known c) (parent_of b) \<noteq> None"
    and res: "connect_without_orphans E b c = (Inr res, c')"
  shows "orphans c' = orphans c"
  using connect_without_orphans_ok [OF ok res] parent by (auto simp: connect_outcome_def split: connect_result.splits)

lemma queued_ready_extends:
  "queued_ready (q, c) \<Longrightarrow> index_extends (known c) (known c') \<Longrightarrow> queued_ready (q, c')"
  unfolding queued_ready_def index_extends_def fst_conv snd_conv by fastforce

lemma process_orphans_loop_ok:
  "chain_ok E g c \<Longrightarrow> queued_ready (q, c) \<Longrightarrow> length q + length (orphans c) \<le> n \<Longrightarrow>
     process_orphans_loop E n (q, c) = (r, c') \<Longrightarrow>
     chain_ok E g c' \<and> index_extends (known c) (known c') \<and> r \<noteq> Inl OutOfFuel \<and>
     (r = Inr () \<longrightarrow> (\<forall>h e. map_of (orphans c) h = Some e \<longrightarrow> map_of (known c) (parent_of (orphan_block e)) = None) \<longrightarrow>
       (\<forall>h e. map_of (orphans c') h = Some e \<longrightarrow> map_of (known c') (parent_of (orphan_block e)) = None))"
proof (induction n arbitrary: q c)
  case 0
  then show ?case by auto
next
  case (Suc n)
  show ?case
  proof (cases q)
    case Nil
    then show ?thesis using Suc.prems by auto
  next
    case (Cons b bs)
    obtain r1 c1 where one: "connect_without_orphans E b c = (r1, c1)" by fastforce
    note step = connect_without_orphans_ok [OF Suc.prems(1) one]
    have parent: "map_of (known c) (parent_of b) \<noteq> None" and rest: "queued_ready (bs, c)"
      using Suc.prems(2) Cons by (auto simp: queued_ready_def)
    show ?thesis
    proof (cases r1)
      case (Inl e)
      then have "r = Inl e" "c' = c1" using Suc.prems(4) Cons one by auto
      moreover have "e \<noteq> OutOfFuel" using connect_without_orphans_no_fuel [OF Suc.prems(1)] one Inl by blast
      ultimately show ?thesis using step by simp
    next
      case (Inr res)
      have pool: "orphans c1 = orphans c" using connect_queued [OF Suc.prems(1) parent] one Inr by blast
      have ok1: "chain_ok E g c1" and ext: "index_extends (known c) (known c1)" using step by blast+
      obtain q' os where enq: "enqueue_ready_orphans (bs, c1) = (q', c1\<lparr>orphans := os\<rparr>)"
          "chain_ok E g (c1\<lparr>orphans := os\<rparr>)" "queued_ready (q', c1\<lparr>orphans := os\<rparr>)"
          "length q' + length os = length bs + length (orphans c1)"
          "\<forall>h e. map_of os h = Some e \<longrightarrow> map_of (known c1) (parent_of (orphan_block e)) = None"
        using enqueue_spec [OF ok1 queued_ready_extends [OF rest ext]] by blast
      have run: "process_orphans_loop E n (q', c1\<lparr>orphans := os\<rparr>) = (r, c')"
        using Suc.prems(4) Cons one Inr enq(1) by simp
      have short: "length q' + length (orphans (c1\<lparr>orphans := os\<rparr>)) \<le> n"
        using Suc.prems(3) Cons enq(4) pool by simp
      have idx: "known (c1\<lparr>orphans := os\<rparr>) = known c1" "orphans (c1\<lparr>orphans := os\<rparr>) = os" by simp_all
      show ?thesis using Suc.IH [OF enq(2,3) short run, unfolded idx] enq(5) index_extends_trans [OF ext] by blast
    qed
  qed
qed

text \<open>No orphan is left whose parent is indexed, unless a queued block was refused.\<close>

definition orphans_wait :: "chain \<Rightarrow> bool" where
  "orphans_wait c \<longleftrightarrow> (\<forall>h e. map_of (orphans c) h = Some e \<longrightarrow> map_of (known c) (parent_of (orphan_block e)) = None)"

lemma process_orphans_ok:
  assumes ok: "chain_ok E g c" and res: "process_orphans E c = (r, c')"
  shows "chain_ok E g c' \<and> index_extends (known c) (known c') \<and> r \<noteq> Inl OutOfFuel \<and> (r = Inr () \<longrightarrow> orphans_wait c')"
proof -
  have "queued_ready ([], c)" by (simp add: queued_ready_def)
  then obtain q os where enq: "enqueue_ready_orphans ([], c) = (q, c\<lparr>orphans := os\<rparr>)"
      "chain_ok E g (c\<lparr>orphans := os\<rparr>)" "queued_ready (q, c\<lparr>orphans := os\<rparr>)"
      "length q + length os = length (orphans c)"
      "\<forall>h e. map_of os h = Some e \<longrightarrow> map_of (known c) (parent_of (orphan_block e)) = None"
    using enqueue_spec [OF ok, of "[]"] by auto
  have idx: "known (c\<lparr>orphans := os\<rparr>) = known c" "orphans (c\<lparr>orphans := os\<rparr>) = os" by simp_all
  have run: "process_orphans_loop E (length (orphans c)) (q, c\<lparr>orphans := os\<rparr>) = (r, c')"
    using res enq(1) by (simp add: process_orphans_def)
  have "length q + length (orphans (c\<lparr>orphans := os\<rparr>)) \<le> length (orphans c)" using enq(4) by simp
  from process_orphans_loop_ok [OF enq(2,3) this run, unfolded idx] enq(5)
  show ?thesis unfolding orphans_wait_def by blast
qed

lemma connect_block_split:
  assumes "connect_block E b c = (r, c')"
  obtains (stop) "connect_without_orphans E b c = (r, c')" "\<And>n h. r \<noteq> Inr (Connected n h)" "\<And>h k. r \<noteq> Inr (Reorganized h k)"
  | (queue) res c1 rq where "connect_without_orphans E b c = (Inr res, c1)" "processes_orphans res"
      "process_orphans E c1 = (rq, c')" "r = (case rq of Inl e \<Rightarrow> Inl e | Inr _ \<Rightarrow> Inr res)"
proof -
  obtain r1 c1 where one: "connect_without_orphans E b c = (r1, c1)" by fastforce
  have run: "then_orphans (process_orphans E) (r1, c1) = (r, c')"
    using assms one by (simp add: connect_block_def connect_block_inner_after)
  show thesis
  proof (cases r1)
    case (Inl e)
    then show thesis using run one stop by auto
  next
    case (Inr res)
    obtain rq c2 where rq: "process_orphans E c1 = (rq, c2)" by fastforce
    show thesis
    proof (cases "processes_orphans res")
      case True
      then have "r = (case rq of Inl e \<Rightarrow> Inl e | Inr _ \<Rightarrow> Inr res)" "c' = c2"
        using run Inr rq by (auto simp: then_orphans_def split: sum.splits)
      then show thesis using queue one Inr True rq by simp
    next
      case False
      then have "r = Inr res" "c' = c1" using run Inr by (simp_all add: then_orphans_def)
      then show thesis using stop one Inr False by (cases res) (simp_all add: processes_orphans_def)
    qed
  qed
qed

lemma connect_block_ok:
  assumes ok: "chain_ok E g c" and res: "connect_block E b c = (r, c')"
  shows "chain_ok E g c' \<and> index_extends (known c) (known c') \<and> r \<noteq> Inl OutOfFuel \<and>
    (\<forall>n h. r = Inr (Connected n h) \<longrightarrow> orphans_wait c') \<and> (\<forall>h k. r = Inr (Reorganized h k) \<longrightarrow> orphans_wait c')"
  using res
proof (cases rule: connect_block_split)
  case stop
  then show ?thesis using connect_without_orphans_ok [OF ok] connect_without_orphans_no_fuel [OF ok] by blast
next
  case (queue res c1 rq)
  have s1: "chain_ok E g c1" "index_extends (known c) (known c1)"
    using connect_without_orphans_ok [OF ok queue(1)] by blast+
  note s2 = process_orphans_ok [OF s1(1) queue(3)]
  show ?thesis
  proof (cases rq)
    case (Inl e)
    then show ?thesis using s1 s2 queue(4) index_extends_trans by auto
  next
    case (Inr u)
    then show ?thesis using s1 s2 queue(4) index_extends_trans by auto
  qed
qed

section \<open>Histories\<close>

text \<open>Every state a chain can reach from its genesis block, whatever the callers do.\<close>

inductive chain_reach :: "env \<Rightarrow> block \<Rightarrow> chain \<Rightarrow> bool" for E gb where
  reach_genesis: "genesis_chain E gb nt ej dj = Inr c \<Longrightarrow> chain_reach E gb c"
| reach_connect: "chain_reach E gb c \<Longrightarrow> connect_block E b c = (r, c') \<Longrightarrow> chain_reach E gb c'"
| reach_clock: "chain_reach E gb c \<Longrightarrow> set_network_time t c = (r, c') \<Longrightarrow> chain_reach E gb c'"
| reach_take: "chain_reach E gb c \<Longrightarrow> take_events c = Inr (evs, c') \<Longrightarrow> chain_reach E gb c'"

lemma genesis_chain_result:
  assumes "genesis_chain E gb nt ej dj = Inr c"
  obtains w j where "block_work (bits (header gb)) = Inr w" "validate_block_transactions_for_utxo E gb new_utxo = Inr ()"
    "c = \<lparr>blocks = [gb], active_hashes = {hash_block E gb},
          known = [(hash_block E gb, \<lparr>meta_block = gb, meta_height = 0, meta_work = w,
                    meta_undo = snd (apply_block_transactions E gb new_utxo)\<rparr>)],
          total_work = w, utxo = fst (apply_block_transactions E gb new_utxo), orphans = [], orphan_receive_seq = 0,
          network_time = nt, store = \<lparr>stored_blocks = (stored_blocks new_memory_store)(hash_block E gb \<mapsto> gb)\<rparr>,
          event_journal = j, disconnected_journal = dj\<rparr>"
  using assms
  by (auto simp: genesis_chain_def Let_def and_then_def validate_block_for_parent_def put_store_Inr push_active_def
      insert_known_def push_event_def split: if_splits sum.splits prod.splits)

lemma genesis_journal:
  assumes "genesis_chain E gb nt ej dj = Inr c"
  shows "event_journal c = fst (journal_push (BlockConnected 0 (hash_block E gb) (length (transactions gb))) ej)"
  using assms
  by (auto simp: genesis_chain_def and_then_Inr_iff put_store_Inr push_event_def push_active_def
      insert_known_def Let_def split: if_splits prod.splits)

lemma genesis_other_journal:
  assumes "genesis_chain E gb nt ej dj = Inr c"
  shows "genesis_chain E gb nt ej' dj =
    Inr (c\<lparr>event_journal := fst (journal_push (BlockConnected 0 (hash_block E gb) (length (transactions gb))) ej')\<rparr>)"
  using assms
  by (auto simp: genesis_chain_def and_then_Inr_iff put_store_Inr push_event_def push_active_def validate_block_for_parent_def
      insert_known_def Let_def split: if_splits prod.splits)

lemma genesis_chain_ok:
  assumes "genesis_chain E gb nt ej dj = Inr c"
  shows "chain_ok E (hash_block E gb) c"
proof -
  let ?g = "hash_block E gb"
  obtain w j where c: "c = \<lparr>blocks = [gb], active_hashes = {?g},
          known = [(?g, \<lparr>meta_block = gb, meta_height = 0, meta_work = w,
                    meta_undo = snd (apply_block_transactions E gb new_utxo)\<rparr>)],
          total_work = w, utxo = fst (apply_block_transactions E gb new_utxo), orphans = [], orphan_receive_seq = 0,
          network_time = nt, store = \<lparr>stored_blocks = (stored_blocks new_memory_store)(?g \<mapsto> gb)\<rparr>,
          event_journal = j, disconnected_journal = dj\<rparr>"
    using genesis_chain_result [OF assms] by metis
  have "index_rank ?g (known c) (\<lambda>_. 0)" by (auto simp: c index_rank_def)
  then have "index_ok E ?g (known c)" by (auto simp: c index_ok_def)
  moreover have "active_ok E ?g c" "orphans_ok E c" by (auto simp: c active_ok_def orphans_ok_def)
  moreover have "store_ok E c"
    by (auto simp: c store_ok_def store_keyed_def memory_get_block_def new_memory_store_def split: if_splits)
  moreover have "tip_ok E c" by (simp add: c tip_ok_def tip_hash_def)
  ultimately show ?thesis by (simp add: chain_ok_def core_ok_def)
qed

lemma set_network_time_keeps:
  assumes "set_network_time t c = (r, c')"
  shows "chain_ok E g c' = chain_ok E g c" "known c' = known c"
  using assms by (auto simp: set_network_time_def chain_ok_def tip_ok_def split: if_splits)

lemma take_events_keeps:
  assumes "take_events c = Inr (evs, c')"
  shows "chain_ok E g c' = chain_ok E g c" "known c' = known c" "\<exists>j. c' = c\<lparr>event_journal := j\<rparr>"
  using assms
  by (cases "journal_take_events (event_journal c)"; force simp: take_events_def chain_ok_def tip_ok_def)+

lemma chain_reach_ok: "chain_reach E gb c \<Longrightarrow> chain_ok E (hash_block E gb) c"
proof (induction rule: chain_reach.induct)
  case (reach_genesis nt ej dj c)
  then show ?case by (rule genesis_chain_ok)
next
  case (reach_connect c b r c')
  then show ?case using connect_block_ok by blast
next
  case (reach_clock c t r c')
  then show ?case using set_network_time_keeps(1) by simp
next
  case (reach_take c evs c')
  then show ?case using take_events_keeps(1) by simp
qed

text \<open>
  A property kept by the connection of a single block is kept by \<open>connect_block\<close>, however many orphans
  it connects, and so holds in every reachable state.  \<open>H\<close> is what the step needs of the index that
  results; it is inherited by smaller indexes.
\<close>

locale chain_invariant =
  fixes E :: env and g :: hash32 and H :: "block_index \<Rightarrow> bool" and I :: "chain \<Rightarrow> bool"
  assumes inherited: "index_extends idx idx' \<Longrightarrow> H idx' \<Longrightarrow> H idx"
    and step: "chain_ok E g c \<Longrightarrow> I c \<Longrightarrow> connect_without_orphans E b c = (r, c') \<Longrightarrow> H (known c') \<Longrightarrow> I c'"
    and pool: "I (c\<lparr>orphans := os\<rparr>) = I c"
    and clock: "I (c\<lparr>network_time := t\<rparr>) = I c"
    and journal: "I (c\<lparr>event_journal := j\<rparr>) = I c"
begin

lemma loop:
  "chain_ok E g c \<Longrightarrow> queued_ready (q, c) \<Longrightarrow> length q + length (orphans c) \<le> n \<Longrightarrow> I c \<Longrightarrow>
     process_orphans_loop E n (q, c) = (r, c') \<Longrightarrow> H (known c') \<Longrightarrow> I c'"
proof (induction n arbitrary: q c)
  case 0
  then show ?case by simp
next
  case (Suc n)
  show ?case
  proof (cases q)
    case Nil
    then show ?thesis using Suc.prems by simp
  next
    case (Cons b bs)
    obtain r1 c1 where one: "connect_without_orphans E b c = (r1, c1)" by fastforce
    note ok1 = connect_without_orphans_ok [OF Suc.prems(1) one]
    have parent: "map_of (known c) (parent_of b) \<noteq> None" and rest: "queued_ready (bs, c)"
      using Suc.prems(2) Cons by (auto simp: queued_ready_def)
    show ?thesis
    proof (cases r1)
      case (Inl e)
      then have "c' = c1" using Suc.prems(5) Cons one by auto
      then show ?thesis using step [OF Suc.prems(1,4) one] Suc.prems(6) by simp
    next
      case (Inr res)
      have pool1: "orphans c1 = orphans c" using connect_queued [OF Suc.prems(1) parent] one Inr by blast
      have ready: "queued_ready (bs, c1)" using queued_ready_extends [OF rest] ok1 by blast
      obtain q' os where enq: "enqueue_ready_orphans (bs, c1) = (q', c1\<lparr>orphans := os\<rparr>)"
          "chain_ok E g (c1\<lparr>orphans := os\<rparr>)" "queued_ready (q', c1\<lparr>orphans := os\<rparr>)"
          "length q' + length os = length bs + length (orphans c1)"
        using enqueue_spec [OF _ ready] ok1 by blast
      have run: "process_orphans_loop E n (q', c1\<lparr>orphans := os\<rparr>) = (r, c')"
        using Suc.prems(5) Cons one Inr enq(1) by simp
      have short: "length q' + length (orphans (c1\<lparr>orphans := os\<rparr>)) \<le> n"
        using Suc.prems(3) Cons enq(4) pool1 by simp
      have "index_extends (known (c1\<lparr>orphans := os\<rparr>)) (known c')"
        using process_orphans_loop_ok [OF enq(2,3) short run] by blast
      then have "H (known c1)" using inherited [of "known c1"] Suc.prems(6) by simp
      then have "I (c1\<lparr>orphans := os\<rparr>)" using step [OF Suc.prems(1,4) one] pool by simp
      then show ?thesis using Suc.IH [OF enq(2,3) short _ run] Suc.prems(6) by simp
    qed
  qed
qed

lemma connect:
  assumes ok: "chain_ok E g c" and I: "I c" and res: "connect_block E b c = (r, c')" and H: "H (known c')"
  shows "I c'"
  using res
proof (cases rule: connect_block_split)
  case stop
  then show ?thesis using step [OF ok I _ H] by blast
next
  case (queue res c1 rq)
  have ok1: "chain_ok E g c1" using connect_without_orphans_ok [OF ok queue(1)] by blast
  have "index_extends (known c1) (known c')" using process_orphans_ok [OF ok1 queue(3)] by blast
  then have "I c1" using step [OF ok I queue(1)] inherited H by blast
  have "queued_ready ([], c1)" by (simp add: queued_ready_def)
  then obtain q os where enq: "enqueue_ready_orphans ([], c1) = (q, c1\<lparr>orphans := os\<rparr>)"
      "chain_ok E g (c1\<lparr>orphans := os\<rparr>)" "queued_ready (q, c1\<lparr>orphans := os\<rparr>)" "length q + length os = length (orphans c1)"
    using enqueue_spec [OF ok1, of "[]"] by auto
  have run: "process_orphans_loop E (length (orphans c1)) (q, c1\<lparr>orphans := os\<rparr>) = (rq, c')"
    using queue(3) enq(1) by (simp add: process_orphans_def)
  show ?thesis
    using loop [OF enq(2,3) _ _ run H] \<open>I c1\<close> enq(4) pool by simp
qed

end

text \<open>With a property of the genesis chain, it holds in every reachable state.\<close>

locale chain_property = chain_invariant E "hash_block E gb" H I for E gb H I +
  assumes start: "genesis_chain E gb nt ej dj = Inr c \<Longrightarrow> I c"
begin

lemma reached: "chain_reach E gb c \<Longrightarrow> H (known c) \<Longrightarrow> I c"
proof (induction rule: chain_reach.induct)
  case (reach_genesis nt ej dj c)
  then show ?case using start by blast
next
  case (reach_connect c b r c')
  have ok: "chain_ok E (hash_block E gb) c" using chain_reach_ok [OF reach_connect(1)] .
  have "H (known c)" using connect_block_ok [OF ok reach_connect(2)] inherited reach_connect(4) by blast
  then show ?case using connect [OF ok _ reach_connect(2,4)] reach_connect(3) by blast
next
  case (reach_clock c t r c')
  then show ?case by (auto simp: set_network_time_def clock split: if_splits)
next
  case (reach_take c evs c')
  then show ?case using take_events_keeps [OF reach_take(2)] journal by metis
qed

end

section \<open>Which entries change\<close>

lemma connect_fork_block_known:
  assumes "connect_fork_block E b c = (r, c')"
  shows "h \<noteq> hash_block E b \<Longrightarrow> map_of (known c') h = map_of (known c) h"
    and "r = Inl e \<Longrightarrow> known c' = known c"
  using assms
  by (auto simp: connect_fork_block_def Let_def put_store_Inr push_active_def insert_known_def update_conv'
      split: sum.splits prod.splits)

lemma connect_fork_path_known:
  "connect_fork_path E bs c = (r, c') \<Longrightarrow>
     (\<forall>h. h \<notin> hash_block E ` set bs \<longrightarrow> map_of (known c') h = map_of (known c) h) \<and>
     (\<forall>e. r = Inl e \<longrightarrow> (\<forall>h. h \<notin> hash_block E ` set (butlast bs) \<longrightarrow> map_of (known c') h = map_of (known c) h))"
proof (induction bs arbitrary: c)
  case (Cons b bs)
  obtain r1 c1 where one: "connect_fork_block E b c = (r1, c1)" by fastforce
  note k = connect_fork_block_known [OF one]
  show ?case
  proof (cases r1)
    case (Inl e)
    then have "c' = c1" "known c1 = known c" using Cons.prems one k(2) by auto
    then show ?thesis by simp
  next
    case (Inr u)
    then have run: "connect_fork_path E bs c1 = (r, c')" using Cons.prems one by simp
    have "bs = [] \<Longrightarrow> r = Inr ()" using run by simp
    then show ?thesis using Cons.IH [OF run] k(1) by (cases bs) auto
  qed
qed simp

lemma disconnect_tip_block_known: "disconnect_tip_block E c = (r, c') \<Longrightarrow> known c' = known c"
  by (auto simp: disconnect_tip_block_def Let_def split: if_splits option.splits prod.splits)

lemma disconnect_until_known: "disconnect_until E fh n c = (r, c') \<Longrightarrow> known c' = known c"
proof (induction E fh n c rule: disconnect_until.induct)
  case (1 E fh n c)
  show ?case
  proof (cases "tip_hash E c = fh")
    case True
    then show ?thesis using 1(2) by (simp add: disconnect_until.simps)
  next
    case False
    obtain r1 c1 where d: "disconnect_tip_block E c = (r1, c1)" by fastforce
    show ?thesis
    proof (cases r1)
      case (Inl e)
      then show ?thesis using 1(2) False d disconnect_tip_block_known [OF d]
        by (simp add: disconnect_until.simps [of E fh n c])
    next
      case (Inr u)
      then have "disconnect_until E fh (n + 1) c1 = (r, c')"
        using 1(2) False d by (simp add: disconnect_until.simps [of E fh n c])
      then show ?thesis using 1(1) [OF False d [symmetric] Inr] disconnect_tip_block_known [OF d] by simp
    qed
  qed
qed

lemma reorg_to_block_known:
  assumes path: "collect_fork_path c b = Inr (path, fh)" and res: "reorg_to_block E b w c = (r, c')"
  shows "h \<notin> hash_block E ` set path \<Longrightarrow> map_of (known c') h = map_of (known c) h"
    and "r = Inl e \<Longrightarrow> h \<notin> hash_block E ` set (butlast path) \<Longrightarrow> map_of (known c') h = map_of (known c) h"
proof -
  obtain r1 c1 where t: "try_reorg_to_block E path fh w c = (r1, c1)" by fastforce
  obtain k c2 where d: "disconnect_until E fh 0 c = (k, c2)" by fastforce
  obtain r3 c3 where f: "connect_fork_path E path c2 = (r3, c3)" by fastforce
  have c': "known c' = known c1" "(\<exists>e. r = Inl e) \<longleftrightarrow> (\<exists>e. r1 = Inl e)"
    using res path t by (auto simp: reorg_to_block_def split: sum.splits)
  note kd = disconnect_until_known [OF d] and kf = connect_fork_path_known [OF f]
  have all: "(\<forall>h. h \<notin> hash_block E ` set path \<longrightarrow> map_of (known c1) h = map_of (known c) h) \<and>
    ((\<exists>e. r1 = Inl e) \<longrightarrow> (\<forall>h. h \<notin> hash_block E ` set (butlast path) \<longrightarrow> map_of (known c1) h = map_of (known c) h))"
  proof (cases "find_height c fh")
    case None
    then show ?thesis using t by (simp add: try_reorg_to_block_def)
  next
    case (Some x)
    show ?thesis
    proof (cases k)
      case (Inl e)
      then show ?thesis using t Some d kd by (simp add: try_reorg_to_block_def)
    next
      case (Inr n)
      show ?thesis
      proof (cases r3)
        case (Inl e)
        then have "c1 = c3" using t Some d f \<open>k = Inr n\<close> by (simp add: try_reorg_to_block_def)
        then show ?thesis using kf kd Inl by simp
      next
        case (Inr u)
        then have "r1 = Inr n" "known c1 = known c3" using t Some d f \<open>k = Inr n\<close> by (auto simp: try_reorg_to_block_def)
        then show ?thesis using kf kd by simp
      qed
    qed
  qed
  show "map_of (known c') h = map_of (known c) h" if "h \<notin> hash_block E ` set path"
    using all that by (simp add: c'(1))
  show "map_of (known c') h = map_of (known c) h" if "r = Inl e" "h \<notin> hash_block E ` set (butlast path)"
    using all that c' by auto
qed

lemma connect_step_known:
  assumes ok: "chain_ok E g c" and new: "map_of (known c) (hash_block E b) = None"
    and parent: "map_of (known c) (parent_of b) \<noteq> None" and res: "connect_step E b hgt w c = (r, c')"
    and other: "h \<noteq> hash_block E b \<or> (\<exists>e. r = Inl e)" and unknown: "map_of (known c) h = None"
  shows "map_of (known c') h = None"
proof -
  consider "parent_of b = tip_hash E c" | "parent_of b \<noteq> tip_hash E c" "w \<le> total_work c"
    | "parent_of b \<noteq> tip_hash E c" "\<not> w \<le> total_work c" by blast
  then show ?thesis
  proof cases
    case 1
    then show ?thesis using res other unknown
      by (auto simp: connect_step_def Let_def put_store_Inr push_active_def insert_known_def update_conv' split: prod.splits)
  next
    case 2
    then show ?thesis using res other unknown by (auto simp: connect_step_def Let_def insert_known_def update_conv')
  next
    case 3
    obtain r1 c1 where reorg: "reorg_to_block E b w c = (r1, c1)" by fastforce
    have core: "core_ok E g c" using ok by (simp add: chain_ok_def)
    obtain path fh where path: "collect_fork_path c b = Inr (path, fh)" "fork_path E c b path fh"
      using collect_fork_path_ok [OF core parent new] by blast
    obtain side where side: "path = side @ [b]" "side_branch E c side" using path(2) by (auto simp: fork_path_def)
    have "h \<notin> hash_block E ` set side" using side(2) unknown by (auto simp: side_branch_def)
    moreover have "known c' = known c1" "(\<exists>e. r = Inl e) \<longleftrightarrow> (\<exists>e. r1 = Inl e)"
      using res 3 reorg by (auto simp: connect_step_def split: sum.splits)
    ultimately show ?thesis
      using reorg_to_block_known [OF path(1) reorg] other unknown side(1) by auto
  qed
qed

lemma connect_without_orphans_known:
  assumes ok: "chain_ok E g c" and res: "connect_without_orphans E b c = (r, c')"
    and other: "h \<noteq> hash_block E b \<or> (\<exists>e. r = Inl e)" and unknown: "map_of (known c) h = None"
  shows "map_of (known c') h = None"
proof -
  note run = res [unfolded connect_without_orphans_def connect_block_inner_step then_orphans_none]
  have step: "map_of (known c') h = None" if "connect_step E b hgt w c = (r, c')"
      "map_of (known c) (hash_block E b) = None" "map_of (known c) (parent_of b) \<noteq> None" for hgt w
    using connect_step_known [OF ok that(2,3,1) other unknown] .
  show ?thesis using run step unknown by (auto split: sum.splits option.splits if_splits)
qed

section \<open>The most-work rule\<close>

definition heaviest :: "chain \<Rightarrow> bool" where
  "heaviest c \<longleftrightarrow> (\<forall>h m. map_of (known c) h = Some m \<longrightarrow> meta_work m \<le> total_work c)"

text \<open>Cumulative work has not wrapped around \<open>2 ^ 256\<close>: no indexed block has less of it than its parent.\<close>

definition work_unwrapped :: "hash32 \<Rightarrow> block_index \<Rightarrow> bool" where
  "work_unwrapped g idx \<longleftrightarrow>
     (\<forall>h m pm. map_of idx h = Some m \<longrightarrow> h \<noteq> g \<longrightarrow> map_of idx (parent_of (meta_block m)) = Some pm \<longrightarrow>
        meta_work pm \<le> meta_work m)"

lemma work_unwrapped_inherited:
  assumes ext: "index_extends idx idx'" and H: "work_unwrapped g idx'"
  shows "work_unwrapped g idx"
  unfolding work_unwrapped_def
proof (intro allI impI)
  fix h m pm
  assume a: "map_of idx h = Some m" "h \<noteq> g" "map_of idx (parent_of (meta_block m)) = Some pm"
  obtain m' where m': "map_of idx' h = Some m'" "meta_block m' = meta_block m" "meta_work m' = meta_work m"
    using index_extendsD [OF ext a(1)] by blast
  obtain pm' where "map_of idx' (parent_of (meta_block m)) = Some pm'" "meta_work pm' = meta_work pm"
    using index_extendsD [OF ext a(3)] by blast
  then show "meta_work pm \<le> meta_work m" using H m' a(2) unfolding work_unwrapped_def by metis
qed

lemma heaviest_kept:
  assumes heavy: "heaviest c" and ext: "index_extends (known c) (known c')" and more: "total_work c \<le> total_work c'"
    and new: "\<And>h. map_of (known c) h = None \<Longrightarrow> h \<noteq> k \<Longrightarrow> map_of (known c') h = None"
    and at: "\<And>m. map_of (known c) k = None \<Longrightarrow> map_of (known c') k = Some m \<Longrightarrow> meta_work m \<le> total_work c'"
  shows "heaviest c'"
  unfolding heaviest_def
proof (intro allI impI)
  fix h m assume m: "map_of (known c') h = Some m"
  show "meta_work m \<le> total_work c'"
  proof (cases "map_of (known c) h")
    case None
    then show ?thesis using m new at by (cases "h = k") auto
  next
    case (Some m0)
    then have "meta_work m = meta_work m0" using index_extendsD [OF ext Some] m by auto
    then show ?thesis using heavy Some more unfolding heaviest_def by force
  qed
qed

lemma heaviest_step:
  assumes ok: "chain_ok E g c" and heavy: "heaviest c" and res: "connect_without_orphans E b c = (r, c')"
    and H: "work_unwrapped g (known c')"
  shows "heaviest c'"
proof -
  have ok': "chain_ok E g c'" and ext: "index_extends (known c) (known c')" and out: "connect_outcome E b c r c'"
    using connect_without_orphans_ok [OF ok res] by blast+
  note known = connect_without_orphans_known [OF ok res]
  have tip: "\<exists>m. map_of (known c') (tip_hash E c') = Some m \<and> total_work c' = meta_work m"
    using ok' by (simp add: chain_ok_def tip_ok_def)
  show ?thesis
  proof (cases r)
    case (Inl e)
    then show ?thesis using heaviest_kept [OF heavy ext, of "hash_block E b"] out known by (auto simp: connect_outcome_def)
  next
    case (Inr res)
    show ?thesis
    proof (cases res)
      case (Orphaned h)
      then have "known c' = known c" "total_work c' = total_work c" using out Inr by (auto simp: connect_outcome_def)
      then show ?thesis using heavy by (simp add: heaviest_def)
    next
      case (SideChain n h)
      then have "total_work c' = total_work c" "\<exists>m. map_of (known c') (hash_block E b) = Some m \<and> meta_work m \<le> total_work c"
        using out Inr by (auto simp: connect_outcome_def)
      then show ?thesis by (intro heaviest_kept [OF heavy ext, of "hash_block E b"]) (use known in auto)
    next
      case (Reorganized h k)
      then have "total_work c \<le> total_work c'" "tip_hash E c' = hash_block E b"
        using out Inr by (auto simp: connect_outcome_def)
      then show ?thesis by (intro heaviest_kept [OF heavy ext, of "hash_block E b"]) (use known tip in auto)
    next
      case (Connected n h)
      have bl: "blocks c' = blocks c @ [b]" "parent_of b = tip_hash E c" using out Inr Connected by (auto simp: connect_outcome_def)
      have th: "tip_hash E c' = hash_block E b" using bl by (simp add: tip_hash_def)
      obtain m where m: "map_of (known c') (hash_block E b) = Some m" "total_work c' = meta_work m"
        using tip th by auto
      have act': "active_ok E g c'" using ok' by (simp add: chain_ok_def core_ok_def)
      have mb: "meta_block m = b" using act' bl m(1) by (simp add: active_ok_def)
      have "blocks c \<noteq> []" using ok by (simp add: chain_ok_def core_ok_def active_ok_def)
      then have "hash_block E b \<noteq> g" using act' bl(1) by (auto simp: active_ok_def)
      moreover obtain pm where pm: "map_of (known c) (tip_hash E c) = Some pm" "total_work c = meta_work pm"
        using ok by (auto simp: chain_ok_def tip_ok_def)
      moreover obtain pm' where "map_of (known c') (parent_of b) = Some pm'" "meta_work pm' = meta_work pm"
        using index_extendsD [OF ext pm(1)] bl(2) by auto
      ultimately have "total_work c \<le> total_work c'" using H m mb unfolding work_unwrapped_def by metis
      then show ?thesis by (intro heaviest_kept [OF heavy ext, of "hash_block E b"]) (use known m in auto)
    qed
  qed
qed

interpretation most_work: chain_property E gb "work_unwrapped (hash_block E gb)" heaviest for E gb
proof
  show "work_unwrapped (hash_block E gb) idx"
    if "index_extends idx idx'" "work_unwrapped (hash_block E gb) idx'" for idx idx'
    using work_unwrapped_inherited that .
  show "heaviest c'" if "chain_ok E (hash_block E gb) c" "heaviest c" "connect_without_orphans E b c = (r, c')"
      "work_unwrapped (hash_block E gb) (known c')" for c b r c'
    using heaviest_step that .
  show "heaviest c" if "genesis_chain E gb nt ej dj = Inr c" for nt ej dj c
    by (rule genesis_chain_result [OF that]) (simp add: heaviest_def)
qed (simp_all add: heaviest_def)

end
