(* ===== verification/BlockFacts.thy ===== *)
theory BlockFacts
  imports BlockRules
begin

text \<open>
  What the rules of \<open>BlockRules\<close> amount to: cumulative work as addition of numbers, the acceptance of a
  block's transactions as a condition on each of them, and the bound acceptance puts on new value.
\<close>

section \<open>Cumulative work\<close>

lemma work_add_loop_val:
  "length xs = length ys \<Longrightarrow> unat carry < 256 \<Longrightarrow>
     length (work_add_loop carry xs ys) = length xs \<and>
     le_val (work_add_loop carry xs ys) = (le_val xs + le_val ys + unat carry) mod 256 ^ length xs"
proof (induction carry xs ys rule: work_add_loop.induct)
  case (1 carry a as b bs)
  let ?s = "ucast a + ucast b + carry :: u16"
  have a: "unat a < 256" "unat b < 256" using unat_u8_lt by auto
  have s: "unat ?s = unat a + unat b + unat carry"
    using a 1(3) by (simp add: unat_word_ariths unat_ucast_up)
  have low: "unat (ucast ?s :: u8) = unat ?s mod 256" by (simp add: unat_ucast_mod)
  have high: "unat (drop_bit 8 ?s) = unat ?s div 256" unfolding unat_drop_bit_eq by (simp add: drop_bit_eq_div)
  have lt: "unat (drop_bit 8 ?s) < 256" unfolding high s using a 1(3) by simp
  have ih: "length (work_add_loop (drop_bit 8 ?s) as bs) = length as"
      "le_val (work_add_loop (drop_bit 8 ?s) as bs) = (le_val as + le_val bs + unat ?s div 256) mod 256 ^ length as"
    using 1(1) [OF _ lt] 1(2) unfolding high by auto
  have split: "(m + 256 * n) mod (256 * k) = m mod 256 + 256 * ((m div 256 + n) mod k)" for m n k :: nat
  proof -
    have "(m + 256 * n) mod (256 * k) = 256 * ((m + 256 * n) div 256 mod k) + (m + 256 * n) mod 256"
      by (rule mod_mult2_eq)
    then show ?thesis by (simp add: add.commute)
  qed
  let ?n = "unat a + unat b + unat carry" and ?l = "le_val as + le_val bs" and ?k = "256 ^ length as :: nat"
  have "le_val (work_add_loop carry (a # as) (b # bs)) = ?n mod 256 + 256 * ((?n div 256 + ?l) mod ?k)"
    using ih(2) low unfolding s by (simp add: ac_simps)
  also have "\<dots> = (?n + 256 * ?l) mod (256 * ?k)" by (simp only: split)
  also have "?n + 256 * ?l = le_val (a # as) + le_val (b # bs) + unat carry" by (simp add: algebra_simps)
  finally show ?case using ih(1) by simp
qed auto

lemma work_add_val:
  assumes "length (work_bytes v) = 32" "length (work_bytes w) = 32"
  shows "le_val (work_bytes (work_add v w)) = (le_val (work_bytes v) + le_val (work_bytes w)) mod 2 ^ 256"
    and "length (work_bytes (work_add v w)) = 32"
  using work_add_loop_val [of "work_bytes v" "work_bytes w" 0] assms by (simp_all add: work_add_def)

lemma chain_work_le:
  assumes "length (work_bytes v) = 32" "length (work_bytes w) = 32"
  shows "v \<le> w \<longleftrightarrow> le_val (work_bytes v) \<le> le_val (work_bytes w)"
  using assms cmp_le_val [of "work_bytes v" "work_bytes w"] by (auto simp: less_eq_chain_work_def chain_work_cmp_def compare_nat_def)

section \<open>The transaction rules\<close>

lemma mark_spent_Inr_iff:
  "mark_spent ins spent = Inr s \<longleftrightarrow>
     distinct (map input_outpoint ins) \<and> input_outpoint ` set ins \<inter> spent = {} \<and> s = spent \<union> input_outpoint ` set ins"
  by (induction ins spent rule: mark_spent.induct) auto

lemma collect_prev_scripts_Inr_iff:
  "collect_prev_scripts view ins = Inr ps \<longleftrightarrow>
     list_all (\<lambda>i. input_outpoint i \<in> dom (entries view)) ins \<and>
     ps = map (\<lambda>i. entry_script (the (entries view (input_outpoint i)))) ins"
proof (induction view ins arbitrary: ps rule: collect_prev_scripts.induct)
  case (2 view i ins)
  then show ?case by (cases "entries view (input_outpoint i)") (auto simp: and_then_Inr_iff utxo_get_def)
qed auto

text \<open>Input \<open>j\<close> is unlocked: its locking script is empty, or the unlocking script satisfies it.\<close>

definition unlocks :: "env \<Rightarrow> transaction \<Rightarrow> bytes list \<Rightarrow> nat \<Rightarrow> bool" where
  "unlocks E tx ps j \<longleftrightarrow>
     ps ! j = [] \<or>
     (\<exists>h. sighash_all E tx j ps = Inr h \<and> verify_script E (script_sig (inputs tx ! j)) (ps ! j) h = Inr ())"

definition spent_scripts :: "utxo_set \<Rightarrow> transaction \<Rightarrow> bytes list" where
  "spent_scripts view tx = map (\<lambda>i. entry_script (the (entries view (input_outpoint i)))) (inputs tx)"

lemma verify_inputs_Inr_iff:
  "ins = drop k (inputs tx) \<Longrightarrow>
     verify_inputs E tx ps k ins = Inr () \<longleftrightarrow> (\<forall>j\<in>{k..<length (inputs tx)}. unlocks E tx ps j)"
proof (induction ins arbitrary: k)
  case Nil
  then have "length (inputs tx) \<le> k" by simp
  then show ?case by simp
next
  case (Cons i ins)
  have k: "k < length (inputs tx)" using Cons.prems by (metis drop_all linorder_not_less list.distinct(1))
  then have i: "inputs tx ! k = i" "ins = drop (k + 1) (inputs tx)"
    using Cons.prems Cons_nth_drop_Suc [OF k] by (metis list.inject, metis list.inject Suc_eq_plus1)
  have range: "{k..<length (inputs tx)} = insert k {k + 1..<length (inputs tx)}" using k by auto
  have "verify_inputs E tx ps k (i # ins) = Inr () \<longleftrightarrow> unlocks E tx ps k \<and> verify_inputs E tx ps (k + 1) ins = Inr ()"
    by (auto simp: unlocks_def and_then_Inr_iff i(1))
  then show ?case using Cons.IH [OF i(2)] unfolding range by simp
qed

definition tx_accepted :: "env \<Rightarrow> utxo_set \<Rightarrow> transaction \<Rightarrow> bool" where
  "tx_accepted E view tx \<longleftrightarrow>
     validate_transaction view tx = Inr () \<and>
     (is_coinbase tx \<or> (\<forall>j<length (inputs tx). unlocks E tx (spent_scripts view tx) j))"

definition spends :: "transaction \<Rightarrow> out_point list" where
  "spends tx = (if is_coinbase tx then [] else map input_outpoint (inputs tx))"

lemma validate_tx_step_Inr_iff:
  "validate_tx_step E tx (view, spent) = Inr st \<longleftrightarrow>
     distinct (spends tx) \<and> set (spends tx) \<inter> spent = {} \<and> tx_accepted E view tx \<and>
     st = (fst (apply_transaction E view tx), spent \<union> set (spends tx))"
proof (cases "is_coinbase tx")
  case True
  then show ?thesis by (auto simp: validate_tx_step_def spends_def tx_accepted_def and_then_Inr_iff)
next
  case False
  have all: "verify_inputs E tx ps 0 (inputs tx) = Inr () \<longleftrightarrow> (\<forall>j<length (inputs tx). unlocks E tx ps j)" for ps
    using verify_inputs_Inr_iff [of "inputs tx" 0 tx E ps] by auto
  have dom: "validate_transaction view tx = Inr () \<Longrightarrow> list_all (\<lambda>i. input_outpoint i \<in> dom (entries view)) (inputs tx)"
    using False by (simp add: validate_transaction_Inr_iff)
  show ?thesis
    using False dom
    by (auto simp: validate_tx_step_def spends_def tx_accepted_def and_then_Inr_iff mark_spent_Inr_iff
        collect_prev_scripts_Inr_iff all spent_scripts_def)
qed

fun txs_accepted :: "env \<Rightarrow> utxo_set \<Rightarrow> transaction list \<Rightarrow> bool" where
  "txs_accepted E view [] = True"
| "txs_accepted E view (tx # txs) =
     (tx_accepted E view tx \<and> txs_accepted E (fst (apply_transaction E view tx)) txs)"

lemma validate_txs_accepts:
  "(\<exists>st. validate_txs E txs (view, spent) = Inr st) \<longleftrightarrow>
     distinct (concat (map spends txs)) \<and> set (concat (map spends txs)) \<inter> spent = {} \<and> txs_accepted E view txs"
proof (induction txs arbitrary: view spent)
  case (Cons tx txs)
  have "(\<exists>st. validate_txs E (tx # txs) (view, spent) = Inr st) \<longleftrightarrow>
      distinct (spends tx) \<and> set (spends tx) \<inter> spent = {} \<and> tx_accepted E view tx \<and>
      (\<exists>st. validate_txs E txs (fst (apply_transaction E view tx), spent \<union> set (spends tx)) = Inr st)"
    by (auto simp: and_then_Inr_iff validate_tx_step_Inr_iff)
  then show ?case unfolding Cons.IH by auto
qed simp

section \<open>No value from nothing\<close>

lemma supply_map_upd_le:
  assumes "finite (dom (entries u))" "entries v = (entries u)(op \<mapsto> e)"
  shows "total_supply v \<le> total_supply u + unat (entry_value e)" "finite (dom (entries v))"
proof -
  define w where "w = u\<lparr>entries := (entries u)(op := None)\<rparr>"
  have w: "entries w = (entries u)(op := None)" "entries w op = None" "entries v = (entries w)(op \<mapsto> e)"
    by (simp_all add: w_def assms(2))
  have fin: "finite (dom (entries w))" using assms(1) by (simp add: w(1))
  have "total_supply w \<le> total_supply u"
  proof (cases "entries u op")
    case None
    then have "entries w = entries u" by (auto simp: w(1))
    then show ?thesis by (simp add: total_supply_def)
  next
    case (Some f)
    then show ?thesis using supply_remove(1) [OF assms(1) Some w(1)] by simp
  qed
  then show "total_supply v \<le> total_supply u + unat (entry_value e)"
    using supply_insert(1) [OF fin w(2,3)] by simp
  show "finite (dom (entries v))" using supply_insert(2) [OF fin w(2,3)] .
qed

lemma supply_insert_outputs_le:
  "finite (dom (entries u)) \<Longrightarrow>
     total_supply (fst (insert_outputs tid k outs u crt)) \<le> total_supply u + sum_list (map (\<lambda>out. unat (out_value out)) outs) \<and>
     finite (dom (entries (fst (insert_outputs tid k outs u crt))))"
proof (induction outs arbitrary: k u crt)
  case (Cons out outs)
  let ?op = "\<lparr>op_txid = tid, op_index = of_nat k\<rparr>"
  define v where "v = u\<lparr>entries := (entries u)(?op \<mapsto> \<lparr>entry_value = out_value out, entry_script = script_pubkey out\<rparr>)\<rparr>"
  have v: "entries v = (entries u)(?op \<mapsto> \<lparr>entry_value = out_value out, entry_script = script_pubkey out\<rparr>)"
    by (simp add: v_def)
  have step: "insert_outputs tid k (out # outs) u crt = insert_outputs tid (k + 1) outs v (crt @ [?op])"
    by (simp add: v_def)
  note sup = supply_map_upd_le [OF Cons.prems v]
  show ?case using Cons.IH [OF sup(2), of "k + 1" "crt @ [?op]"] sup(1) unfolding step by simp
qed simp

definition minted :: "transaction \<Rightarrow> nat" where
  "minted tx = (if is_coinbase tx then outputs_value tx else 0)"

lemma supply_apply_le:
  assumes fin: "finite (dom (entries u))" and ok: "tx_accepted E u tx" and dist: "distinct (spends tx)"
  shows "total_supply (fst (apply_transaction E u tx)) \<le> total_supply u + minted tx \<and>
    finite (dom (entries (fst (apply_transaction E u tx))))"
proof (cases "is_coinbase tx")
  case True
  obtain u2 c where "insert_outputs (txid E tx) 0 (outputs tx) u [] = (u2, c)" by fastforce
  then show ?thesis using supply_insert_outputs_le [OF fin, of "txid E tx" 0 "outputs tx" "[]"] True
    by (simp add: apply_transaction_def minted_def outputs_value_def)
next
  case False
  have valid: "validate_transaction u tx = Inr ()" using ok by (simp add: tx_accepted_def)
  then have dom: "list_all (\<lambda>i. input_outpoint i \<in> dom (entries u)) (inputs tx)"
      and le: "outputs_value tx \<le> inputs_value u tx"
    using False by (simp_all add: validate_transaction_Inr_iff)
  obtain u1 r where r: "remove_inputs (inputs tx) u [] = (u1, r)" by fastforce
  have u1: "finite (dom (entries u1))" "total_supply u1 + inputs_value u tx = total_supply u"
    using supply_remove_inputs [OF fin _ dom, of "[]"] dist False r by (auto simp: inputs_value_def spends_def)
  obtain u2 c where c: "insert_outputs (txid E tx) 0 (outputs tx) u1 [] = (u2, c)" by fastforce
  then show ?thesis
    using supply_insert_outputs_le [OF u1(1), of "txid E tx" 0 "outputs tx" "[]"] u1(2) le r False
    by (simp add: apply_transaction_def outputs_value_def)
qed

lemma apply_txs_fst: "fst (apply_txs E txs u) = foldl (\<lambda>u tx. fst (apply_transaction E u tx)) u txs"
proof (induction txs arbitrary: u)
  case (Cons tx txs)
  show ?case using Cons.IH [of "fst (apply_transaction E u tx)"]
    by (cases "apply_transaction E u tx"; cases "apply_txs E txs (fst (apply_transaction E u tx))") simp
qed simp

lemma supply_txs_le:
  "finite (dom (entries u)) \<Longrightarrow> txs_accepted E u txs \<Longrightarrow> distinct (concat (map spends txs)) \<Longrightarrow>
     total_supply (fst (apply_txs E txs u)) \<le> total_supply u + sum_list (map minted txs) \<and>
     finite (dom (entries (fst (apply_txs E txs u))))"
proof (induction txs arbitrary: u)
  case (Cons tx txs)
  have one: "total_supply (fst (apply_transaction E u tx)) \<le> total_supply u + minted tx \<and>
      finite (dom (entries (fst (apply_transaction E u tx))))"
    using supply_apply_le [OF Cons.prems(1)] Cons.prems(2,3) by simp
  have rest: "fst (apply_txs E (tx # txs) u) = fst (apply_txs E txs (fst (apply_transaction E u tx)))"
    unfolding apply_txs_fst by simp
  show ?case using Cons.IH [of "fst (apply_transaction E u tx)"] one Cons.prems(2,3) unfolding rest by auto
qed simp

lemma validate_block_transactions_iff:
  "validate_block_transactions_for_utxo E b u = Inr () \<longleftrightarrow>
     distinct (concat (map spends (transactions b))) \<and> txs_accepted E u (transactions b)"
  using validate_txs_accepts [of E "transactions b" u "{}"]
  by (auto simp: validate_block_transactions_for_utxo_def and_then_Inr_iff)

section \<open>Validation on a contained set\<close>

text \<open>What is accepted on a set is accepted on every set that contains it, with the same undo data.\<close>

lemma accepted_spends: "tx_accepted E u tx \<Longrightarrow> spent_outpoints tx \<subseteq> dom (entries u)"
  by (auto simp: tx_accepted_def validate_transaction_Inr_iff spent_outpoints_def list_all_iff)

lemma tx_accepted_within:
  assumes w: "within u v" and ok: "tx_accepted E u tx"
  shows "tx_accepted E v tx"
proof (cases "is_coinbase tx")
  case True
  then show ?thesis using ok by (simp add: tx_accepted_def validate_transaction_Inr_iff)
next
  case False
  have dom: "\<forall>i\<in>set (inputs tx). input_outpoint i \<in> dom (entries u)"
    using ok False by (simp add: tx_accepted_def validate_transaction_Inr_iff list_all_iff)
  then have same: "entries v (input_outpoint i) = entries u (input_outpoint i)" if "i \<in> set (inputs tx)" for i
    using that within_entry [OF w] by blast
  then have "spent_scripts v tx = spent_scripts u tx" "inputs_value v tx = inputs_value u tx"
    by (simp_all add: spent_scripts_def inputs_value_def cong: map_cong)
  moreover have "list_all (\<lambda>i. input_outpoint i \<in> dom (entries v)) (inputs tx)"
    unfolding list_all_iff using dom same by (metis domIff)
  ultimately show ?thesis using ok False by (simp add: tx_accepted_def validate_transaction_Inr_iff)
qed

lemma apply_txs_within:
  "within u v \<Longrightarrow> txs_accepted E u txs \<Longrightarrow>
     txs_accepted E v txs \<and> snd (apply_txs E txs u) = snd (apply_txs E txs v) \<and>
     within (fst (apply_txs E txs u)) (fst (apply_txs E txs v))"
proof (induction txs arbitrary: u v)
  case (Cons tx txs)
  have one: "within (fst (apply_transaction E u tx)) (fst (apply_transaction E v tx)) \<and>
      snd (apply_transaction E u tx) = snd (apply_transaction E v tx)"
    using apply_transaction_within [OF Cons.prems(1) accepted_spends [of E u tx]] Cons.prems(2) by simp
  obtain u1 v1 un where a: "apply_transaction E u tx = (u1, un)" "apply_transaction E v tx = (v1, un)" "within u1 v1"
    using one Cons.prems(2) by (cases "apply_transaction E u tx"; cases "apply_transaction E v tx") auto
  show ?case
    using Cons.IH [OF a(3)] tx_accepted_within [OF Cons.prems(1)] Cons.prems(2) a(1,2)
    by (cases "apply_txs E txs u1"; cases "apply_txs E txs v1") simp
qed simp

lemma undo_txs_within:
  "within w (fst (apply_txs E txs u)) \<Longrightarrow> within (foldl disconnect_undo w (rev (snd (apply_txs E txs u)))) u"
proof (induction txs arbitrary: u w)
  case (Cons tx txs)
  obtain u1 un where a: "apply_transaction E u tx = (u1, un)" by fastforce
  obtain u2 uns where b: "apply_txs E txs u1 = (u2, uns)" by fastforce
  have "within (foldl disconnect_undo w (rev uns)) (fst (apply_transaction E u tx))"
    using Cons.IH [of w u1] Cons.prems a b by simp
  from disconnect_undo_within [OF this] show ?case by (simp add: a b)
qed simp

end
