(* ===== verification/ChainLedger.thy ===== *)
theory ChainLedger
  imports ChainProps BlockFacts
begin

text \<open>
  The unspent set of a chain and the replay of its active blocks, every one of which was valid on the set
  its predecessors leave; reorganisations included.  The locale \<open>ledger_relation\<close> keeps a relation between the
  two sets through every operation; it is interpreted with containment, which always holds, and with
  equality, which holds as long as no branch overwrites an unspent output.
\<close>

section \<open>Replay\<close>

definition replay :: "env \<Rightarrow> utxo_set \<Rightarrow> block list \<Rightarrow> utxo_set" where
  "replay E u bs = foldl (\<lambda>u b. fst (apply_block_transactions E b u)) u bs"

lemma replay_simps [simp]:
  "replay E u [] = u" "replay E u (b # bs) = replay E (fst (apply_block_transactions E b u)) bs"
  "replay E u (xs @ ys) = replay E (replay E u xs) ys"
  by (simp_all add: replay_def)

text \<open>Every block was valid when it was connected and its undo data are those of that moment.\<close>

fun ledger :: "env \<Rightarrow> block_index \<Rightarrow> utxo_set \<Rightarrow> block list \<Rightarrow> bool" where
  "ledger E idx u [] = True"
| "ledger E idx u (b # bs) =
     (validate_block_transactions_for_utxo E b u = Inr () \<and>
      (\<exists>m. map_of idx (hash_block E b) = Some m \<and> meta_undo m = snd (apply_block_transactions E b u)) \<and>
      ledger E idx (fst (apply_block_transactions E b u)) bs)"

lemma ledger_append: "ledger E idx u (xs @ ys) \<longleftrightarrow> ledger E idx u xs \<and> ledger E idx (replay E u xs) ys"
  by (induction xs arbitrary: u) auto

lemma ledger_cong:
  "(\<And>b. b \<in> set bs \<Longrightarrow> map_of idx (hash_block E b) = map_of idx' (hash_block E b)) \<Longrightarrow>
     ledger E idx u bs = ledger E idx' u bs"
  by (induction bs arbitrary: u) auto

definition ledger_state :: "(utxo_set \<Rightarrow> utxo_set \<Rightarrow> bool) \<Rightarrow> env \<Rightarrow> chain \<Rightarrow> bool" where
  "ledger_state rel E c \<longleftrightarrow> rel (utxo c) (replay E new_utxo (blocks c)) \<and> ledger E (known c) new_utxo (blocks c)"

section \<open>Branches\<close>

text \<open>Every block of a branch satisfies \<open>F\<close> on the set its predecessors leave; so do those of all branches of an index.\<close>

fun branch_all :: "(utxo_set \<Rightarrow> block \<Rightarrow> bool) \<Rightarrow> env \<Rightarrow> utxo_set \<Rightarrow> block list \<Rightarrow> bool" where
  "branch_all F E u [] = True"
| "branch_all F E u (b # bs) = (F u b \<and> branch_all F E (fst (apply_block_transactions E b u)) bs)"

lemma branch_all_append: "branch_all F E u (xs @ ys) \<longleftrightarrow> branch_all F E u xs \<and> branch_all F E (replay E u xs) ys"
  by (induction xs arbitrary: u) auto

definition branch_of :: "env \<Rightarrow> hash32 \<Rightarrow> block_index \<Rightarrow> block list \<Rightarrow> bool" where
  "branch_of E g idx bs \<longleftrightarrow>
     bs \<noteq> [] \<and> hash_block E (hd bs) = g \<and> successively (\<lambda>a b. parent_of b = hash_block E a) bs \<and>
     (\<forall>b\<in>set bs. \<exists>m. map_of idx (hash_block E b) = Some m \<and> meta_block m = b)"

definition index_all :: "(utxo_set \<Rightarrow> block \<Rightarrow> bool) \<Rightarrow> env \<Rightarrow> hash32 \<Rightarrow> block_index \<Rightarrow> bool" where
  "index_all F E g idx \<longleftrightarrow> (\<forall>bs. branch_of E g idx bs \<longrightarrow> branch_all F E new_utxo bs)"

text \<open>Branches that overwrite no unspent output.\<close>

fun txs_fresh :: "env \<Rightarrow> utxo_set \<Rightarrow> transaction list \<Rightarrow> bool" where
  "txs_fresh E u [] = True"
| "txs_fresh E u (tx # txs) = (overwrites_none E u tx \<and> txs_fresh E (fst (apply_transaction E u tx)) txs)"

definition index_fresh :: "env \<Rightarrow> hash32 \<Rightarrow> block_index \<Rightarrow> bool" where
  "index_fresh E = index_all (\<lambda>u b. txs_fresh E u (transactions b)) E"

lemma branch_of_extends:
  assumes "index_extends idx idx'" "branch_of E g idx bs"
  shows "branch_of E g idx' bs"
proof -
  have "\<exists>m. map_of idx' (hash_block E b) = Some m \<and> meta_block m = b" if b: "b \<in> set bs" for b
  proof -
    obtain m where m: "map_of idx (hash_block E b) = Some m" "meta_block m = b"
      using assms(2) b unfolding branch_of_def by blast
    then show ?thesis using index_extendsD [OF assms(1) m(1)] by auto
  qed
  then show ?thesis using assms(2) by (simp add: branch_of_def)
qed

lemma index_all_inherited: "index_extends idx idx' \<Longrightarrow> index_all F E g idx' \<Longrightarrow> index_all F E g idx"
  unfolding index_all_def using branch_of_extends by blast

lemma index_all_True: "index_all (\<lambda>_ _. True) E g idx"
proof -
  have "branch_all (\<lambda>_ _. True) E u bs" for u bs by (induction bs arbitrary: u) simp_all
  then show ?thesis by (simp add: index_all_def)
qed

lemma active_branch: "active_ok E g c \<Longrightarrow> branch_of E g (known c) (blocks c)"
  by (simp add: active_ok_def branch_of_def)

lemma validate_for_parent_txs:
  "validate_block_for_parent E c b p ph h = Inr () \<Longrightarrow> validate_block_transactions_for_utxo E b (utxo c) = Inr ()"
  by (auto simp: validate_block_for_parent_def and_then_def split: sum.splits)

lemma ledger_state_fields:
  "ledger_state rel E (c\<lparr>total_work := w\<rparr>) = ledger_state rel E c" "ledger_state rel E (c\<lparr>orphans := os\<rparr>) = ledger_state rel E c"
  "ledger_state rel E (c\<lparr>network_time := t\<rparr>) = ledger_state rel E c" "ledger_state rel E (c\<lparr>event_journal := j\<rparr>) = ledger_state rel E c"
  "ledger_state rel E (push_event e c) = ledger_state rel E c" "ledger_state rel E (c\<lparr>store := s\<rparr>) = ledger_state rel E c"
  by (simp_all add: ledger_state_def)

lemma disconnect_tip_block_utxo:
  assumes "disconnect_tip_block E c = (Inr (), c')" "blocks c \<noteq> []"
  obtains m where "map_of (known c) (hash_block E (last (blocks c))) = Some m"
    "utxo c' = foldl disconnect_undo (utxo c) (rev (meta_undo m))" "blocks c' = butlast (blocks c)" "known c' = known c"
  using assms by (auto simp: disconnect_tip_block_def Let_def split: option.splits prod.splits)

section \<open>A relation between the unspent set and the replay\<close>

text \<open>
  What a relation must allow: a block valid on the left is valid on the right, with the same undo data, and
  related results; and undoing it from a set related to the result gives back a related set.
\<close>

locale ledger_relation =
  fixes E :: env and rel :: "utxo_set \<Rightarrow> utxo_set \<Rightarrow> bool" and F :: "utxo_set \<Rightarrow> block \<Rightarrow> bool"
  assumes rel_refl: "rel u u"
    and rel_connect: "rel u v \<Longrightarrow> validate_block_transactions_for_utxo E b u = Inr () \<Longrightarrow>
      validate_block_transactions_for_utxo E b v = Inr () \<and>
      snd (apply_block_transactions E b u) = snd (apply_block_transactions E b v) \<and>
      rel (fst (apply_block_transactions E b u)) (fst (apply_block_transactions E b v))"
    and rel_undo: "rel w (fst (apply_block_transactions E b v)) \<Longrightarrow> F v b \<Longrightarrow>
      rel (foldl disconnect_undo w (rev (snd (apply_block_transactions E b v)))) v"
begin

lemma disconnect_tip_block_replay:
  assumes dis: "disconnect_tip_block E c = (Inr (), c')" and ne: "blocks c \<noteq> []"
    and u: "ledger_state rel E c" and fresh: "branch_all F E new_utxo (blocks c)"
  shows "ledger_state rel E c' \<and> branch_all F E new_utxo (blocks c')"
proof -
  obtain m where m: "map_of (known c) (hash_block E (last (blocks c))) = Some m"
    "utxo c' = foldl disconnect_undo (utxo c) (rev (meta_undo m))" "blocks c' = butlast (blocks c)" "known c' = known c"
    using disconnect_tip_block_utxo [OF dis ne] .
  obtain bs b where split: "blocks c = bs @ [b]" using ne by (cases "blocks c" rule: rev_cases) auto
  let ?u = "replay E new_utxo bs"
  have led: "ledger E (known c) new_utxo bs" "meta_undo m = snd (apply_block_transactions E b ?u)"
      "rel (utxo c) (fst (apply_block_transactions E b ?u))"
    using u m(1) by (auto simp: ledger_state_def split ledger_append)
  have "F ?u b" "branch_all F E new_utxo bs" using fresh by (auto simp: split branch_all_append)
  moreover from this(1) have "rel (utxo c') ?u" using rel_undo [OF led(3)] by (simp add: m(2) led(2))
  ultimately show ?thesis using led(1) m(3,4) by (simp add: ledger_state_def split)
qed

lemma disconnect_until_replay:
  "disconnect_until D fh n c = (Inr k, c') \<Longrightarrow> D = E \<Longrightarrow> ledger_state rel E c \<Longrightarrow> branch_all F E new_utxo (blocks c) \<Longrightarrow>
     ledger_state rel E c'"
proof (induction D fh n c rule: disconnect_until.induct)
  case (1 D fh n c)
  show ?case
  proof (cases "tip_hash D c = fh")
    case True
    then show ?thesis using 1(2,4) by (simp add: disconnect_until.simps)
  next
    case False
    obtain r1 c1 where d: "disconnect_tip_block D c = (r1, c1)" by fastforce
    have r1: "r1 = Inr ()"
      using 1(2) False d by (cases r1) (simp_all add: disconnect_until.simps [of D fh n c])
    then have run: "disconnect_until D fh (n + 1) c1 = (Inr k, c')"
      using 1(2) False d by (simp add: disconnect_until.simps [of D fh n c])
    have "blocks c \<noteq> []" using d r1 disconnect_tip_block_empty [of c D] by auto
    then have "ledger_state rel E c1" "branch_all F E new_utxo (blocks c1)"
      using disconnect_tip_block_replay [of c c1] d r1 1(3-5) by auto
    then show ?thesis using 1(1) [OF False d [symmetric] r1 run 1(3)] by blast
  qed
qed

lemma push_related:
  assumes u: "ledger_state rel E c" and act: "active_ok E g c" and new: "hash_block E b \<notin> active_hashes c"
    and valid: "validate_block_transactions_for_utxo E b (utxo c) = Inr ()"
    and c': "blocks c' = blocks c @ [b]" "utxo c' = fst (apply_block_transactions E b (utxo c))"
      "map_of (known c') (hash_block E b) = Some m" "meta_undo m = snd (apply_block_transactions E b (utxo c))"
      "\<And>h. h \<noteq> hash_block E b \<Longrightarrow> map_of (known c') h = map_of (known c) h"
  shows "ledger_state rel E c'"
proof -
  have "ledger E (known c') new_utxo (blocks c)"
  proof (subst ledger_cong)
    show "map_of (known c') (hash_block E x) = map_of (known c) (hash_block E x)" if "x \<in> set (blocks c)" for x
      using that act new by (intro c'(5)) (auto simp: active_ok_def image_iff)
    show "ledger E (known c) new_utxo (blocks c)" using u by (simp add: ledger_state_def)
  qed
  moreover have "rel (utxo c) (replay E new_utxo (blocks c))" using u by (simp add: ledger_state_def)
  note rel_connect [OF this valid]
  ultimately show ?thesis using c'(2-4) by (simp add: ledger_state_def c'(1) ledger_append)
qed

lemma connect_fork_block_replay:
  assumes u: "ledger_state rel E c" and act: "active_ok E g c" and new: "hash_block E b \<notin> active_hashes c"
    and res: "connect_fork_block E b c = (Inr (), c')"
  shows "ledger_state rel E c'"
proof -
  obtain u' undo where ap: "apply_block_transactions E b (utxo c) = (u', undo)" by fastforce
  have valid: "validate_block_for_parent E c b (if blocks c = [] then None else Some (last (blocks c)))
      (Some (parent_of b)) (height c + 1) = Inr ()"
    using res by (auto simp: connect_fork_block_def Let_def split: sum.splits)
  obtain bw where bw: "block_work (bits (header b)) = Inr bw"
    using res ap valid by (auto simp: connect_fork_block_def Let_def split: sum.splits)
  obtain m where "blocks c' = blocks c @ [b]" "utxo c' = fst (apply_block_transactions E b (utxo c))"
    "map_of (known c') (hash_block E b) = Some m" "meta_undo m = snd (apply_block_transactions E b (utxo c))"
    "\<And>h. h \<noteq> hash_block E b \<Longrightarrow> map_of (known c') h = map_of (known c) h"
    using res valid ap bw
    by (auto simp: connect_fork_block_def Let_def put_store_Inr push_active_def insert_known_def update_conv')
  then show ?thesis using push_related [OF u act new validate_for_parent_txs [OF valid]] by blast
qed

lemma connect_fork_path_replay:
  "core_ok E g c \<Longrightarrow> connectable E c bs \<Longrightarrow> ledger_state rel E c \<Longrightarrow> connect_fork_path E bs c = (Inr (), c') \<Longrightarrow> ledger_state rel E c'"
proof (induction bs arbitrary: c)
  case (Cons b bs)
  obtain r1 c1 where one: "connect_fork_block E b c = (r1, c1)" by fastforce
  have r1: "r1 = Inr ()" and run: "connect_fork_path E bs c1 = (Inr (), c')"
    using Cons.prems(4) one by (auto split: sum.splits)
  have "hash_block E b \<notin> active_hashes c" using Cons.prems(2) by (simp add: connectable_def)
  moreover have "active_ok E g c" using Cons.prems(1) by (simp add: core_ok_def)
  ultimately have "ledger_state rel E c1" using connect_fork_block_replay Cons.prems(3) one r1 by blast
  moreover have "core_ok E g c1 \<and> connectable E c1 bs"
    using connect_fork_block_ok [OF Cons.prems(1,2) _ one, of "{}"] r1 by simp
  ultimately show ?case using Cons.IH run by blast
qed simp

text \<open>A failed reorganisation restores the set it started from; its index entries are those of the old chain.\<close>

lemma reorg_to_block_replay:
  assumes ok: "chain_ok E g c" and u: "ledger_state rel E c" and fresh: "branch_all F E new_utxo (blocks c)"
    and new: "map_of (known c) (hash_block E b) = None" "map_of (orphans c) (hash_block E b) = None"
    and parent: "map_of (known c) (parent_of b) = Some pm" and bw: "block_work (bits (header b)) = Inr bw"
    and res: "reorg_to_block E b (work_add (meta_work pm) bw) c = (r, c')"
  shows "ledger_state rel E c'"
proof -
  have core: "core_ok E g c" and act: "active_ok E g c" using ok by (auto simp: chain_ok_def core_ok_def)
  obtain path fh where path: "collect_fork_path c b = Inr (path, fh)" "fork_path E c b path fh"
    using collect_fork_path_ok [OF core _ new(1)] parent by auto
  obtain r1 c1 where try1: "try_reorg_to_block E path fh (work_add (meta_work pm) bw) c = (r1, c1)" by fastforce
  show ?thesis
  proof (cases r1)
    case (Inl e)
    then have r: "r = Inl e" "blocks c' = blocks c" "utxo c' = utxo c"
      using res path(1) try1 by (auto simp: reorg_to_block_def)
    obtain side where side: "path = side @ [b]" "side_branch E c side" using path(2) by (auto simp: fork_path_def)
    have "map_of (known c') (hash_block E x) = map_of (known c) (hash_block E x)" if "x \<in> set (blocks c)" for x
    proof (rule reorg_to_block_known(2) [OF path(1) res r(1)])
      have "hash_block E x \<in> active_hashes c" using act that by (simp add: active_ok_def)
      then show "hash_block E x \<notin> hash_block E ` set (butlast path)"
        using side by (auto simp: side_branch_def)
    qed
    then have "ledger E (known c') new_utxo (blocks c) = ledger E (known c) new_utxo (blocks c)"
      by (rule ledger_cong)
    then show ?thesis using u r by (simp add: ledger_state_def)
  next
    case (Inr d)
    obtain hgt where hgt: "find_height c fh = Some hgt"
      using try1 Inr by (cases "find_height c fh") (auto simp: try_reorg_to_block_def)
    have fh: "fh \<in> active_hashes c" using path(2) by (simp add: fork_path_def)
    obtain k c2 where c2: "disconnect_until E fh 0 c = (Inr k, c2)" "chain_ok E g c2"
      using disconnect_until_ok [OF ok fh, of 0] by blast
    obtain c3 where c3: "connect_fork_path E path c2 = (Inr (), c3)" "c1 = c3\<lparr>total_work := work_add (meta_work pm) bw\<rparr>"
      using try1 hgt c2(1) Inr by (auto simp: try_reorg_to_block_def split: prod.splits sum.splits)
    have "connectable E c2 path" using reorg_connectable(1) [OF ok path(2) new c2(1)] .
    moreover have "ledger_state rel E c2" using disconnect_until_replay [OF c2(1) refl u fresh] .
    moreover have "core_ok E g c2" using c2(2) by (simp add: chain_ok_def)
    ultimately have "ledger_state rel E c3" using connect_fork_path_replay c3(1) by blast
    moreover have "c' = c1" using res path(1) try1 Inr by (simp add: reorg_to_block_def)
    ultimately show ?thesis by (simp add: c3(2) ledger_state_fields)
  qed
qed

lemma connect_step_replay:
  assumes ok: "chain_ok E g c" and u: "ledger_state rel E c" and fresh: "branch_all F E new_utxo (blocks c)"
    and new: "map_of (known c) (hash_block E b) = None" "map_of (orphans c) (hash_block E b) = None"
    and parent: "map_of (known c) (parent_of b) = Some pm" and bw: "block_work (bits (header b)) = Inr bw"
    and valid: "validate_block_for_parent E c b (Some (meta_block pm)) (Some (parent_of b)) (meta_height pm + 1) = Inr ()"
    and res: "connect_step E b (meta_height pm + 1) (work_add (meta_work pm) bw) c = (r, c')"
  shows "ledger_state rel E c'"
proof -
  have act: "active_ok E g c" using ok by (auto simp: chain_ok_def core_ok_def)
  have inactive: "hash_block E b \<notin> active_hashes c" using new(1) active_known [OF act] by fastforce
  let ?w = "work_add (meta_work pm) bw"
  consider "parent_of b = tip_hash E c" | "parent_of b \<noteq> tip_hash E c" "?w \<le> total_work c"
    | "parent_of b \<noteq> tip_hash E c" "\<not> ?w \<le> total_work c" by blast
  then show ?thesis
  proof cases
    case 1
    obtain u' undo where ap: "apply_block_transactions E b (utxo c) = (u', undo)" by fastforce
    obtain m where "blocks c' = blocks c @ [b]" "utxo c' = fst (apply_block_transactions E b (utxo c))"
      "map_of (known c') (hash_block E b) = Some m" "meta_undo m = snd (apply_block_transactions E b (utxo c))"
      "\<And>h. h \<noteq> hash_block E b \<Longrightarrow> map_of (known c') h = map_of (known c) h"
      using res 1 ap by (auto simp: connect_step_def Let_def put_store_Inr push_active_def insert_known_def update_conv')
    then show ?thesis using push_related [OF u act inactive validate_for_parent_txs [OF valid]] by blast
  next
    case 2
    have "ledger E (known c') new_utxo (blocks c) = ledger E (known c) new_utxo (blocks c)"
    proof (rule ledger_cong)
      fix x assume "x \<in> set (blocks c)"
      then have "hash_block E x \<in> active_hashes c" using act by (simp add: active_ok_def)
      then have "hash_block E x \<noteq> hash_block E b" using inactive by auto
      then show "map_of (known c') (hash_block E x) = map_of (known c) (hash_block E x)"
        using res 2 by (auto simp: connect_step_def Let_def insert_known_def update_conv')
    qed
    moreover have "blocks c' = blocks c" "utxo c' = utxo c"
      using res 2 by (auto simp: connect_step_def Let_def insert_known_def)
    ultimately show ?thesis using u by (simp add: ledger_state_def)
  next
    case 3
    obtain r1 c1 where reorg: "reorg_to_block E b ?w c = (r1, c1)" by fastforce
    have "ledger_state rel E c1" using reorg_to_block_replay [OF ok u fresh new parent bw reorg] .
    moreover have "ledger_state rel E c' = ledger_state rel E c1"
      using res 3 reorg by (auto simp: connect_step_def ledger_state_fields split: sum.splits)
    ultimately show ?thesis by simp
  qed
qed

lemma utxo_step:
  assumes ok: "chain_ok E g c" and u: "ledger_state rel E c" and res: "connect_without_orphans E b c = (r, c')"
    and H: "index_all F E g (known c')"
  shows "ledger_state rel E c'"
proof -
  have ext: "index_extends (known c) (known c')" using connect_without_orphans_ok [OF ok res] by blast
  have "active_ok E g c" using ok by (simp add: chain_ok_def core_ok_def)
  then have fresh: "branch_all F E new_utxo (blocks c)"
    using active_branch index_all_inherited [OF ext H] unfolding index_all_def by blast
  show ?thesis using res
  proof (cases rule: connect_without_orphans_cases)
    case bad
    then show ?thesis using u by simp
  next
    case orphan
    then show ?thesis using u by (simp add: ledger_state_def)
  next
    case step
    then show ?thesis using connect_step_replay [OF ok u fresh] by blast
  qed
qed

sublocale history: chain_property E gb "index_all F E (hash_block E gb)" "ledger_state rel E" for gb
proof
  show "index_all F E (hash_block E gb) idx"
    if "index_extends idx idx'" "index_all F E (hash_block E gb) idx'" for idx idx'
    using index_all_inherited that .
  show "ledger_state rel E c'" if "chain_ok E (hash_block E gb) c" "ledger_state rel E c" "connect_without_orphans E b c = (r, c')"
      "index_all F E (hash_block E gb) (known c')" for c b r c'
    using utxo_step that .
  show "ledger_state rel E c" if "genesis_chain E gb nt ej dj = Inr c" for nt ej dj c
    by (rule genesis_chain_result [OF that]) (simp add: ledger_state_def rel_refl)
qed (simp_all add: ledger_state_fields)

end

section \<open>Containment and equality\<close>

lemma undo_txs:
  "txs_fresh E u txs \<Longrightarrow> apply_txs E txs u = (u', undos) \<Longrightarrow> foldl disconnect_undo u' (rev undos) = u"
proof (induction txs arbitrary: u u' undos)
  case (Cons tx txs)
  obtain u1 un where a: "apply_transaction E u tx = (u1, un)" by fastforce
  obtain u2 uns where b: "apply_txs E txs u1 = (u2, uns)" by fastforce
  have r: "u' = u2" "undos = un # uns" using Cons.prems(2) a b by simp_all
  have "foldl disconnect_undo u2 (rev uns) = u1" using Cons.IH [OF _ b] Cons.prems(1) a by simp
  then show ?case using disconnect_apply [OF _ a] Cons.prems(1) by (simp add: r)
qed simp

interpretation contained: ledger_relation E within "\<lambda>_ _. True" for E
proof
  fix u v w b
  show "within u u" by simp
  show "validate_block_transactions_for_utxo E b v = Inr () \<and>
      snd (apply_block_transactions E b u) = snd (apply_block_transactions E b v) \<and>
      within (fst (apply_block_transactions E b u)) (fst (apply_block_transactions E b v))"
    if "within u v" "validate_block_transactions_for_utxo E b u = Inr ()"
    using apply_txs_within [OF that(1)] that(2) by (simp add: validate_block_transactions_iff apply_block_transactions_def)
  show "within (foldl disconnect_undo w (rev (snd (apply_block_transactions E b v)))) v"
    if "within w (fst (apply_block_transactions E b v))"
    using undo_txs_within that by (simp add: apply_block_transactions_def)
qed

interpretation replayed: ledger_relation E "(=)" "\<lambda>u b. txs_fresh E u (transactions b)" for E
proof
  fix w v b
  show "foldl disconnect_undo w (rev (snd (apply_block_transactions E b v))) = v"
    if "w = fst (apply_block_transactions E b v)" "txs_fresh E v (transactions b)"
    using undo_txs [OF that(2)] that(1) by (simp add: apply_block_transactions_def)
qed simp_all

lemma reached_contained: "chain_reach E gb c \<Longrightarrow> ledger_state within E c"
  using contained.history.reached index_all_True by blast

lemma reached_replayed: "chain_reach E gb c \<Longrightarrow> index_fresh E (hash_block E gb) (known c) \<Longrightarrow> ledger_state (=) E c"
  unfolding index_fresh_def using replayed.history.reached by blast

section \<open>Limits\<close>

text \<open>Every block of the index, active or not, passed the limits.\<close>

definition indexed_limits :: "chain \<Rightarrow> bool" where
  "indexed_limits c \<longleftrightarrow> (\<forall>h m. map_of (known c) h = Some m \<longrightarrow> validate_block_limits (meta_block m) = Inr ())"

lemma connect_limits: "connect_without_orphans E b c = (Inr res, c') \<Longrightarrow> validate_block_limits b = Inr ()"
  unfolding connect_without_orphans_def connect_block_inner_step then_orphans_none by (auto split: sum.splits)

lemma connect_indexes:
  assumes ok: "chain_ok E g c" and res: "connect_without_orphans E b c = (r, c')"
    and new: "map_of (known c) h = None" "map_of (known c') h = Some m"
  shows "meta_block m = b \<and> (\<exists>res. r = Inr res)"
proof -
  have h: "h = hash_block E b \<and> (\<exists>res. r = Inr res)"
    using connect_without_orphans_known [OF ok res _ new(1)] new(2) by (cases r) force+
  then obtain res' where r: "r = Inr res'" by blast
  have out: "connect_outcome E b c r c'" and act: "active_ok E g c'"
    using connect_without_orphans_ok [OF ok res] by (auto simp: chain_ok_def core_ok_def)
  have active: "meta_block m = b" if "b \<in> set (blocks c')"
    using act that new(2) h by (auto simp: active_ok_def)
  have "meta_block m = b"
  proof (cases res')
    case Orphaned
    then have "known c' = known c" using out r by (simp add: connect_outcome_def)
    then show ?thesis using new by simp
  next
    case SideChain
    then show ?thesis using out r new(2) h by (auto simp: connect_outcome_def)
  next
    case Connected
    then show ?thesis using out r active by (auto simp: connect_outcome_def)
  next
    case Reorganized
    then show ?thesis using out r active by (auto simp: connect_outcome_def fork_path_def)
  qed
  then show ?thesis using h by blast
qed

interpretation limited: chain_property E gb "\<lambda>_. True" indexed_limits for E gb
proof
  fix c b r c' nt ej dj
  show "indexed_limits c'"
    if "chain_ok E (hash_block E gb) c" "indexed_limits c" "connect_without_orphans E b c = (r, c')"
    unfolding indexed_limits_def
  proof (intro allI impI)
    fix h m assume m: "map_of (known c') h = Some m"
    have ext: "index_extends (known c) (known c')" using connect_without_orphans_ok [OF that(1,3)] by blast
    show "validate_block_limits (meta_block m) = Inr ()"
    proof (cases "map_of (known c) h")
      case None
      then show ?thesis using connect_indexes [OF that(1,3) None m] connect_limits that(3) by blast
    next
      case (Some m0)
      then show ?thesis using index_extendsD [OF ext Some] m that(2) by (auto simp: indexed_limits_def)
    qed
  qed
  show "indexed_limits c" if "genesis_chain E gb nt ej dj = Inr c" for c
  proof -
    have "validate_block_limits gb = Inr ()"
      using that by (auto simp: genesis_chain_def and_then_Inr_iff Let_def split: if_splits)
    then show ?thesis by (rule_tac genesis_chain_result [OF that]) (simp add: indexed_limits_def)
  qed
qed (simp_all add: indexed_limits_def)

lemma limited_outputs:
  assumes "validate_block_limits b = Inr ()" "tx \<in> set (transactions b)"
  shows "length (outputs tx) < 2 ^ 32 - 1"
proof -
  have "8 * length xs \<le> sum_list (map (\<lambda>x. 8 + f x + g x) xs)" for xs :: "tx_output list" and f g :: "tx_output \<Rightarrow> nat"
    by (induction xs) auto
  then have "8 * length (outputs tx) \<le> tx_serialized_size tx"
    unfolding tx_serialized_size_def by (meson le_add1 le_add2 le_trans)
  moreover have "tx_serialized_size tx \<le> sum_list (map tx_serialized_size (transactions b))"
    using assms(2) by (intro member_le_sum_list) auto
  moreover have "block_serialized_size b \<le> 4000000"
    using assms(1) by (simp add: validate_block_limits_def limit_defs split: if_splits)
  ultimately show ?thesis by (simp add: block_serialized_size_def)
qed

lemma reached_outputs:
  assumes reach: "chain_reach E gb c" and b: "b \<in> set (blocks c)" and tx: "tx \<in> set (transactions b)"
  shows "length (outputs tx) < 2 ^ 32 - 1"
proof -
  have "active_ok E (hash_block E gb) c" using chain_reach_ok [OF reach] by (simp add: chain_ok_def core_ok_def)
  then obtain m where m: "map_of (known c) (hash_block E b) = Some m" "meta_block m = b"
    using b unfolding active_ok_def by blast
  have "indexed_limits c" using limited.reached [OF reach] by simp
  then have "validate_block_limits b = Inr ()" using m by (auto simp: indexed_limits_def)
  then show ?thesis using tx by (rule limited_outputs)
qed

end
