(* ===== verification/Samples.thy ===== *)
theory Samples
  imports ChainLedger BlockFacts
begin

text \<open>A concrete chain of two blocks, for the witnesses.  The toy hash of a header is the low byte of its time.\<close>

definition sample_env :: env where
  "sample_env = toy_env\<lparr>sha256_digest := (\<lambda>bs. (if length bs = 80 then bs ! 68 else hd bs) # replicate 31 0)\<rparr>"

lemma sample_hash_ok: "hash_ok sample_env"
  by (simp add: hash_ok_def sample_env_def toy_env_def)

lemma serialize_header_time:
  "length (prev_blockhash h) = 32 \<Longrightarrow> length (hdr_merkle_root h) = 32 \<Longrightarrow>
     length (serialize_header h) = 80 \<and> serialize_header h ! 68 = ucast (time h)"
  by (simp add: serialize_header_def copy_at_def u32_to_le_bytes_def nth_append eval_simps min_def)

definition sample_header :: "u32 \<Rightarrow> hash32 \<Rightarrow> block_header" where
  "sample_header t prev = \<lparr>version = 1, prev_blockhash = prev, hdr_merkle_root = replicate 32 0, time = t,
     bits = 0x1f010000, nonce = 0\<rparr>"

definition sample_hash :: "u32 \<Rightarrow> hash32" where
  "sample_hash t = ucast t # replicate 31 0"

definition paid_at :: "u32 \<Rightarrow> hash32 \<Rightarrow> u32 \<Rightarrow> u64 \<Rightarrow> block" where
  "paid_at t prev hgt v = coinbase_block sample_env (sample_header t prev) hgt v"

abbreviation sample_at :: "u32 \<Rightarrow> hash32 \<Rightarrow> u32 \<Rightarrow> block" where
  "sample_at t prev hgt \<equiv> paid_at t prev hgt 50"

definition sample_genesis :: block where
  "sample_genesis = sample_at 1 (replicate 32 0) 0"

definition sample_child :: block where
  "sample_child = sample_at 2 (sample_hash 1) 1"

lemma coinbase_root:
  "\<exists>root. length root = 32 \<and> header (paid_at t prev hgt v) = (sample_header t prev)\<lparr>hdr_merkle_root := root\<rparr>"
  using length_sha256d [OF sample_hash_ok]
  by (auto simp: paid_at_def coinbase_block_def merkle_root_from_transactions_def merkle_root_def
      MAX_TRANSACTIONS_PER_BLOCK_def merkle_levels.simps txid_def)

lemma paid_at_simps [simp]:
  "prev_blockhash (header (paid_at t prev hgt v)) = prev" "time (header (paid_at t prev hgt v)) = t"
  "bits (header (paid_at t prev hgt v)) = 0x1f010000" "transactions (paid_at t prev hgt v) = [coinbase_tx hgt v]"
  using coinbase_root [of t prev hgt v] by (auto simp: sample_header_def) (auto simp: paid_at_def coinbase_block_def Let_def)

lemma sample_hash_block:
  assumes "length prev = 32"
  shows "hash_block sample_env (paid_at t prev hgt v) = sample_hash t"
proof -
  obtain root where r: "length root = 32" "header (paid_at t prev hgt v) = (sample_header t prev)\<lparr>hdr_merkle_root := root\<rparr>"
    using coinbase_root by blast
  then have "length (serialize_header (header (paid_at t prev hgt v))) = 80 \<and>
      serialize_header (header (paid_at t prev hgt v)) ! 68 = ucast t"
    using serialize_header_time [of "header (paid_at t prev hgt v)"] assms by (simp add: sample_header_def)
  then show ?thesis
    by (simp add: hash_block_def hash_header_def sha256d_def sample_env_def toy_env_def sample_hash_def)
qed

lemma length_sample_hash [simp]: "length (sample_hash t) = 32"
  by (simp add: sample_hash_def)

lemma sample_target: "from_bits 0x1f010000 = Some \<lparr>threshold = replicate 30 0 @ [1, 0]\<rparr>"
  by (simp add: from_bits_alt Let_def copy_at_def u32_to_le_bytes_def eval_simps and_7fffff unat_ucast_mod)

lemma sample_work: "\<exists>w. block_work 0x1f010000 = Inr w"
proof -
  let ?t = "replicate 30 0 @ [1, 0] :: bytes"
  have succ: "add_u256_le ?t 1 = Some (1 # replicate 29 0 @ [1, 0])"
    by (simp add: add_u256_le_def eval_simps checked_add_def)
  have "no_ff (1 # replicate 29 0 @ [1, 0])" by (simp add: eval_simps)
  then have safe: "\<not> work_overflows ?t" by (rule no_ff_work [OF succ])
  have "map_option le_val (work_from_target ?t) = Some (2 ^ 256 div (le_val ?t + 1))"
    by (rule work_from_target_exact [OF _ _ succ safe]) (simp_all add: zero_u256_def eval_simps)
  then show ?thesis by (auto simp: block_work_def sample_target to_work_def ok_or_def)
qed

lemma sample_meets: "meets \<lparr>threshold = replicate 30 0 @ [1, 0]\<rparr> (sample_hash t)"
proof -
  have "le_val (sample_hash t) < 256" by (simp add: sample_hash_def unat_u8_lt)
  then show ?thesis by (simp add: meets_iff sample_hash_def le_val_append)
qed

lemma sample_limits: "validate_block_limits (paid_at t prev hgt v) = Inr ()"
  by (simp add: validate_block_limits_def tx_scripts_within_limit_def block_serialized_size_def tx_serialized_size_def
      coinbase_tx_def compact_size_encoded_len_def limit_defs)

lemma sample_coinbase: "is_coinbase (coinbase_tx hgt v)"
  by (simp add: is_coinbase_def coinbase_tx_def)

lemma sample_txs: "validate_block_transactions_for_utxo E (paid_at t prev hgt v) u = Inr ()"
  by (simp add: validate_block_transactions_iff spends_def tx_accepted_def sample_coinbase validate_transaction_Inr_iff)
    (use unsigned_less [of v] in \<open>simp add: coinbase_tx_def outputs_value_def\<close>)

lemma sample_header_ok:
  assumes "length prev = 32" "expected_bits sample_env bs h 0x1f010000 = Inr 0x1f010000"
    "\<And>ph. parent_hash = Some ph \<Longrightarrow> valid_block_time t (median_past_time_before idx ph) nt"
  shows "validate_block_header_for_parent sample_env idx bs nt (paid_at t prev hgt v) parent parent_hash h = Inr ()"
  using assms
  by (auto simp: validate_block_header_for_parent_def sample_target sample_meets sample_hash_block sample_coinbase Let_def
      ok_or_def split: option.splits)
    (simp_all add: paid_at_def coinbase_block_merkle)

definition paid_genesis :: "u32 \<Rightarrow> u64 \<Rightarrow> block" where
  "paid_genesis t v = paid_at t (replicate 32 0) 0 v"

lemma paid_genesis_chain:
  assumes "nt \<noteq> 0"
  shows "\<exists>c. new_genesis sample_env (paid_genesis t v) nt = Inr c"
proof -
  obtain w where w: "block_work 0x1f010000 = Inr w" using sample_work by blast
  obtain u undo where ap: "apply_block_transactions sample_env (paid_genesis t v) new_utxo = (u, undo)" by fastforce
  have head: "validate_block_header_for_parent sample_env [] [] nt (paid_genesis t v) None None 0 = Inr ()"
    unfolding paid_genesis_def by (rule sample_header_ok) (simp_all add: expected_bits_def)
  then show ?thesis
    using assms w ap sample_limits sample_txs
    by (simp add: new_genesis_def genesis_chain_def Let_def validate_block_for_parent_def put_store_Inr paid_genesis_def)
qed

lemma paid_child_connects:
  assumes gen: "genesis_chain sample_env (paid_genesis t0 v0) nt ej dj = Inr c"
    and t: "t0 < t" "t \<le> saturating_add nt 7200" "sample_hash t \<noteq> sample_hash t0" "sample_hash t0 \<noteq> replicate 32 0"
  shows "\<exists>c'. connect_block sample_env (paid_at t (sample_hash t0) 1 v) c = (Inr (Connected 1 (sample_hash t)), c') \<and>
    event_journal c' = fst (journal_push (BlockConnected 1 (sample_hash t) 1) (event_journal c))"
proof -
  let ?g = "paid_genesis t0 v0" and ?b = "paid_at t (sample_hash t0) 1 v"
  obtain w where w: "block_work 0x1f010000 = Inr w" using sample_work by blast
  have h: "hash_block sample_env ?g = sample_hash t0" "hash_block sample_env ?b = sample_hash t"
    by (simp_all add: paid_genesis_def sample_hash_block)
  obtain c0 where c0: "blocks c = [?g]" "orphans c = []" "network_time c = nt" "tip_hash sample_env c = sample_hash t0"
    "known c = [(sample_hash t0, \<lparr>meta_block = ?g, meta_height = 0, meta_work = c0,
       meta_undo = snd (apply_block_transactions sample_env ?g new_utxo)\<rparr>)]"
    by (rule genesis_chain_result [OF gen]) (simp add: h tip_hash_def)
  have bits: "expected_bits sample_env (blocks c) 1 0x1f010000 = Inr 0x1f010000"
    by (simp add: expected_bits_def c0 difficulty_adjustment_interval_def DIFFICULTY_ADJUSTMENT_INTERVAL_def
        sample_env_def toy_env_def paid_genesis_def)
  have "median_past_time_before (known c) (sample_hash t0) = t0"
    using t(4) by (simp add: median_past_time_before_def c0(5) numeral_eq_Suc paid_genesis_def)
  then have tm: "valid_block_time t (median_past_time_before (known c) (sample_hash t0)) nt"
    using t(1,2) by (simp add: valid_block_time_def MAX_FUTURE_BLOCK_TIME_def)
  have valid: "validate_block_for_parent sample_env c ?b (Some ?g) (Some (sample_hash t0)) 1 = Inr ()"
    unfolding validate_block_for_parent_def c0(3)
    using sample_header_ok [OF _ bits, of "sample_hash t0" "Some (sample_hash t0)" t "known c" nt 1 v "Some ?g"] tm sample_txs
    by simp
  obtain r c1 where run: "connect_without_orphans sample_env ?b c = (r, c1)" by fastforce
  obtain u undo where ap: "apply_block_transactions sample_env ?b (utxo c) = (u, undo)" by fastforce
  have "r = Inr (Connected 1 (sample_hash t)) \<and> orphans c1 = [] \<and>
      event_journal c1 = fst (journal_push (BlockConnected 1 (sample_hash t) 1) (event_journal c))"
    using run valid ap w
    unfolding connect_without_orphans_def connect_block_inner_step then_orphans_none connect_step_def Let_def paid_at_simps h c0(4,5)
    by (auto simp: sample_limits t(3) c0(2) put_store_Inr
        push_active_def insert_known_def push_event_def Let_def)
  then show ?thesis using run
    by (simp add: connect_block_def connect_block_inner_after process_orphans_def enqueue_ready_orphans_def
        ready_orphans_def remove_ready_def)
qed

lemma sample_genesis_paid: "sample_genesis = paid_genesis 1 50"
  by (simp add: sample_genesis_def paid_genesis_def)

lemma sample_genesis_chain: "\<exists>c. new_genesis sample_env sample_genesis 10 = Inr c"
  unfolding sample_genesis_paid by (rule paid_genesis_chain) simp

lemma sample_hash_neq: "sample_hash 2 \<noteq> sample_hash 1"
  by (simp add: sample_hash_def)

lemma sample_child_connects:
  assumes gen: "new_genesis sample_env sample_genesis 10 = Inr c"
  shows "\<exists>c'. connect_block sample_env sample_child c = (Inr (Connected 1 (sample_hash 2)), c') \<and>
    event_journal c' = fst (journal_push (BlockConnected 1 (sample_hash 2) 1) (event_journal c))"
  unfolding sample_child_def
  by (rule paid_child_connects [OF gen [unfolded sample_genesis_paid new_genesis_def]])
    (simp_all add: saturating_add_def sample_hash_neq, simp add: sample_hash_def numeral_eq_Suc)

end
