(* ===== verification/ChainTheorems.thy ===== *)
theory ChainTheorems
  imports Samples
begin

text \<open>The properties of the chain, over every state reachable from a genesis block.\<close>

section \<open>Concrete states\<close>

lemma sample_reach:
  obtains c c' where "new_genesis sample_env sample_genesis 10 = Inr c" "chain_reach sample_env sample_genesis c"
    "connect_block sample_env sample_child c = (Inr (Connected 1 (sample_hash 2)), c')"
    "chain_reach sample_env sample_genesis c'"
proof -
  obtain c where c: "new_genesis sample_env sample_genesis 10 = Inr c" using sample_genesis_chain by blast
  obtain c' where c': "connect_block sample_env sample_child c = (Inr (Connected 1 (sample_hash 2)), c')"
    using sample_child_connects [OF c] by blast
  have "chain_reach sample_env sample_genesis c" using c unfolding new_genesis_def by (rule reach_genesis)
  moreover from this have "chain_reach sample_env sample_genesis c'" using c' by (rule reach_connect)
  ultimately show thesis using that c c' by blast
qed

lemma sample_genesis_hash: "hash_block sample_env sample_genesis = sample_hash 1"
  by (simp add: sample_genesis_def sample_hash_block)

lemma sample_genesis_known:
  assumes "new_genesis sample_env sample_genesis 10 = Inr c"
  shows "\<exists>m. known c = [(sample_hash 1, m)] \<and> meta_block m = sample_genesis" "blocks c = [sample_genesis]" "orphans c = []"
  by (rule genesis_chain_result [OF assms [unfolded new_genesis_def]]; simp add: sample_genesis_hash)+

lemma sample_index_fresh:
  assumes gen: "new_genesis sample_env sample_genesis 10 = Inr c"
  shows "index_fresh sample_env (hash_block sample_env sample_genesis) (known c)"
  unfolding index_fresh_def index_all_def
proof (intro allI impI)
  fix bs assume br: "branch_of sample_env (hash_block sample_env sample_genesis) (known c) bs"
  have only: "b = sample_genesis" if "b \<in> set bs" for b
    using br that sample_genesis_known(1) [OF gen] by (auto simp: branch_of_def split: if_splits)
  have neq: "parent_of sample_genesis \<noteq> sample_hash 1"
    by (simp add: sample_genesis_def sample_hash_def numeral_eq_Suc)
  obtain b bs' where bs: "bs = b # bs'" using br by (cases bs) (auto simp: branch_of_def)
  have "bs' = []"
  proof (cases bs')
    case (Cons d ds)
    have "parent_of d = hash_block sample_env b" using br by (simp add: branch_of_def bs Cons)
    moreover have "b = sample_genesis" "d = sample_genesis" using only by (simp_all add: bs Cons)
    ultimately have "parent_of sample_genesis = sample_hash 1" by (simp add: sample_genesis_hash)
    then show ?thesis using neq by contradiction
  qed simp
  then have "bs = [sample_genesis]" using bs only by simp
  then show "branch_all (\<lambda>u b. txs_fresh sample_env u (transactions b)) sample_env new_utxo bs"
    by (simp add: sample_genesis_def overwrites_none_def new_utxo_def)
qed

section \<open>Transactions of a block\<close>

text \<open>
  C7. Block transactions: a block's transactions are accepted on an unspent set exactly when no outpoint is
  spent twice anywhere in the block and each transaction, on the set its predecessors in the
  block leave, spends existing outputs worth at least its own and unlocks each of them; and then
  the block adds at most what its coinbases pay out to the value of the set.
\<close>

theorem block_transactions_accepted:
  "(validate_block_transactions_for_utxo E b u = Inr () \<longleftrightarrow>
      distinct (concat (map spends (transactions b))) \<and>
      (\<forall>k<length (transactions b).
         tx_accepted E (foldl (\<lambda>u tx. fst (apply_transaction E u tx)) u (take k (transactions b))) (transactions b ! k))) \<and>
   (validate_block_transactions_for_utxo E b u = Inr () \<and> finite (dom (entries u)) \<longrightarrow>
      total_supply (fst (apply_block_transactions E b u)) \<le> total_supply u + sum_list (map minted (transactions b)))"
proof
  have "txs_accepted E u txs \<longleftrightarrow>
      (\<forall>k<length txs. tx_accepted E (foldl (\<lambda>u tx. fst (apply_transaction E u tx)) u (take k txs)) (txs ! k))" for txs
    by (induction txs arbitrary: u) (auto simp: All_less_Suc2)
  then show "validate_block_transactions_for_utxo E b u = Inr () \<longleftrightarrow>
      distinct (concat (map spends (transactions b))) \<and>
      (\<forall>k<length (transactions b).
         tx_accepted E (foldl (\<lambda>u tx. fst (apply_transaction E u tx)) u (take k (transactions b))) (transactions b ! k))"
    unfolding validate_block_transactions_iff by simp
  show "validate_block_transactions_for_utxo E b u = Inr () \<and> finite (dom (entries u)) \<longrightarrow>
      total_supply (fst (apply_block_transactions E b u)) \<le> total_supply u + sum_list (map minted (transactions b))"
    using supply_txs_le [of u E "transactions b"] by (auto simp: validate_block_transactions_iff apply_block_transactions_def)
qed

theorem block_transactions_accepted_witness:
  "total_supply (fst (apply_block_transactions sample_env sample_genesis new_utxo)) \<le> 50"
proof -
  have "sum_list (map minted (transactions sample_genesis)) = 50"
    by (simp add: sample_genesis_def minted_def sample_coinbase) (simp add: outputs_value_def coinbase_tx_def)
  moreover have "validate_block_transactions_for_utxo sample_env sample_genesis new_utxo = Inr ()"
    by (simp add: sample_genesis_def sample_txs)
  ultimately show ?thesis
    using block_transactions_accepted [of sample_env sample_genesis new_utxo] by (simp add: new_utxo_def total_supply_def)
qed

section \<open>The invariant\<close>

text \<open>
  C1. Chain invariant: in every state reachable from a genesis block by connecting blocks, setting the
  clock and taking events, the block index is a tree rooted at the genesis with consistent heights and
  cumulative work, the active chain is a path of it from the genesis to the tip without repetition, the
  hash set and the store hold exactly what the active chain needs, the total work is the tip's, and
  the orphan pool holds at most 256 blocks, none of them indexed.
\<close>

theorem reachable_chain_ok:
  assumes "chain_reach E gb c"
  shows "chain_ok E (hash_block E gb) c"
  using assms by (rule chain_reach_ok)

theorem reachable_chain_ok_witness:
  "\<exists>c. connect_block sample_env sample_child (projr (new_genesis sample_env sample_genesis 10)) =
         (Inr (Connected 1 (sample_hash 2)), c) \<and> chain_ok sample_env (sample_hash 1) c"
  by (rule sample_reach) (use reachable_chain_ok sample_genesis_hash in force)

text \<open>
  C5. One block: connecting a block without its orphans either fails and leaves the active chain, the
  unspent set, the work and the orphan pool as they were; or puts a block with an unknown parent in the
  pool; or indexes it beside an active chain with at least its work; or extends the tip by it, applying
  its transactions and adding its work; or moves the tip to it along the path from the last common
  active block, which then has strictly more work.
\<close>

theorem connect_single_block:
  assumes "chain_reach E gb c" and "connect_without_orphans E b c = (r, c')"
  shows "connect_outcome E b c r c' \<and> index_extends (known c) (known c')"
  using connect_without_orphans_ok [OF chain_reach_ok [OF assms(1)] assms(2)] by blast

theorem connect_single_block_witness:
  "\<exists>c r c'. new_genesis sample_env sample_genesis 10 = Inr c \<and>
     connect_without_orphans sample_env sample_child c = (r, c') \<and> connect_outcome sample_env sample_child c r c'"
proof (rule sample_reach)
  fix c
  assume c: "new_genesis sample_env sample_genesis 10 = Inr c" "chain_reach sample_env sample_genesis c"
  obtain r c' where run: "connect_without_orphans sample_env sample_child c = (r, c')" by fastforce
  show ?thesis using connect_single_block [OF c(2) run] c(1) run by blast
qed

text \<open>
  C6. The orphan queue ends: \<open>connect_block\<close> never runs out of the turns its loops are given (every turn
  takes a block out of the queue and none goes back), and when it reports a connected block or a
  reorganisation, no block is left in the pool whose parent is indexed.  After a block of a side chain or the error of
  a waiting orphan there may be such blocks.
\<close>

theorem connect_block_ends:
  assumes "chain_reach E gb c" and "connect_block E b c = (r, c')"
  shows "r \<noteq> Inl OutOfFuel \<and>
    (\<forall>res h e. r = Inr res \<and> processes_orphans res \<and> map_of (orphans c') h = Some e \<longrightarrow>
       map_of (known c') (parent_of (orphan_block e)) = None)"
proof -
  note ok = connect_block_ok [OF chain_reach_ok [OF assms(1)] assms(2)]
  have "orphans_wait c'" if "r = Inr res" "processes_orphans res" for res
    using ok that by (cases res) (auto simp: processes_orphans_def)
  then show ?thesis using ok unfolding orphans_wait_def by blast
qed

theorem connect_block_ends_witness:
  "fst (connect_block sample_env sample_child (projr (new_genesis sample_env sample_genesis 10))) \<noteq> Inl OutOfFuel"
  by (rule sample_reach) (use connect_block_ends [of sample_env sample_genesis _ sample_child] in force)

section \<open>The most-work rule\<close>

text \<open>
  C2. Most work: in every reachable state whose cumulative work has not wrapped around \<open>2 ^ 256\<close>, no
  indexed block - on the active chain or on a side chain - has more cumulative work than the active
  tip, whose work is the total work.
\<close>

theorem most_work_tip:
  assumes "chain_reach E gb c" and "work_unwrapped (hash_block E gb) (known c)"
  shows "(\<forall>h m. map_of (known c) h = Some m \<longrightarrow> meta_work m \<le> total_work c) \<and>
    (\<exists>m. map_of (known c) (tip_hash E c) = Some m \<and> meta_work m = total_work c)"
proof -
  have "tip_ok E c" using chain_reach_ok [OF assms(1)] by (simp add: chain_ok_def)
  then show ?thesis using most_work.reached [OF assms] unfolding heaviest_def tip_ok_def by metis
qed

theorem most_work_tip_witness:
  "\<exists>c m. new_genesis sample_env sample_genesis 10 = Inr c \<and> map_of (known c) (tip_hash sample_env c) = Some m \<and>
     meta_work m = total_work c"
proof (rule sample_reach)
  fix c
  assume c: "new_genesis sample_env sample_genesis 10 = Inr c" "chain_reach sample_env sample_genesis c"
  have "work_unwrapped (hash_block sample_env sample_genesis) (known c)"
    using sample_genesis_known(1) [OF c(1)] by (auto simp: work_unwrapped_def sample_genesis_hash split: if_splits)
  from most_work_tip [OF c(2) this] c(1) show ?thesis by blast
qed

section \<open>The unspent set\<close>

text \<open>
  C3. Replay: in every reachable state, whatever reorganisations succeeded or failed on the way, every active
  block is valid on the set that applying its predecessors in order to the empty set gives, and the unspent
  set is contained in the set that applying all active blocks gives: it holds no output that is not an unspent
  output of the active chain.  When no branch of the index overwrites an unspent output, the two are equal;
  otherwise undoing the overwriting block can lose outputs.
\<close>

theorem unspent_set_is_replay:
  assumes "chain_reach E gb c"
  shows "(\<forall>k<length (blocks c).
      validate_block_transactions_for_utxo E (blocks c ! k) (replay E new_utxo (take k (blocks c))) = Inr ()) \<and>
    entries (utxo c) \<subseteq>\<^sub>m entries (replay E new_utxo (blocks c)) \<and>
    (index_fresh E (hash_block E gb) (known c) \<longrightarrow> utxo c = replay E new_utxo (blocks c))"
proof (intro conjI allI impI)
  note ok = reached_contained [OF assms]
  then show "entries (utxo c) \<subseteq>\<^sub>m entries (replay E new_utxo (blocks c))" by (simp add: ledger_state_def within_def)
  show "utxo c = replay E new_utxo (blocks c)" if "index_fresh E (hash_block E gb) (known c)"
    using reached_replayed [OF assms that] by (simp add: ledger_state_def)
  fix k assume k: "k < length (blocks c)"
  have "ledger E (known c) new_utxo (take k (blocks c) @ blocks c ! k # drop (Suc k) (blocks c))"
    using ok k by (simp add: ledger_state_def flip: id_take_nth_drop)
  then show "validate_block_transactions_for_utxo E (blocks c ! k) (replay E new_utxo (take k (blocks c))) = Inr ()"
    by (simp add: ledger_append)
qed

theorem unspent_set_is_replay_witness:
  "\<exists>c. new_genesis sample_env sample_genesis 10 = Inr c \<and> utxo c = replay sample_env new_utxo [sample_genesis] \<and>
     validate_block_transactions_for_utxo sample_env sample_genesis new_utxo = Inr ()"
proof (rule sample_reach)
  fix c
  assume c: "new_genesis sample_env sample_genesis 10 = Inr c" "chain_reach sample_env sample_genesis c"
  note r = unspent_set_is_replay [OF c(2), unfolded sample_genesis_known(2) [OF c(1)]]
  show ?thesis using r sample_index_fresh [OF c(1)] c(1) by auto
qed

lemma new_utxo_empty: "total_supply new_utxo = 0" "finite (dom (entries new_utxo))"
  by (simp_all add: new_utxo_def total_supply_def)

lemma ledger_supply:
  "ledger E idx u bs \<Longrightarrow> finite (dom (entries u)) \<Longrightarrow>
     total_supply (replay E u bs) \<le> total_supply u + sum_list (map (\<lambda>b. sum_list (map minted (transactions b))) bs) \<and>
     finite (dom (entries (replay E u bs)))"
proof (induction bs arbitrary: u)
  case (Cons b bs)
  have "txs_accepted E u (transactions b)" "distinct (concat (map spends (transactions b)))"
    using Cons.prems(1) by (simp_all add: validate_block_transactions_iff)
  note one = supply_txs_le [OF Cons.prems(2) this]
  show ?case using Cons.IH [of "fst (apply_block_transactions E b u)"] Cons.prems(1) one
    by (simp add: apply_block_transactions_def)
qed simp

text \<open>
  C4. No inflation along the chain: in every reachable state, after any reorganisations, the unspent outputs are
  together worth at most what the coinbase transactions of the active blocks paid out.
\<close>

theorem supply_bounded_by_coinbases:
  assumes "chain_reach E gb c"
  shows "total_supply (utxo c) \<le> sum_list (map (\<lambda>b. sum_list (map minted (transactions b))) (blocks c))"
proof -
  have ok: "within (utxo c) (replay E new_utxo (blocks c))" "ledger E (known c) new_utxo (blocks c)"
    using reached_contained [OF assms] by (simp_all add: ledger_state_def)
  note bound = ledger_supply [OF ok(2)]
  show ?thesis using supply_within [OF ok(1)] bound new_utxo_empty by simp
qed

theorem supply_bounded_by_coinbases_witness:
  "\<exists>c. new_genesis sample_env sample_genesis 10 = Inr c \<and> total_supply (utxo c) \<le> 50"
proof (rule sample_reach)
  fix c
  assume c: "new_genesis sample_env sample_genesis 10 = Inr c" "chain_reach sample_env sample_genesis c"
  have "sum_list (map minted (transactions sample_genesis)) = 50"
    by (simp add: sample_genesis_def minted_def sample_coinbase) (simp add: outputs_value_def coinbase_tx_def)
  then show ?thesis
    using supply_bounded_by_coinbases [OF c(2)] c(1)
    by (auto simp: sample_genesis_known(2))
qed

section \<open>The orphan pool\<close>

lemma oldest_orphan_least: "oldest_orphan os = Some (h, e) \<Longrightarrow> (k, f) \<in> set os \<Longrightarrow> received_at e \<le> received_at f"
  by (induction os arbitrary: h e) (fastforce split: option.splits if_splits)+

text \<open>
  C8. Orphan eviction: storing a block in a full pool removes exactly one entry, one received no later
  than any other, and stores the block; in a pool with room nothing is removed.  The pool never
  exceeds 256 blocks.
\<close>

theorem orphan_pool_evicts_oldest:
  assumes "chain_reach E gb c" and "map_of (orphans c) (hash_block E b) = None"
  shows "length (orphans c) \<le> 256 \<and>
    (\<exists>pool entry. orphans (insert_orphan E b c) = pool @ [(hash_block E b, entry)] \<and> orphan_block entry = b \<and>
       (if length (orphans c) < 256 then pool = orphans c
        else \<exists>h e. pool = AList.delete h (orphans c) \<and> (h, e) \<in> set (orphans c) \<and>
          (\<forall>(k, f)\<in>set (orphans c). received_at e \<le> received_at f)))"
proof -
  have pool: "length (orphans c) \<le> 256"
    using chain_reach_ok [OF assms(1)] by (simp add: chain_ok_def core_ok_def orphans_ok_def MAX_ORPHAN_BLOCKS_def)
  have append: "map_of al k = None \<Longrightarrow> AList.update k v al = al @ [(k, v)]" for k and v :: orphan_entry and al
    by (induction al) auto
  show ?thesis
  proof (cases "length (orphans c) < 256")
    case True
    then show ?thesis using pool append [OF assms(2)]
      by (auto simp: insert_orphan_def Let_def push_event_def MAX_ORPHAN_BLOCKS_def)
  next
    case False
    obtain h e where old: "oldest_orphan (orphans c) = Some (h, e)"
      using False by (cases "oldest_orphan (orphans c)") auto
    have none: "map_of (AList.delete h (orphans c)) (hash_block E b) = None"
      using assms(2) by (simp add: delete_conv')
    have "orphans (insert_orphan E b c) = AList.delete h (orphans c) @
        [(hash_block E b, \<lparr>orphan_block = b, received_at = orphan_receive_seq c + 1\<rparr>)]"
      using False pool old append [OF none]
      by (simp add: insert_orphan_def Let_def evict_oldest_orphan_def push_event_def MAX_ORPHAN_BLOCKS_def)
    then show ?thesis using False pool oldest_orphan_Some [OF old] oldest_orphan_least [OF old] by auto
  qed
qed

theorem orphan_pool_evicts_oldest_witness:
  "\<exists>c e. new_genesis sample_env sample_genesis 10 = Inr c \<and>
     orphans (insert_orphan sample_env sample_child c) = [(hash_block sample_env sample_child, e)]"
proof (rule sample_reach)
  fix c
  assume c: "new_genesis sample_env sample_genesis 10 = Inr c" "chain_reach sample_env sample_genesis c"
  have none: "orphans c = []" using sample_genesis_known(3) [OF c(1)] .
  show ?thesis using orphan_pool_evicts_oldest [OF c(2), of sample_child] c(1) none by auto
qed

end
