(* ===== verification/Mempool.thy ===== *)
theory Mempool
  imports Chain
begin

text \<open>
  \<open>crates/bitrst-core/src/mempool.rs\<close>.  The two hash maps are association lists: the code sorts by sequence
  number or takes a minimum wherever the order of the entries would matter.  An operation that can fail
  after it has changed the pool returns its result together with the pool it leaves; a loop whose end
  depends on the pool being well formed returns \<open>None\<close> when the turns it is given do not suffice.
\<close>

section \<open>State\<close>

record mempool_limits =
  max_tx_count :: nat
  max_bytes :: nat

definition default_limits :: mempool_limits where
  "default_limits = \<lparr>max_tx_count = DEFAULT_MAX_MEMPOOL_TX_COUNT, max_bytes = DEFAULT_MAX_MEMPOOL_BYTES\<rparr>"

record accepted_tx =
  accepted_txid :: hash32
  accepted_fee :: u64
  accepted_size :: nat

datatype mempool_error =
    Coinbase
  | Duplicate hash32
  | DuplicateInput hash32 u32
  | Oversized nat nat
  | Malformed string
  | MempoolUtxo utxo_error
  | ConflictingSpend out_point hash32
  | MempoolInvalidScript
  | MempoolSighash sighash_error
  | AtCapacity

record mempool_entry =
  entry_tx :: transaction
  fee_rate :: u64
  entry_size :: nat
  entry_seq :: u64

record mempool =
  pool_limits :: mempool_limits
  pool_entries :: "(hash32 \<times> mempool_entry) list"
  pool_spends :: "(out_point \<times> hash32) list"
  total_bytes :: nat
  next_entry_seq :: u64

section \<open>Queries\<close>

definition new_mempool :: "mempool_limits \<Rightarrow> mempool" where
  "new_mempool lim = \<lparr>pool_limits = lim, pool_entries = [], pool_spends = [], total_bytes = 0, next_entry_seq = 0\<rparr>"

definition mempool_len :: "mempool \<Rightarrow> nat" where
  "mempool_len p = length (pool_entries p)"

definition mempool_is_empty :: "mempool \<Rightarrow> bool" where
  "mempool_is_empty p \<longleftrightarrow> pool_entries p = []"

definition txids :: "mempool \<Rightarrow> hash32 list" where
  "txids p = map fst (pool_entries p)"

definition mempool_contains :: "hash32 \<Rightarrow> mempool \<Rightarrow> bool" where
  "mempool_contains tid p \<longleftrightarrow> map_of (pool_entries p) tid \<noteq> None"

definition get_transaction :: "hash32 \<Rightarrow> mempool \<Rightarrow> transaction option" where
  "get_transaction tid p = map_option entry_tx (map_of (pool_entries p) tid)"

text \<open>The entries in the order of admission.\<close>

definition ordered_entries :: "mempool \<Rightarrow> mempool_entry list" where
  "ordered_entries p = sort_key entry_seq (map snd (pool_entries p))"

definition apply_entries :: "env \<Rightarrow> mempool_entry list \<Rightarrow> utxo_set \<Rightarrow> utxo_set" where
  "apply_entries E es u = foldl (\<lambda>u e. fst (apply_transaction E u (entry_tx e))) u es"

definition build_validation_view :: "env \<Rightarrow> mempool \<Rightarrow> utxo_set \<Rightarrow> utxo_set" where
  "build_validation_view E p chain_utxo = apply_entries E (ordered_entries p) chain_utxo"

section \<open>Checks on one transaction\<close>

fun check_duplicate_inputs_loop :: "hash32 \<Rightarrow> tx_input list \<Rightarrow> (hash32 \<times> u32) list \<Rightarrow> mempool_error + unit" where
  "check_duplicate_inputs_loop tid [] seen = Inr ()"
| "check_duplicate_inputs_loop tid (input # ins) seen =
     (if (previous_output input, prev_index input) \<in> set seen
      then Inl (DuplicateInput tid (prev_index input))
      else check_duplicate_inputs_loop tid ins ((previous_output input, prev_index input) # seen))"

definition check_duplicate_inputs :: "env \<Rightarrow> transaction \<Rightarrow> mempool_error + unit" where
  "check_duplicate_inputs E tx = check_duplicate_inputs_loop (txid E tx) (inputs tx) []"

definition validate_tx_structure :: "transaction \<Rightarrow> mempool_error + nat" where
  "validate_tx_structure tx =
     (let size = tx_serialized_size tx in
      if size > MAX_TRANSACTION_SERIALIZED_SIZE then Inl (Oversized size MAX_TRANSACTION_SERIALIZED_SIZE)
      else if outputs tx = [] then Inl (Malformed ''transaction has no outputs'')
      else if \<not> is_coinbase tx \<and> inputs tx = [] then Inl (Malformed ''non-coinbase transaction has no inputs'')
      else if \<exists>input\<in>set (inputs tx). length (script_sig input) > MAX_SCRIPT_SIZE
      then Inl (Malformed ''scriptSig exceeds maximum size'')
      else if \<exists>out\<in>set (outputs tx). length (script_pubkey out) > MAX_SCRIPT_SIZE
      then Inl (Malformed ''scriptPubKey exceeds maximum size'')
      else Inr size)"

fun fee_inputs_loop :: "utxo_set \<Rightarrow> tx_input list \<Rightarrow> u64 \<Rightarrow> mempool_error + u64" where
  "fee_inputs_loop view [] acc = Inr acc"
| "fee_inputs_loop view (input # ins) acc =
     (case get_value view (input_outpoint input) of
        None \<Rightarrow> Inl (MempoolUtxo (MissingInput (previous_output input) (prev_index input)))
      | Some v \<Rightarrow>
          (case checked_add acc v of
             None \<Rightarrow> Inl (MempoolUtxo ValueOverflow)
           | Some acc' \<Rightarrow> fee_inputs_loop view ins acc'))"

fun fee_outputs_loop :: "tx_output list \<Rightarrow> u64 \<Rightarrow> mempool_error + u64" where
  "fee_outputs_loop [] acc = Inr acc"
| "fee_outputs_loop (out # outs) acc =
     (case checked_add acc (out_value out) of
        None \<Rightarrow> Inl (MempoolUtxo ValueOverflow)
      | Some acc' \<Rightarrow> fee_outputs_loop outs acc')"

definition compute_fee :: "transaction \<Rightarrow> utxo_set \<Rightarrow> mempool_error + u64" where
  "compute_fee tx view =
     and_then (fee_inputs_loop view (inputs tx) 0) (\<lambda>ins.
     and_then (fee_outputs_loop (outputs tx) 0) (\<lambda>outs.
       if ins < outs then Inl (MempoolUtxo (InputOutputMismatch ins outs)) else Inr (ins - outs)))"

fun prev_scripts_loop :: "utxo_set \<Rightarrow> tx_input list \<Rightarrow> mempool_error + bytes list" where
  "prev_scripts_loop view [] = Inr []"
| "prev_scripts_loop view (input # ins) =
     (case utxo_get view (input_outpoint input) of
        None \<Rightarrow> Inl (MempoolUtxo (MissingInput (previous_output input) (prev_index input)))
      | Some entry \<Rightarrow> and_then (prev_scripts_loop view ins) (\<lambda>scripts. Inr (entry_script entry # scripts)))"

fun verify_scripts_loop :: "env \<Rightarrow> transaction \<Rightarrow> bytes list \<Rightarrow> nat \<Rightarrow> tx_input list \<Rightarrow> mempool_error + unit" where
  "verify_scripts_loop E tx prev_scripts k [] = Inr ()"
| "verify_scripts_loop E tx prev_scripts k (input # ins) =
     (if prev_scripts ! k = [] then verify_scripts_loop E tx prev_scripts (k + 1) ins
      else
        and_then (map_err MempoolSighash (sighash_all E tx k prev_scripts)) (\<lambda>sighash.
        and_then (map_err (\<lambda>_. MempoolInvalidScript) (verify_script E (script_sig input) (prev_scripts ! k) sighash)) (\<lambda>_.
          verify_scripts_loop E tx prev_scripts (k + 1) ins)))"

definition verify_scripts :: "env \<Rightarrow> transaction \<Rightarrow> utxo_set \<Rightarrow> mempool_error + unit" where
  "verify_scripts E tx view =
     and_then (prev_scripts_loop view (inputs tx)) (\<lambda>scripts. verify_scripts_loop E tx scripts 0 (inputs tx))"

definition is_valid_for_view :: "env \<Rightarrow> transaction \<Rightarrow> utxo_set \<Rightarrow> bool" where
  "is_valid_for_view E tx view \<longleftrightarrow>
     is_ok (validate_tx_structure tx) \<and> \<not> is_coinbase tx \<and> is_ok (check_duplicate_inputs E tx) \<and>
     is_ok (validate_transaction view tx) \<and> is_ok (verify_scripts E tx view)"

definition is_valid_tx :: "env \<Rightarrow> mempool \<Rightarrow> transaction \<Rightarrow> utxo_set \<Rightarrow> bool" where
  "is_valid_tx E p tx chain_utxo =
     is_valid_for_view E tx
       (apply_entries E (filter (\<lambda>e. txid E (entry_tx e) \<noteq> txid E tx) (ordered_entries p)) chain_utxo)"

fun check_mempool_conflicts_loop :: "tx_input list \<Rightarrow> mempool \<Rightarrow> mempool_error + unit" where
  "check_mempool_conflicts_loop [] p = Inr ()"
| "check_mempool_conflicts_loop (input # ins) p =
     (case map_of (pool_spends p) (input_outpoint input) of
        Some existing \<Rightarrow> Inl (ConflictingSpend (input_outpoint input) existing)
      | None \<Rightarrow> check_mempool_conflicts_loop ins p)"

definition check_mempool_conflicts :: "transaction \<Rightarrow> mempool \<Rightarrow> mempool_error + unit" where
  "check_mempool_conflicts tx p = check_mempool_conflicts_loop (inputs tx) p"

section \<open>Insertion and removal\<close>

definition claim_inputs :: "hash32 \<Rightarrow> tx_input list \<Rightarrow> (out_point \<times> hash32) list \<Rightarrow> (out_point \<times> hash32) list" where
  "claim_inputs tid ins spends = foldl (\<lambda>s input. AList.update (input_outpoint input) tid s) spends ins"

definition insert_entry :: "hash32 \<Rightarrow> mempool_entry \<Rightarrow> mempool \<Rightarrow> mempool" where
  "insert_entry tid e p = p\<lparr>
     total_bytes := total_bytes p + entry_size e,
     next_entry_seq := next_entry_seq p + 1,
     pool_spends := claim_inputs tid (inputs (entry_tx e)) (pool_spends p),
     pool_entries := AList.update tid e (pool_entries p)\<rparr>"

definition remove_entry :: "hash32 \<Rightarrow> mempool \<Rightarrow> mempool" where
  "remove_entry tid p =
     (case map_of (pool_entries p) tid of
        None \<Rightarrow> p
      | Some e \<Rightarrow> p\<lparr>
          pool_entries := AList.delete tid (pool_entries p),
          total_bytes := total_bytes p - entry_size e,
          pool_spends := filter (\<lambda>(_, owner). owner \<noteq> tid) (pool_spends p)\<rparr>)"

definition remove_entries :: "hash32 list \<Rightarrow> mempool \<Rightarrow> mempool" where
  "remove_entries ids p = foldl (\<lambda>p tid. remove_entry tid p) p ids"

text \<open>One pop of the stack of \<open>descendants_of\<close>: the scan of all claimed outpoints.\<close>

fun scan_owners :: "(out_point \<times> hash32) list \<Rightarrow> hash32 \<Rightarrow> hash32 list \<times> hash32 list \<Rightarrow> hash32 list \<times> hash32 list" where
  "scan_owners [] current st = st"
| "scan_owners ((op, owner) # sp) current (found, stack) =
     (if op_txid op = current \<and> owner \<notin> set found
      then scan_owners sp current (owner # found, owner # stack)
      else scan_owners sp current (found, stack))"

lemma scan_owners_grows:
  "\<exists>new. scan_owners sp current (found, stack) = (new @ found, new @ stack) \<and> set new \<inter> set found = {} \<and>
     distinct new \<and> set new = {owner. \<exists>op. (op, owner) \<in> set sp \<and> op_txid op = current} - set found"
proof (induction sp arbitrary: found stack)
  case (Cons x sp)
  obtain op owner where x: "x = (op, owner)" by (cases x)
  show ?case
  proof (cases "op_txid op = current \<and> owner \<notin> set found")
    case True
    obtain new where "scan_owners sp current (owner # found, owner # stack) = (new @ owner # found, new @ owner # stack)"
      "set new \<inter> set (owner # found) = {}" "distinct new"
      "set new = {o'. \<exists>op. (op, o') \<in> set sp \<and> op_txid op = current} - set (owner # found)"
      using Cons.IH [of "owner # found" "owner # stack"] by blast
    then show ?thesis using True by (intro exI [of _ "new @ [owner]"]) (auto simp: x)
  next
    case False
    obtain new where "scan_owners sp current (found, stack) = (new @ found, new @ stack)" "set new \<inter> set found = {}"
      "distinct new" "set new = {o'. \<exists>op. (op, o') \<in> set sp \<and> op_txid op = current} - set found"
      using Cons.IH [of found stack] by blast
    then show ?thesis using False by (intro exI [of _ new]) (auto simp: x)
  qed
qed simp

text \<open>The \<open>while let Some(current) = stack.pop()\<close> loop.\<close>

function descend :: "(out_point \<times> hash32) list \<Rightarrow> hash32 list \<times> hash32 list \<Rightarrow> hash32 list" where
  "descend sp (found, []) = found"
| "descend sp (found, current # stack) = descend sp (scan_owners sp current (found, stack))"
  by pat_completeness auto

lemma scan_owners_measure:
  assumes "scan_owners sp current (found, stack) = (found', stack')"
  shows "2 * card (snd ` set sp - set found') + length stack' < 2 * card (snd ` set sp - set found) + Suc (length stack)"
proof -
  obtain new where new: "found' = new @ found" "stack' = new @ stack" "distinct new"
      "set new = {owner. \<exists>op. (op, owner) \<in> set sp \<and> op_txid op = current} - set found"
    using scan_owners_grows [of sp current found stack] assms by auto
  let ?rest = "snd ` set sp - set found"
  have sub: "set new \<subseteq> ?rest" using new(4) by force
  have "card (?rest - set new) = card ?rest - card (set new)" by (rule card_Diff_subset) (use sub in auto)
  moreover have "card (set new) \<le> card ?rest" by (rule card_mono) (use sub in auto)
  moreover have "snd ` set sp - set found' = ?rest - set new" using new(1) by auto
  moreover have "card (set new) = length new" using new(3) by (rule distinct_card)
  ultimately show ?thesis using new(2) by simp
qed

termination descend
proof (relation "measure (\<lambda>(sp, found, stack). 2 * card (snd ` set sp - set found) + length stack)")
  fix sp found current stack
  show "((sp, scan_owners sp current (found, stack)), sp, found, current # stack)
      \<in> measure (\<lambda>(sp, found, stack). 2 * card (snd ` set sp - set found) + length stack)"
    by (cases "scan_owners sp current (found, stack)") (use scan_owners_measure in force)
qed simp

definition descendants_of :: "hash32 \<Rightarrow> mempool \<Rightarrow> hash32 list" where
  "descendants_of root p = descend (pool_spends p) ([], [root])"

definition remove_entry_and_descendants :: "hash32 \<Rightarrow> mempool \<Rightarrow> mempool" where
  "remove_entry_and_descendants tid p = remove_entries (List.insert tid (descendants_of tid p)) p"

section \<open>Making room\<close>

definition would_exceed_limits :: "nat \<Rightarrow> mempool \<Rightarrow> bool" where
  "would_exceed_limits incoming_size p \<longleftrightarrow>
     length (pool_entries p) + 1 > max_tx_count (pool_limits p) \<or>
     total_bytes p + incoming_size > max_bytes (pool_limits p)"

definition should_evict :: "hash32 \<Rightarrow> mempool_entry \<Rightarrow> mempool \<Rightarrow> bool" where
  "should_evict victim candidate p =
     (case map_of (pool_entries p) victim of
        None \<Rightarrow> False
      | Some e \<Rightarrow>
          if fee_rate candidate > fee_rate e then True
          else if fee_rate candidate < fee_rate e then False
          else entry_seq candidate > entry_seq e)"

text \<open>\<open>min_by\<close> returns the first of the least entries.\<close>

fun lowest_priority :: "(hash32 \<times> mempool_entry) list \<Rightarrow> (hash32 \<times> mempool_entry) option" where
  "lowest_priority [] = None"
| "lowest_priority (x # xs) =
     (case lowest_priority xs of
        None \<Rightarrow> Some x
      | Some y \<Rightarrow>
          if fee_rate (snd y) < fee_rate (snd x) \<or>
             fee_rate (snd y) = fee_rate (snd x) \<and> entry_seq (snd y) < entry_seq (snd x)
          then Some y else Some x)"

definition lowest_priority_txid :: "mempool \<Rightarrow> hash32 option" where
  "lowest_priority_txid p = map_option fst (lowest_priority (pool_entries p))"

lemma lowest_priority_Some: "lowest_priority xs = Some x \<Longrightarrow> x \<in> set xs"
  by (induction xs arbitrary: x) (auto split: option.splits if_splits)

lemma remove_entry_length: "length (pool_entries (remove_entry tid p)) \<le> length (pool_entries p)"
  by (simp add: remove_entry_def length_delete_le split: option.split)

lemma remove_entries_length: "length (pool_entries (remove_entries ids p)) \<le> length (pool_entries p)"
  unfolding remove_entries_def
  by (induction ids arbitrary: p) (auto intro: order_trans [OF _ remove_entry_length])

lemma length_delete_less: "k \<in> fst ` set al \<Longrightarrow> length (AList.delete k al) < length al"
  by (induction al) (auto simp: AList.delete_eq intro: le_imp_less_Suc [OF length_filter_le])

lemma remove_present_length:
  assumes "tid \<in> set ids" "tid \<in> fst ` set (pool_entries p)"
  shows "length (pool_entries (remove_entries ids p)) < length (pool_entries p)"
  using assms
proof (induction ids arbitrary: p)
  case (Cons i ids)
  show ?case
  proof (cases "i \<in> fst ` set (pool_entries p)")
    case True
    then obtain e where "map_of (pool_entries p) i = Some e" by (metis map_of_eq_None_iff not_None_eq)
    then have "length (pool_entries (remove_entry i p)) < length (pool_entries p)"
      using length_delete_less [OF True] by (simp add: remove_entry_def)
    then show ?thesis
      using remove_entries_length [of ids "remove_entry i p"] by (simp add: remove_entries_def)
  next
    case False
    then have "remove_entry i p = p" by (simp add: remove_entry_def map_of_eq_None_iff [THEN iffD2])
    then show ?thesis using Cons False by (auto simp: remove_entries_def)
  qed
qed simp

function make_room_for :: "mempool_entry \<Rightarrow> mempool \<Rightarrow> (mempool_error + unit) \<times> mempool" where
  "make_room_for candidate p =
     (if \<not> would_exceed_limits (entry_size candidate) p then (Inr (), p)
      else
        (case lowest_priority_txid p of
           None \<Rightarrow> (Inl AtCapacity, p)
         | Some victim \<Rightarrow>
             if \<not> should_evict victim candidate p then (Inl AtCapacity, p)
             else make_room_for candidate (remove_entry_and_descendants victim p)))"
  by pat_completeness auto
termination
proof (relation "measure (\<lambda>(_, p). length (pool_entries p))")
  fix candidate p victim
  assume "lowest_priority_txid p = Some victim"
  then have "victim \<in> fst ` set (pool_entries p)"
    using lowest_priority_Some by (force simp: lowest_priority_txid_def)
  then show "((candidate, remove_entry_and_descendants victim p), candidate, p) \<in> measure (\<lambda>(_, p). length (pool_entries p))"
    using remove_present_length [of victim "List.insert victim (descendants_of victim p)" p]
    by (simp add: remove_entry_and_descendants_def)
qed simp

declare make_room_for.simps [simp del]

section \<open>Admission\<close>

definition accept_tx :: "env \<Rightarrow> transaction \<Rightarrow> utxo_set \<Rightarrow> mempool \<Rightarrow> (mempool_error + accepted_tx) \<times> mempool" where
  "accept_tx E tx chain_utxo p =
     (let tid = txid E tx; view = build_validation_view E p chain_utxo in
      case and_then (validate_tx_structure tx) (\<lambda>sz.
           if is_coinbase tx then Inl Coinbase
           else if mempool_contains tid p then Inl (Duplicate tid)
           else
             and_then (check_duplicate_inputs E tx) (\<lambda>_.
             and_then (check_mempool_conflicts tx p) (\<lambda>_.
             and_then (map_err MempoolUtxo (validate_transaction view tx)) (\<lambda>_.
             and_then (compute_fee tx view) (\<lambda>fee.
             and_then (verify_scripts E tx view) (\<lambda>_. Inr (sz, fee))))))) of
        Inl e \<Rightarrow> (Inl e, p)
      | Inr (sz, fee) \<Rightarrow>
          let rate = (if sz > 0 then fee div of_nat sz else 0);
              candidate = \<lparr>entry_tx = tx, fee_rate = rate, entry_size = sz, entry_seq = next_entry_seq p\<rparr>
          in (case make_room_for candidate p of
                (Inl e, p1) \<Rightarrow> (Inl e, p1)
              | (Inr _, p1) \<Rightarrow>
                  (Inr \<lparr>accepted_txid = tid, accepted_fee = fee, accepted_size = sz\<rparr>, insert_entry tid candidate p1)))"

section \<open>Following the chain\<close>

text \<open>One pass of the loop of \<open>remove_for_block\<close> over the entries, and whether it added anything.\<close>

definition spends_any :: "out_point list \<Rightarrow> hash32 list \<Rightarrow> transaction \<Rightarrow> bool" where
  "spends_any block_spends ids tx \<longleftrightarrow>
     list_ex (\<lambda>input. input_outpoint input \<in> set block_spends \<or> previous_output input \<in> set ids) (inputs tx)"

fun doomed_pass :: "out_point list \<Rightarrow> (hash32 \<times> mempool_entry) list \<Rightarrow> hash32 list \<Rightarrow> hash32 list" where
  "doomed_pass block_spends [] ids = ids"
| "doomed_pass block_spends ((tid, e) # es) ids =
     (if tid \<in> set ids then doomed_pass block_spends es ids
      else if spends_any block_spends ids (entry_tx e) then doomed_pass block_spends es (tid # ids)
      else doomed_pass block_spends es ids)"

lemma doomed_pass_grows:
  "\<exists>new. doomed_pass sp es ids = new @ ids \<and> set new \<subseteq> fst ` set es \<and> set new \<inter> set ids = {}"
proof (induction sp es ids rule: doomed_pass.induct)
  case (2 sp tid e es ids)
  consider "tid \<in> set ids" | "tid \<notin> set ids" "spends_any sp ids (entry_tx e)" | "tid \<notin> set ids" "\<not> spends_any sp ids (entry_tx e)"
    by blast
  then show ?case
  proof cases
    case 2
    obtain new where "doomed_pass sp es (tid # ids) = new @ tid # ids" "set new \<subseteq> fst ` set es" "set new \<inter> set (tid # ids) = {}"
      using "2.IH"(2) [OF 2] by blast
    then show ?thesis using 2 by (intro exI [of _ "new @ [tid]"]) auto
  qed (use 2 in auto)
qed simp

function doomed_loop :: "out_point list \<Rightarrow> (hash32 \<times> mempool_entry) list \<Rightarrow> hash32 list \<Rightarrow> hash32 list" where
  "doomed_loop block_spends es ids =
     (let ids' = doomed_pass block_spends es ids in
      if length ids' = length ids then ids else doomed_loop block_spends es ids')"
  by pat_completeness auto
termination
proof (relation "measure (\<lambda>(_, es, ids). card (fst ` set es - set ids))")
  fix sp es ids ids'
  assume a: "ids' = doomed_pass sp es ids" "length ids' \<noteq> length ids"
  obtain new where new: "ids' = new @ ids" "set new \<subseteq> fst ` set es" "set new \<inter> set ids = {}"
    using doomed_pass_grows [of sp es ids] a(1) by blast
  then have "fst ` set es - set ids' \<subset> fst ` set es - set ids" using a(2) by (cases new) auto
  then show "((sp, es, ids'), sp, es, ids) \<in> measure (\<lambda>(_, es, ids). card (fst ` set es - set ids))"
    by (simp add: psubset_card_mono)
qed simp

declare doomed_loop.simps [simp del]

definition block_spends :: "block \<Rightarrow> out_point list" where
  "block_spends b = concat (map (\<lambda>tx. if is_coinbase tx then [] else map input_outpoint (inputs tx)) (transactions b))"

definition remove_for_block :: "env \<Rightarrow> block \<Rightarrow> mempool \<Rightarrow> mempool" where
  "remove_for_block E b p =
     remove_entries (doomed_loop (block_spends b) (pool_entries p) (map (txid E) (transactions b))) p"

fun find_invalid_loop :: "env \<Rightarrow> mempool_entry list \<Rightarrow> utxo_set \<Rightarrow> hash32 list" where
  "find_invalid_loop E [] view = []"
| "find_invalid_loop E (e # es) view =
     (if \<not> is_valid_for_view E (entry_tx e) view then txid E (entry_tx e) # find_invalid_loop E es view
      else find_invalid_loop E es (fst (apply_transaction E view (entry_tx e))))"

definition find_invalid_txids :: "env \<Rightarrow> utxo_set \<Rightarrow> mempool \<Rightarrow> hash32 list" where
  "find_invalid_txids E chain_utxo p = find_invalid_loop E (ordered_entries p) chain_utxo"

text \<open>
  The loop of \<open>revalidate_pool\<close> ends because every invalid id is a key of the pool; the turns are bounded by
  the number of entries, and \<open>None\<close> says that they did not suffice.
\<close>

fun revalidate_loop :: "env \<Rightarrow> utxo_set \<Rightarrow> nat \<Rightarrow> mempool \<Rightarrow> mempool option" where
  "revalidate_loop E chain_utxo 0 p = None"
| "revalidate_loop E chain_utxo (Suc n) p =
     (let invalid = find_invalid_txids E chain_utxo p in
      if invalid = [] then Some p else revalidate_loop E chain_utxo n (remove_entries invalid p))"

definition revalidate_pool :: "env \<Rightarrow> utxo_set \<Rightarrow> mempool \<Rightarrow> mempool option" where
  "revalidate_pool E chain_utxo p = revalidate_loop E chain_utxo (length (pool_entries p) + 1) p"

text \<open>One pass of \<open>restore_candidates\<close>: the transactions that were refused, and the pool.\<close>

fun restore_pass :: "env \<Rightarrow> utxo_set \<Rightarrow> transaction list \<Rightarrow> mempool \<Rightarrow> transaction list \<times> mempool" where
  "restore_pass E chain_utxo [] p = ([], p)"
| "restore_pass E chain_utxo (tx # txs) p =
     (case accept_tx E tx chain_utxo p of
        (Inl _, p1) \<Rightarrow> (case restore_pass E chain_utxo txs p1 of (refused, p2) \<Rightarrow> (tx # refused, p2))
      | (Inr _, p1) \<Rightarrow> restore_pass E chain_utxo txs p1)"

lemma restore_pass_length: "restore_pass E u txs p = (refused, p') \<Longrightarrow> length refused \<le> length txs"
  by (induction txs arbitrary: p refused p') (force split: prod.splits sum.splits)+

function restore_candidates :: "env \<Rightarrow> utxo_set \<Rightarrow> transaction list \<Rightarrow> mempool \<Rightarrow> mempool" where
  "restore_candidates E chain_utxo pending p =
     (case restore_pass E chain_utxo pending p of
        (refused, p1) \<Rightarrow>
          if length refused = length pending \<or> refused = [] then p1
          else restore_candidates E chain_utxo refused p1)"
  by pat_completeness auto
termination
proof (relation "measure (\<lambda>(_, _, txs, _). length txs)")
  fix E chain_utxo pending p and refused :: "transaction list" and p1 :: mempool
  assume a: "(refused, p1) = restore_pass E chain_utxo pending p" "\<not> (length refused = length pending \<or> refused = [])"
  have "length refused \<le> length pending" using restore_pass_length [OF a(1) [symmetric]] .
  then show "((E, chain_utxo, refused, p1), E, chain_utxo, pending, p) \<in> measure (\<lambda>(_, _, txs, _). length txs)"
    using a(2) by simp
qed simp

declare restore_candidates.simps [simp del]

definition restorable :: "block list \<Rightarrow> transaction list" where
  "restorable bs = concat (map (\<lambda>b. filter (\<lambda>tx. \<not> is_coinbase tx) (drop 1 (transactions b))) bs)"

definition synchronize_to_chain :: "env \<Rightarrow> utxo_set \<Rightarrow> block list \<Rightarrow> block list \<Rightarrow> mempool \<Rightarrow> mempool option" where
  "synchronize_to_chain E chain_utxo connected disconnected p =
     map_option (restore_candidates E chain_utxo (restorable disconnected))
       (revalidate_pool E chain_utxo (foldl (\<lambda>p b. remove_for_block E b p) p connected))"

definition resync_to_active_chain ::
  "env \<Rightarrow> chain \<Rightarrow> u64 \<Rightarrow> mempool \<Rightarrow> (chain_event_cursor_error + unit) \<times> mempool option" where
  "resync_to_active_chain E c since p =
     (case recovery_disconnected_blocks c since of
        Inl e \<Rightarrow> (Inl e, Some p)
      | Inr disconnected \<Rightarrow>
          let p1 = foldl (\<lambda>p h. case active_block_at c (of_nat h) of None \<Rightarrow> p | Some b \<Rightarrow> remove_for_block E b p) p
                     [0..<unat (height c) + 1]
          in (Inr (), map_option (restore_candidates E (utxo c) (restorable disconnected)) (revalidate_pool E (utxo c) p1)))"

definition serve_transaction :: "env \<Rightarrow> hash32 \<Rightarrow> utxo_set \<Rightarrow> mempool \<Rightarrow> transaction option \<times> mempool" where
  "serve_transaction E tid chain_utxo p =
     (case get_transaction tid p of
        None \<Rightarrow> (None, p)
      | Some tx \<Rightarrow> if is_valid_tx E p tx chain_utxo then (Some tx, p) else (None, remove_entry tid p))"

definition event_blocks :: "chain \<Rightarrow> chain_event list \<Rightarrow> block list \<times> block list" where
  "event_blocks c events =
     (concat (map (\<lambda>ev. case ev of BlockConnected _ h _ \<Rightarrow> (case block_by_hash c h of None \<Rightarrow> [] | Some b \<Rightarrow> [b]) | _ \<Rightarrow> []) events),
      concat (map (\<lambda>ev. case ev of BlockDisconnected _ h \<Rightarrow> (case block_by_hash c h of None \<Rightarrow> [] | Some b \<Rightarrow> [b]) | _ \<Rightarrow> []) events))"

definition apply_chain_events :: "env \<Rightarrow> chain_event list \<Rightarrow> chain \<Rightarrow> mempool \<Rightarrow> mempool option" where
  "apply_chain_events E events c p =
     (case event_blocks c events of
        (connected, disconnected) \<Rightarrow> synchronize_to_chain E (utxo c) connected disconnected p)"

end
