(* ===== verification/MempoolInv.thy ===== *)
theory MempoolInv
  imports Mempool BlockFacts
begin

text \<open>
  The invariant of the memory pool and what its operations do: ids, sizes and claimed outpoints agree with
  the entries, no two entries spend the same outpoint, the limits hold.
\<close>

section \<open>The invariant\<close>

abbreviation entry_outpoints :: "mempool_entry \<Rightarrow> out_point set" where
  "entry_outpoints e \<equiv> input_outpoint ` set (inputs (entry_tx e))"

definition entry_ok :: "env \<Rightarrow> hash32 \<Rightarrow> mempool_entry \<Rightarrow> bool" where
  "entry_ok E tid e \<longleftrightarrow> txid E (entry_tx e) = tid \<and> entry_size e = tx_serialized_size (entry_tx e)"

definition claims_ok :: "mempool \<Rightarrow> bool" where
  "claims_ok p \<longleftrightarrow>
     distinct (map fst (pool_spends p)) \<and>
     (\<forall>op tid. map_of (pool_spends p) op = Some tid \<longleftrightarrow>
        (\<exists>e. map_of (pool_entries p) tid = Some e \<and> op \<in> entry_outpoints e))"

definition pool_ok :: "env \<Rightarrow> mempool \<Rightarrow> bool" where
  "pool_ok E p \<longleftrightarrow>
     distinct (map fst (pool_entries p)) \<and>
     (\<forall>tid e. map_of (pool_entries p) tid = Some e \<longrightarrow> entry_ok E tid e) \<and>
     claims_ok p \<and> total_bytes p = sum_list (map (\<lambda>x. entry_size (snd x)) (pool_entries p))"

definition within_limits :: "mempool \<Rightarrow> bool" where
  "within_limits p \<longleftrightarrow>
     length (pool_entries p) \<le> max_tx_count (pool_limits p) \<and> total_bytes p \<le> max_bytes (pool_limits p)"

text \<open>What every removal leaves: a smaller pool.\<close>

definition shrinks :: "mempool \<Rightarrow> mempool \<Rightarrow> bool" where
  "shrinks p p' \<longleftrightarrow>
     pool_limits p' = pool_limits p \<and> next_entry_seq p' = next_entry_seq p \<and>
     length (pool_entries p') \<le> length (pool_entries p) \<and> total_bytes p' \<le> total_bytes p \<and>
     map_of (pool_entries p') \<subseteq>\<^sub>m map_of (pool_entries p) \<and> map_of (pool_spends p') \<subseteq>\<^sub>m map_of (pool_spends p)"

lemma claims_okD:
  assumes "claims_ok p"
  shows "map_of (pool_spends p) op = Some tid \<longleftrightarrow>
    (\<exists>e. map_of (pool_entries p) tid = Some e \<and> op \<in> entry_outpoints e)"
  using assms unfolding claims_ok_def by blast

lemma claims_okI:
  assumes "distinct (map fst (pool_spends p))"
    and "\<And>op tid. map_of (pool_spends p) op = Some tid \<longleftrightarrow>
      (\<exists>e. map_of (pool_entries p) tid = Some e \<and> op \<in> entry_outpoints e)"
  shows "claims_ok p"
  using assms unfolding claims_ok_def by blast

lemma update_fresh: "map_of al k = None \<Longrightarrow> AList.update k v al = al @ [(k, v)]"
  by (induction al) auto

lemma shrinks_refl [simp]: "shrinks p p"
  by (simp add: shrinks_def)

lemma shrinks_trans: "shrinks p q \<Longrightarrow> shrinks q r \<Longrightarrow> shrinks p r"
  unfolding shrinks_def by (auto intro: map_le_trans)

lemma shrinks_limits: "shrinks p p' \<Longrightarrow> within_limits p \<Longrightarrow> within_limits p'"
  by (simp add: shrinks_def within_limits_def)

lemma new_mempool_ok: "pool_ok E (new_mempool lim)" "within_limits (new_mempool lim)"
  by (simp_all add: pool_ok_def claims_ok_def new_mempool_def within_limits_def)

section \<open>Removal\<close>

lemma sum_delete:
  fixes f :: "'k \<times> 'v \<Rightarrow> nat"
  shows "distinct (map fst al) \<Longrightarrow> map_of al k = Some v \<Longrightarrow>
    sum_list (map f (AList.delete k al)) + f (k, v) = sum_list (map f al)"
proof (induction al)
  case (Cons x al)
  show ?case
  proof (cases "fst x = k")
    case True
    then have "k \<notin> fst ` set al" using Cons.prems(1) by auto
    then have "AList.delete k al = al" by (induction al) auto
    then show ?thesis using True Cons.prems(2) by (cases x) simp
  next
    case False
    then show ?thesis using Cons by (cases x) simp
  qed
qed simp

lemma map_of_filter_owner:
  "distinct (map fst sp) \<Longrightarrow>
     map_of (filter (\<lambda>(_, owner). owner \<noteq> tid) sp) op = (if map_of sp op = Some tid then None else map_of sp op)"
proof (induction sp)
  case (Cons x sp)
  obtain o' w where x: "x = (o', w)" by (cases x)
  have "map_of sp o' = None" using Cons.prems by (simp add: x map_of_eq_None_iff)
  then show ?case using Cons by (auto simp: x)
qed simp

lemma remove_entry_ok:
  assumes ok: "pool_ok E p"
  shows "pool_ok E (remove_entry tid p)" "shrinks p (remove_entry tid p)"
    "map_of (pool_entries (remove_entry tid p)) = (map_of (pool_entries p))(tid := None)"
proof -
  have d: "distinct (map fst (pool_entries p))" and claims: "claims_ok p"
    and total: "total_bytes p = sum_list (map (\<lambda>x. entry_size (snd x)) (pool_entries p))"
    using ok by (simp_all add: pool_ok_def)
  have all: "pool_ok E (remove_entry tid p) \<and> shrinks p (remove_entry tid p) \<and>
      map_of (pool_entries (remove_entry tid p)) = (map_of (pool_entries p))(tid := None)"
  proof (cases "map_of (pool_entries p) tid")
    case None
    then have "remove_entry tid p = p" by (simp add: remove_entry_def)
    then show ?thesis using ok None by (simp add: fun_upd_idem)
  next
    case (Some e)
    define p' where "p' = remove_entry tid p"
    have f: "pool_entries p' = AList.delete tid (pool_entries p)" "total_bytes p' = total_bytes p - entry_size e"
      "pool_spends p' = filter (\<lambda>(_, owner). owner \<noteq> tid) (pool_spends p)"
      "pool_limits p' = pool_limits p" "next_entry_seq p' = next_entry_seq p"
      by (simp_all add: p'_def remove_entry_def Some)
    have m: "map_of (pool_entries p') = (map_of (pool_entries p))(tid := None)" by (simp add: f delete_conv')
    have ds: "distinct (map fst (pool_spends p))" using claims by (simp add: claims_ok_def)
    have ms: "map_of (pool_spends p') op = (if map_of (pool_spends p) op = Some tid then None else map_of (pool_spends p) op)" for op
      unfolding f(3) by (rule map_of_filter_owner [OF ds])
    have sum: "total_bytes p' = sum_list (map (\<lambda>x. entry_size (snd x)) (pool_entries p'))"
      using sum_delete [OF d Some, of "\<lambda>x. entry_size (snd x)"] total by (simp add: f(1,2))
    have cl: "claims_ok p'"
    proof (rule claims_okI)
      show "distinct (map fst (pool_spends p'))" using ds by (simp add: f(3) distinct_map_filter)
      fix op t
      have "map_of (pool_spends p') op = Some t \<longleftrightarrow> map_of (pool_spends p) op = Some t \<and> t \<noteq> tid"
        unfolding ms by (cases "map_of (pool_spends p) op = Some tid") (auto simp del: map_of_eq_Some_iff)
      then show "map_of (pool_spends p') op = Some t \<longleftrightarrow>
          (\<exists>e. map_of (pool_entries p') t = Some e \<and> op \<in> entry_outpoints e)"
        unfolding claims_okD [OF claims] m by simp
    qed
    have "pool_ok E p'" using ok cl sum m by (auto simp: pool_ok_def f(1) distinct_delete)
    moreover have "shrinks p p'"
      using length_delete_le [of tid "pool_entries p"] m ms f
      by (auto simp: shrinks_def map_le_def split: if_splits)
    ultimately show ?thesis using m by (simp add: p'_def)
  qed
  then show "pool_ok E (remove_entry tid p)" "shrinks p (remove_entry tid p)"
    "map_of (pool_entries (remove_entry tid p)) = (map_of (pool_entries p))(tid := None)" by blast+
qed

lemma remove_entries_ok:
  "pool_ok E p \<Longrightarrow> pool_ok E (remove_entries ids p) \<and> shrinks p (remove_entries ids p) \<and>
     map_of (pool_entries (remove_entries ids p)) = map_of (pool_entries p) |` (- set ids)"
proof (induction ids arbitrary: p)
  case Nil
  then show ?case by (simp add: remove_entries_def)
next
  case (Cons i ids)
  note one = remove_entry_ok [OF Cons.prems, of i]
  have step: "remove_entries (i # ids) p = remove_entries ids (remove_entry i p)" by (simp add: remove_entries_def)
  show ?case using Cons.IH [OF one(1)] one shrinks_trans unfolding step
    by (auto simp: restrict_map_def fun_eq_iff)
qed

lemma make_room_for_ok:
  "pool_ok E p \<Longrightarrow> make_room_for cand p = (r, p') \<Longrightarrow>
     pool_ok E p' \<and> shrinks p p' \<and> (r = Inr () \<longrightarrow> \<not> would_exceed_limits (entry_size cand) p')"
proof (induction cand p rule: make_room_for.induct)
  case (1 cand p)
  show ?case
  proof (cases "would_exceed_limits (entry_size cand) p \<and> (\<exists>v. lowest_priority_txid p = Some v \<and> should_evict v cand p)")
    case False
    then show ?thesis using 1(2,3)
      by (auto simp: make_room_for.simps [of cand p] split: if_splits option.splits)
  next
    case True
    then obtain v where v: "lowest_priority_txid p = Some v" "should_evict v cand p" by blast
    let ?q = "remove_entry_and_descendants v p"
    have q: "pool_ok E ?q" "shrinks p ?q"
      using remove_entries_ok [OF 1(2)] by (simp_all add: remove_entry_and_descendants_def)
    have "make_room_for cand ?q = (r, p')" using 1(3) True v by (simp add: make_room_for.simps [of cand p])
    then have "pool_ok E p' \<and> shrinks ?q p' \<and> (r = Inr () \<longrightarrow> \<not> would_exceed_limits (entry_size cand) p')"
      using 1(1) [OF _ v(1)] True v(2) q(1) by simp
    then show ?thesis using shrinks_trans [OF q(2)] by blast
  qed
qed

section \<open>Admission\<close>

lemma map_of_claim_inputs:
  "map_of (claim_inputs tid ins sp) op = (if op \<in> input_outpoint ` set ins then Some tid else map_of sp op)"
  unfolding claim_inputs_def by (induction ins arbitrary: sp) (auto simp: update_conv')

lemma distinct_claim_inputs: "distinct (map fst sp) \<Longrightarrow> distinct (map fst (claim_inputs tid ins sp))"
  unfolding claim_inputs_def by (induction ins arbitrary: sp) (auto simp: distinct_update)

lemma conflicts_Inr_iff:
  "check_mempool_conflicts tx p = Inr u \<longleftrightarrow> (\<forall>i\<in>set (inputs tx). map_of (pool_spends p) (input_outpoint i) = None)"
proof -
  have "check_mempool_conflicts_loop ins p = Inr u \<longleftrightarrow> (\<forall>i\<in>set ins. map_of (pool_spends p) (input_outpoint i) = None)" for ins
    by (induction ins) (auto split: option.splits)
  then show ?thesis by (simp add: check_mempool_conflicts_def)
qed

lemma insert_entry_ok:
  assumes ok: "pool_ok E p" and new: "map_of (pool_entries p) tid = None" and e: "entry_ok E tid e"
    and free: "\<forall>op\<in>entry_outpoints e. map_of (pool_spends p) op = None"
  shows "pool_ok E (insert_entry tid e p)"
    "map_of (pool_entries (insert_entry tid e p)) = (map_of (pool_entries p))(tid \<mapsto> e)"
proof -
  define p' where "p' = insert_entry tid e p"
  have f: "pool_entries p' = pool_entries p @ [(tid, e)]" "total_bytes p' = total_bytes p + entry_size e"
    "pool_spends p' = claim_inputs tid (inputs (entry_tx e)) (pool_spends p)"
    by (simp_all add: p'_def insert_entry_def update_fresh [OF new])
  have m: "map_of (pool_entries p') = (map_of (pool_entries p))(tid \<mapsto> e)"
    by (simp add: p'_def insert_entry_def update_conv')
  have claims: "claims_ok p" and ds: "distinct (map fst (pool_spends p))"
    using ok unfolding pool_ok_def claims_ok_def by blast+
  have "claims_ok p'"
  proof (rule claims_okI)
    show "distinct (map fst (pool_spends p'))" unfolding f(3) by (rule distinct_claim_inputs [OF ds])
    fix op t
    have "op \<in> entry_outpoints e \<Longrightarrow> map_of (pool_entries p) t = Some e' \<Longrightarrow> op \<notin> entry_outpoints e'" for e'
      using free claims_okD [OF claims, of op t] by auto
    then show "map_of (pool_spends p') op = Some t \<longleftrightarrow>
        (\<exists>e. map_of (pool_entries p') t = Some e \<and> op \<in> entry_outpoints e)"
      unfolding f(3) map_of_claim_inputs m using new claims_okD [OF claims, of op t]
      by (cases "op \<in> entry_outpoints e"; cases "t = tid") auto
  qed
  moreover have "distinct (map fst (pool_entries p'))" using ok new by (auto simp: f(1) pool_ok_def map_of_eq_None_iff)
  ultimately show "pool_ok E (insert_entry tid e p)"
    using ok e m by (auto simp: pool_ok_def f(1,2) p'_def [symmetric])
  show "map_of (pool_entries (insert_entry tid e p)) = (map_of (pool_entries p))(tid \<mapsto> e)" using m by (simp add: p'_def)
qed

lemma check_duplicate_inputs_Inr_iff:
  "check_duplicate_inputs E tx = Inr u \<longleftrightarrow> distinct (map input_outpoint (inputs tx))"
proof -
  let ?key = "\<lambda>i. (previous_output i, prev_index i)"
  have "check_duplicate_inputs_loop tid ins seen = Inr u \<longleftrightarrow> distinct (map ?key ins) \<and> (\<forall>i\<in>set ins. ?key i \<notin> set seen)"
    for tid ins seen
    by (induction tid ins seen rule: check_duplicate_inputs_loop.induct) (auto simp: image_iff)
  then show ?thesis
    by (simp add: check_duplicate_inputs_def distinct_map inj_on_def input_outpoint_def)
qed

lemma fee_inputs_loop_Inr_iff:
  "fee_inputs_loop view ins acc = Inr r \<longleftrightarrow>
     list_all (\<lambda>i. input_outpoint i \<in> dom (entries view)) ins \<and>
     unat r = unat acc + sum_list (map (\<lambda>i. unat (entry_value (the (entries view (input_outpoint i))))) ins)"
proof (induction view ins acc rule: fee_inputs_loop.induct)
  case (2 view i ins acc)
  show ?case
  proof (cases "entries view (input_outpoint i)")
    case (Some e)
    show ?thesis
    proof (cases "checked_add acc (entry_value e)")
      case None
      then have "2 ^ 64 \<le> unat acc + unat (entry_value e)" by (simp add: checked_add_def split: if_splits)
      moreover have "unat r < 2 ^ 64" using unat_lt [of r] by simp
      ultimately show ?thesis using None Some by (auto simp: get_value_def utxo_get_def)
    next
      case (Some acc')
      then have "unat acc' = unat acc + unat (entry_value e)"
        by (auto simp: checked_add_def unat_of_nat unat_word_ariths split: if_splits)
      then show ?thesis using 2 Some \<open>entries view (input_outpoint i) = Some e\<close>
        by (auto simp: get_value_def utxo_get_def)
    qed
  qed (auto simp: get_value_def utxo_get_def)
qed (auto simp: word_unat_eq_iff)

lemma fee_outputs_loop_Inr_iff:
  "fee_outputs_loop outs acc = Inr r \<longleftrightarrow> unat r = unat acc + sum_list (map (\<lambda>out. unat (out_value out)) outs)"
proof (induction outs acc rule: fee_outputs_loop.induct)
  case (2 out outs acc)
  show ?case
  proof (cases "checked_add acc (out_value out)")
    case None
    then have "2 ^ 64 \<le> unat acc + unat (out_value out)" by (simp add: checked_add_def split: if_splits)
    moreover have "unat r < 2 ^ 64" using unat_lt [of r] by simp
    ultimately show ?thesis using None by auto
  next
    case (Some acc')
    then have "unat acc' = unat acc + unat (out_value out)"
      by (auto simp: checked_add_def unat_of_nat unat_word_ariths split: if_splits)
    then show ?thesis using 2 Some by auto
  qed
qed (auto simp: word_unat_eq_iff)

lemma compute_fee_Inr:
  "compute_fee tx view = Inr fee \<Longrightarrow>
     outputs_value tx \<le> inputs_value view tx \<and> unat fee = inputs_value view tx - outputs_value tx"
  by (auto simp: compute_fee_def and_then_Inr_iff fee_inputs_loop_Inr_iff fee_outputs_loop_Inr_iff inputs_value_def
      outputs_value_def unat_sub word_less_nat_alt not_less word_le_nat_alt split: if_splits)

lemma validate_tx_structure_Inr: "validate_tx_structure tx = Inr n \<Longrightarrow> n = tx_serialized_size tx"
  by (simp add: validate_tx_structure_def Let_def split: if_splits)

text \<open>A transaction that is admitted passed every check on the view of the chain and the pool.\<close>

lemma accept_tx_Inr:
  assumes "accept_tx E tx u p = (Inr a, p')"
  obtains p1 cand where "make_room_for cand p = (Inr (), p1)" "p' = insert_entry (txid E tx) cand p1"
    "entry_tx cand = tx" "entry_size cand = tx_serialized_size tx" "entry_seq cand = next_entry_seq p"
    "accepted_txid a = txid E tx" "accepted_size a = tx_serialized_size tx"
    "compute_fee tx (build_validation_view E p u) = Inr (accepted_fee a)"
    "is_valid_for_view E tx (build_validation_view E p u)" "\<not> mempool_contains (txid E tx) p"
    "check_mempool_conflicts tx p = Inr ()"
  using assms
  by (auto simp: accept_tx_def Let_def and_then_Inr_iff is_valid_for_view_def is_ok_iff
      dest!: validate_tx_structure_Inr split: sum.splits prod.splits if_splits)

lemma accept_tx_ok:
  assumes ok: "pool_ok E p" and lim: "within_limits p" and res: "accept_tx E tx u p = (r, p')"
  shows "pool_ok E p' \<and> within_limits p' \<and> pool_limits p' = pool_limits p"
proof (cases r)
  case (Inr a)
  obtain p1 cand where a: "make_room_for cand p = (Inr (), p1)" "p' = insert_entry (txid E tx) cand p1"
    "entry_tx cand = tx" "entry_size cand = tx_serialized_size tx" "\<not> mempool_contains (txid E tx) p"
    "check_mempool_conflicts tx p = Inr ()"
    using accept_tx_Inr [OF res [unfolded Inr]] by metis
  note room = make_room_for_ok [OF ok a(1)]
  have sub: "map_of (pool_entries p1) \<subseteq>\<^sub>m map_of (pool_entries p)" "map_of (pool_spends p1) \<subseteq>\<^sub>m map_of (pool_spends p)"
    using room by (auto simp: shrinks_def)
  have new: "map_of (pool_entries p1) (txid E tx) = None"
    using sub(1) a(5) by (cases "map_of (pool_entries p1) (txid E tx)") (auto simp: map_le_def mempool_contains_def dom_def)
  have none: "map_of (pool_spends p1) op = None" if "map_of (pool_spends p) op = None" for op
    using sub(2) that by (cases "map_of (pool_spends p1) op") (auto simp: map_le_def dom_def)
  have free: "\<forall>op\<in>entry_outpoints cand. map_of (pool_spends p1) op = None"
    using a(6) none by (auto simp: conflicts_Inr_iff a(3))
  have e: "entry_ok E (txid E tx) cand" by (simp add: entry_ok_def a(3,4))
  have ok1: "pool_ok E p1" using room by blast
  have "pool_ok E p'" using insert_entry_ok(1) [OF ok1 new e free] by (simp add: a(2))
  moreover have "within_limits p' \<and> pool_limits p' = pool_limits p"
    using room by (auto simp: a(2) insert_entry_def within_limits_def would_exceed_limits_def shrinks_def update_fresh [OF new])
  ultimately show ?thesis by blast
next
  case (Inl e)
  have "p' = p \<or> (\<exists>cand r1. make_room_for cand p = (r1, p'))"
    using res Inl by (auto simp: accept_tx_def Let_def split: sum.splits prod.splits)
  then show ?thesis
  proof
    assume "p' = p"
    then show ?thesis using ok lim by simp
  next
    assume "\<exists>cand r1. make_room_for cand p = (r1, p')"
    then have room: "pool_ok E p'" "shrinks p p'" using make_room_for_ok [OF ok] by blast+
    then show ?thesis using shrinks_limits [OF room(2) lim] by (simp add: shrinks_def)
  qed
qed

section \<open>Following the chain\<close>

inductive doomed :: "env \<Rightarrow> block \<Rightarrow> mempool \<Rightarrow> hash32 \<Rightarrow> bool" for E b p where
  confirmed: "tx \<in> set (transactions b) \<Longrightarrow> doomed E b p (txid E tx)"
| conflicting: "map_of (pool_entries p) tid = Some e \<Longrightarrow> op \<in> entry_outpoints e \<Longrightarrow> op \<in> set (block_spends b) \<Longrightarrow>
    doomed E b p tid"
| dependent: "map_of (pool_entries p) tid = Some e \<Longrightarrow> op \<in> entry_outpoints e \<Longrightarrow> doomed E b p (op_txid op) \<Longrightarrow>
    doomed E b p tid"

lemma spends_any_iff:
  "spends_any sp ids tx \<longleftrightarrow> (\<exists>op\<in>input_outpoint ` set (inputs tx). op \<in> set sp \<or> op_txid op \<in> set ids)"
  by (auto simp: spends_any_def list_ex_iff input_outpoint_def)

lemma doomed_pass_sound:
  assumes "\<forall>(tid, e)\<in>set es. map_of (pool_entries p) tid = Some e" "\<forall>tid\<in>set ids. doomed E b p tid"
  shows "\<forall>tid\<in>set (doomed_pass (block_spends b) es ids). doomed E b p tid"
  using assms
proof (induction es arbitrary: ids)
  case (Cons x es)
  obtain tid e where x: "x = (tid, e)" by (cases x)
  have rest: "\<forall>(tid, e)\<in>set es. map_of (pool_entries p) tid = Some e" and here: "map_of (pool_entries p) tid = Some e"
    using Cons.prems(1) by (simp_all add: x)
  show ?case
  proof (cases "tid \<notin> set ids \<and> spends_any (block_spends b) ids (entry_tx e)")
    case True
    then obtain op where op: "op \<in> entry_outpoints e" "op \<in> set (block_spends b) \<or> op_txid op \<in> set ids"
      by (auto simp: spends_any_iff)
    have "doomed E b p tid" using op(2)
    proof
      assume "op \<in> set (block_spends b)"
      then show ?thesis by (rule doomed.conflicting [OF here op(1)])
    next
      assume "op_txid op \<in> set ids"
      then show ?thesis using Cons.prems(2) by (intro doomed.dependent [OF here op(1)]) blast
    qed
    then have "\<forall>t\<in>set (tid # ids). doomed E b p t" using Cons.prems(2) by simp
    from Cons.IH [OF rest this] True show ?thesis by (simp add: x)
  next
    case False
    then have "doomed_pass (block_spends b) (x # es) ids = doomed_pass (block_spends b) es ids" by (auto simp: x)
    then show ?thesis using Cons.IH [OF rest Cons.prems(2)] by simp
  qed
qed simp

lemma doomed_pass_fixed:
  "length (doomed_pass sp es ids) = length ids \<Longrightarrow> (tid, e) \<in> set es \<Longrightarrow> spends_any sp ids (entry_tx e) \<Longrightarrow> tid \<in> set ids"
proof (induction sp es ids rule: doomed_pass.induct)
  case (2 sp k f es ids)
  have "length (doomed_pass sp es (k # ids)) \<ge> Suc (length ids)"
    using doomed_pass_grows [of sp es "k # ids"] by auto
  then show ?case using 2 by (auto split: if_splits)
qed simp

lemma doomed_loop_iff:
  assumes ok: "distinct (map fst (pool_entries p))"
    and start: "\<forall>tid\<in>set ids. doomed E b p tid" and conf: "\<forall>tx\<in>set (transactions b). txid E tx \<in> set ids"
  shows "tid \<in> set (doomed_loop (block_spends b) (pool_entries p) ids) \<longleftrightarrow> doomed E b p tid"
  using start conf
proof (induction "block_spends b" "pool_entries p" ids rule: doomed_loop.induct)
  case (1 ids)
  let ?ids = "doomed_pass (block_spends b) (pool_entries p) ids"
  have entries: "\<forall>(tid, e)\<in>set (pool_entries p). map_of (pool_entries p) tid = Some e" using ok by auto
  show ?case
  proof (cases "length ?ids = length ids")
    case True
    have "tid \<in> set ids" if "doomed E b p tid" using that
    proof induction
      case (confirmed tx)
      then show ?case using 1(3) by blast
    next
      case (conflicting tid e op)
      then show ?case using doomed_pass_fixed [OF True map_of_SomeD] by (auto simp: spends_any_iff)
    next
      case (dependent tid e op)
      then show ?case using doomed_pass_fixed [OF True map_of_SomeD] by (auto simp: spends_any_iff)
    qed
    moreover have "doomed_loop (block_spends b) (pool_entries p) ids = ids"
      using True by (simp add: doomed_loop.simps [of _ _ ids])
    ultimately show ?thesis using 1(2) by auto
  next
    case False
    obtain new where new: "?ids = new @ ids" using doomed_pass_grows by blast
    have "\<forall>tid\<in>set ?ids. doomed E b p tid" using doomed_pass_sound [OF entries 1(2)] .
    moreover have "\<forall>tx\<in>set (transactions b). txid E tx \<in> set ?ids" using 1(3) new by auto
    moreover have "doomed_loop (block_spends b) (pool_entries p) ids = doomed_loop (block_spends b) (pool_entries p) ?ids"
      using False by (simp add: doomed_loop.simps [of _ _ ids])
    ultimately show ?thesis using 1(1) [OF refl False] by simp
  qed
qed

lemma remove_for_block_ok:
  assumes ok: "pool_ok E p"
  shows "pool_ok E (remove_for_block E b p)" "shrinks p (remove_for_block E b p)"
    "map_of (pool_entries (remove_for_block E b p)) tid = (if doomed E b p tid then None else map_of (pool_entries p) tid)"
proof -
  have "doomed E b p t" if "t \<in> set (map (txid E) (transactions b))" for t using that confirmed by auto
  then have "t \<in> set (doomed_loop (block_spends b) (pool_entries p) (map (txid E) (transactions b))) \<longleftrightarrow> doomed E b p t" for t
    using ok by (intro doomed_loop_iff) (auto simp: pool_ok_def)
  then show "pool_ok E (remove_for_block E b p)" "shrinks p (remove_for_block E b p)"
    "map_of (pool_entries (remove_for_block E b p)) tid = (if doomed E b p tid then None else map_of (pool_entries p) tid)"
    using remove_entries_ok [OF ok] by (auto simp: remove_for_block_def restrict_map_def)
qed

fun valid_in_order :: "env \<Rightarrow> utxo_set \<Rightarrow> mempool_entry list \<Rightarrow> bool" where
  "valid_in_order E u [] = True"
| "valid_in_order E u (e # es) =
     (is_valid_for_view E (entry_tx e) u \<and> valid_in_order E (fst (apply_transaction E u (entry_tx e))) es)"

lemma find_invalid_loop_empty: "find_invalid_loop E es u = [] \<longleftrightarrow> valid_in_order E u es"
  by (induction es arbitrary: u) auto

lemma find_invalid_loop_set: "set (find_invalid_loop E es u) \<subseteq> (\<lambda>e. txid E (entry_tx e)) ` set es"
  by (induction es arbitrary: u) auto

lemma revalidate_loop_ok:
  "pool_ok E p \<Longrightarrow> length (pool_entries p) < n \<Longrightarrow>
     \<exists>p'. revalidate_loop E u n p = Some p' \<and> pool_ok E p' \<and> shrinks p p' \<and> valid_in_order E u (ordered_entries p')"
proof (induction n arbitrary: p)
  case (Suc n)
  let ?inv = "find_invalid_txids E u p"
  show ?case
  proof (cases "?inv = []")
    case True
    then show ?thesis using Suc.prems by (auto simp: find_invalid_txids_def find_invalid_loop_empty)
  next
    case False
    then obtain tid where tid: "tid \<in> set ?inv" by (cases ?inv) auto
    then obtain k e where "(k, e) \<in> set (pool_entries p)" "tid = txid E (entry_tx e)"
      using find_invalid_loop_set [of E "ordered_entries p" u]
      by (force simp: find_invalid_txids_def ordered_entries_def)
    moreover from this have "entry_ok E k e" using Suc.prems(1) by (auto simp: pool_ok_def)
    ultimately have "tid \<in> fst ` set (pool_entries p)" by (force simp: entry_ok_def)
    then have "length (pool_entries (remove_entries ?inv p)) < n"
      using remove_present_length [OF tid, of p] Suc.prems(2) by linarith
    moreover note r = remove_entries_ok [OF Suc.prems(1), of ?inv]
    ultimately obtain p' where "revalidate_loop E u n (remove_entries ?inv p) = Some p'" "pool_ok E p'"
        "shrinks (remove_entries ?inv p) p'" "valid_in_order E u (ordered_entries p')"
      using Suc.IH [of "remove_entries ?inv p"] by blast
    then show ?thesis using False r shrinks_trans by (auto simp: Let_def)
  qed
qed simp

lemma restore_pass_ok:
  "pool_ok E p \<Longrightarrow> within_limits p \<Longrightarrow> restore_pass E u txs p = (left, p') \<Longrightarrow>
     pool_ok E p' \<and> within_limits p' \<and> pool_limits p' = pool_limits p"
proof (induction txs arbitrary: p left p')
  case (Cons tx txs)
  obtain r p1 where a: "accept_tx E tx u p = (r, p1)" by fastforce
  obtain left1 p2 where b: "restore_pass E u txs p1 = (left1, p2)" by fastforce
  have "p' = p2" using Cons.prems(3) a b by (cases r) auto
  then show ?case using accept_tx_ok [OF Cons.prems(1,2) a] Cons.IH [OF _ _ b] by auto
qed simp

lemma restore_candidates_ok:
  "pool_ok E p \<Longrightarrow> within_limits p \<Longrightarrow>
     pool_ok E (restore_candidates E u txs p) \<and> within_limits (restore_candidates E u txs p) \<and>
     pool_limits (restore_candidates E u txs p) = pool_limits p"
proof (induction E u txs p rule: restore_candidates.induct)
  case (1 E u txs p)
  obtain left p1 where pass: "restore_pass E u txs p = (left, p1)" by fastforce
  note ok = restore_pass_ok [OF 1(2,3) pass]
  show ?case
  proof (cases "length left = length txs \<or> left = []")
    case True
    then show ?thesis using ok pass by (auto simp: restore_candidates.simps [of E u txs p])
  next
    case False
    then have "restore_candidates E u txs p = restore_candidates E u left p1"
      using pass by (simp add: restore_candidates.simps [of E u txs p])
    then show ?thesis using 1(1) [OF pass [symmetric] False] ok by simp
  qed
qed

end
