(* ===== verification/Eviction.thy ===== *)
theory Eviction
  imports MempoolInv
begin

text \<open>
  How the memory pool makes room: which entries \<open>make_room_for\<close> evicts, and that the entries it keeps stay valid
  in the order of admission, because what it evicts is closed under spending.
\<close>

section \<open>Specification\<close>

text \<open>One entry goes before another: a greater fee rate, or the same rate and a later admission.\<close>

definition outranks :: "mempool_entry \<Rightarrow> mempool_entry \<Rightarrow> bool" where
  "outranks e f \<longleftrightarrow> fee_rate f < fee_rate e \<or> (fee_rate f = fee_rate e \<and> entry_seq f < entry_seq e)"

definition lowest_entry :: "mempool \<Rightarrow> hash32 \<Rightarrow> mempool_entry \<Rightarrow> bool" where
  "lowest_entry p v e \<longleftrightarrow>
     map_of (pool_entries p) v = Some e \<and> (\<forall>t f. map_of (pool_entries p) t = Some f \<longrightarrow> \<not> outranks e f)"

text \<open>The second entry spends an output of the first id.\<close>

definition child_of :: "mempool \<Rightarrow> hash32 \<Rightarrow> hash32 \<Rightarrow> bool" where
  "child_of p a t \<longleftrightarrow> (\<exists>e op. map_of (pool_entries p) t = Some e \<and> op \<in> entry_outpoints e \<and> op_txid op = a)"

definition descends :: "mempool \<Rightarrow> hash32 \<Rightarrow> hash32 set" where
  "descends p root = {t. (child_of p)\<^sup>*\<^sup>* root t}"

definition drop_entries :: "hash32 set \<Rightarrow> mempool \<Rightarrow> mempool" where
  "drop_entries S p = p\<lparr>
     pool_entries := filter (\<lambda>x. fst x \<notin> S) (pool_entries p),
     pool_spends := filter (\<lambda>x. snd x \<notin> S) (pool_spends p),
     total_bytes := sum_list (map (\<lambda>x. entry_size (snd x)) (filter (\<lambda>x. fst x \<notin> S) (pool_entries p)))\<rparr>"

text \<open>
  Evictions for a candidate: as long as it does not fit, an entry of the lowest priority, if the candidate
  goes before it, is dropped with everything that descends from it.  The set is that of all dropped ids.
\<close>

inductive evicted_for :: "mempool_entry \<Rightarrow> mempool \<Rightarrow> hash32 set \<Rightarrow> mempool \<Rightarrow> bool" for cand where
  evict_none: "evicted_for cand p {} p"
| evict_one: "would_exceed_limits (entry_size cand) p \<Longrightarrow> lowest_entry p v e \<Longrightarrow> outranks cand e \<Longrightarrow>
    evicted_for cand (drop_entries (descends p v) p) V p' \<Longrightarrow> evicted_for cand p (descends p v \<union> V) p'"

section \<open>What the operations remove\<close>

lemma delete_filter: "AList.delete k al = filter (\<lambda>x. fst x \<noteq> k) al"
  by (auto simp: AList.delete_eq split_def intro: filter_cong)

lemma claimed_iff:
  assumes "claims_ok p"
  shows "(op, t) \<in> set (pool_spends p) \<longleftrightarrow> (\<exists>e. map_of (pool_entries p) t = Some e \<and> op \<in> entry_outpoints e)"
proof -
  have "distinct (map fst (pool_spends p))" using assms unfolding claims_ok_def by blast
  then have "(op, t) \<in> set (pool_spends p) \<longleftrightarrow> map_of (pool_spends p) op = Some t" by simp
  then show ?thesis using claims_okD [OF assms] by simp
qed

lemma remove_entries_lists:
  "pool_ok E p \<Longrightarrow>
     pool_entries (remove_entries ids p) = filter (\<lambda>x. fst x \<notin> set ids) (pool_entries p) \<and>
     pool_spends (remove_entries ids p) = filter (\<lambda>x. snd x \<notin> set ids) (pool_spends p) \<and>
     pool_limits (remove_entries ids p) = pool_limits p \<and> next_entry_seq (remove_entries ids p) = next_entry_seq p"
proof (induction ids arbitrary: p)
  case Nil
  then show ?case by (simp add: remove_entries_def)
next
  case (Cons i ids)
  have ok: "pool_ok E (remove_entry i p)" using remove_entry_ok(1) [OF Cons.prems] .
  have one: "pool_entries (remove_entry i p) = filter (\<lambda>x. fst x \<noteq> i) (pool_entries p) \<and>
      pool_spends (remove_entry i p) = filter (\<lambda>x. snd x \<noteq> i) (pool_spends p)"
  proof (cases "map_of (pool_entries p) i")
    case None
    then have "\<forall>x\<in>set (pool_entries p). fst x \<noteq> i" by (auto simp: map_of_eq_None_iff)
    moreover have "\<forall>x\<in>set (pool_spends p). snd x \<noteq> i"
    proof
      fix x assume x: "x \<in> set (pool_spends p)"
      have "claims_ok p" using Cons.prems by (simp add: pool_ok_def)
      then show "snd x \<noteq> i" using claimed_iff [of p "fst x" "snd x"] x None by auto
    qed
    ultimately show ?thesis using None by (simp add: remove_entry_def)
  qed (simp add: remove_entry_def delete_filter split_def)
  have "pool_limits (remove_entry i p) = pool_limits p \<and> next_entry_seq (remove_entry i p) = next_entry_seq p"
    by (simp add: remove_entry_def split: option.split)
  moreover have "remove_entries (i # ids) p = remove_entries ids (remove_entry i p)" by (simp add: remove_entries_def)
  ultimately show ?case using Cons.IH [OF ok] one by (auto intro: filter_cong)
qed

lemma remove_entries_drop:
  assumes "pool_ok E p"
  shows "remove_entries ids p = drop_entries (set ids) p"
proof -
  have "total_bytes (remove_entries ids p) = sum_list (map (\<lambda>x. entry_size (snd x)) (pool_entries (remove_entries ids p)))"
    using remove_entries_ok [OF assms, of ids] by (simp add: pool_ok_def)
  then show ?thesis using remove_entries_lists [OF assms, of ids] by (simp add: drop_entries_def)
qed

text \<open>The search along the claimed outpoints finds the descendants.\<close>

definition owner_of :: "(out_point \<times> hash32) list \<Rightarrow> hash32 \<Rightarrow> hash32 \<Rightarrow> bool" where
  "owner_of sp a t \<longleftrightarrow> (\<exists>op. (op, t) \<in> set sp \<and> op_txid op = a)"

lemma descend_set:
  assumes "\<forall>x. x \<in> insert root (set found) \<and> x \<notin> set stack \<longrightarrow> Collect (owner_of sp x) \<subseteq> set found"
    and "\<forall>x\<in>set found. (owner_of sp)\<^sup>+\<^sup>+ root x" and "set stack \<subseteq> insert root (set found)"
  shows "set (descend sp (found, stack)) = {t. (owner_of sp)\<^sup>+\<^sup>+ root t}"
  using assms
proof (induction sp "(found, stack)" arbitrary: found stack rule: descend.induct)
  case (1 sp found)
  have "t \<in> set found" if "(owner_of sp)\<^sup>+\<^sup>+ root t" for t
    using that by (induction rule: tranclp_induct) (use 1(1) in auto)
  then show ?case using 1(2) by auto
next
  case (2 sp found current stack)
  obtain new where new: "scan_owners sp current (found, stack) = (new @ found, new @ stack)"
      "set new = Collect (owner_of sp current) - set found"
    using scan_owners_grows [of sp current found stack] by (auto simp: owner_of_def [abs_def])
  have "\<forall>x. x \<in> insert root (set (new @ found)) \<and> x \<notin> set (new @ stack) \<longrightarrow> Collect (owner_of sp x) \<subseteq> set (new @ found)"
  proof (intro allI impI)
    fix x assume "x \<in> insert root (set (new @ found)) \<and> x \<notin> set (new @ stack)"
    then show "Collect (owner_of sp x) \<subseteq> set (new @ found)"
      using 2(2) new(2) by (cases "x = current") auto
  qed
  moreover have "\<forall>x\<in>set (new @ found). (owner_of sp)\<^sup>+\<^sup>+ root x"
  proof
    fix x assume "x \<in> set (new @ found)"
    then consider "owner_of sp current x" | "x \<in> set found" using new(2) by auto
    then show "(owner_of sp)\<^sup>+\<^sup>+ root x"
      using 2(3,4) by cases (auto intro: tranclp.trancl_into_trancl)
  qed
  moreover have "set (new @ stack) \<subseteq> insert root (set (new @ found))" using 2(4) by auto
  ultimately have "set (descend sp (new @ found, new @ stack)) = {t. (owner_of sp)\<^sup>+\<^sup>+ root t}"
    using 2(1) [OF new(1)] by blast
  then show ?case by (simp add: new(1))
qed

lemma owner_child: "pool_ok E p \<Longrightarrow> owner_of (pool_spends p) = child_of p"
proof (intro ext)
  fix a t assume "pool_ok E p"
  then have "claims_ok p" by (simp add: pool_ok_def)
  then show "owner_of (pool_spends p) a t = child_of p a t"
    using claimed_iff by (auto simp: owner_of_def child_of_def)
qed

lemma remove_descendants_drop:
  assumes "pool_ok E p"
  shows "remove_entry_and_descendants v p = drop_entries (descends p v) p"
proof -
  have "set (descendants_of v p) = {t. (child_of p)\<^sup>+\<^sup>+ v t}"
    using descend_set [of v "[]" "[v]" "pool_spends p"] owner_child [OF assms] by (simp add: descendants_of_def)
  then have "set (List.insert v (descendants_of v p)) = descends p v"
    by (auto simp: descends_def dest: rtranclpD tranclp_into_rtranclp)
  then show ?thesis using remove_entries_drop [OF assms] by (simp add: remove_entry_and_descendants_def)
qed

lemma drop_descends_ok: "pool_ok E p \<Longrightarrow> pool_ok E (drop_entries (descends p v) p)"
  using remove_descendants_drop remove_entries_ok by (metis remove_entry_and_descendants_def)

section \<open>The loop\<close>

lemma outranks_nat:
  "outranks e f \<longleftrightarrow> unat (fee_rate f) < unat (fee_rate e) \<or>
     (unat (fee_rate f) = unat (fee_rate e) \<and> unat (entry_seq f) < unat (entry_seq e))"
  by (simp add: outranks_def word_less_nat_alt word_unat_eq_iff)

lemma outranks_asym: "outranks e f \<Longrightarrow> \<not> outranks f e"
  by (simp add: outranks_nat) linarith

lemma not_outranks_trans: "\<not> outranks e f \<Longrightarrow> \<not> outranks f g \<Longrightarrow> \<not> outranks e g"
  by (simp add: outranks_nat) linarith

lemma lowest_priority_step:
  "lowest_priority xs = Some w \<Longrightarrow> lowest_priority (z # xs) = Some (if outranks (snd z) (snd w) then w else z)"
  by (simp add: outranks_def)

lemma lowest_priority_least:
  "lowest_priority xs = Some x \<Longrightarrow> y \<in> set xs \<Longrightarrow> \<not> outranks (snd x) (snd y)"
proof (induction xs arbitrary: x y)
  case (Cons z xs)
  show ?case
  proof (cases "lowest_priority xs")
    case None
    then have "xs = []" by (cases xs) (auto split: option.splits if_splits)
    then show ?thesis using Cons.prems by (simp add: outranks_def)
  next
    case (Some w)
    have least: "y \<in> set xs \<Longrightarrow> \<not> outranks (snd w) (snd y)" using Cons.IH [OF Some] .
    have x: "x = (if outranks (snd z) (snd w) then w else z)" using Cons.prems(1) lowest_priority_step [OF Some, of z] by simp
    show ?thesis
    proof (cases "outranks (snd z) (snd w)")
      case True
      then have "x = w" using x by simp
      then show ?thesis using Cons.prems(2) least outranks_asym [OF True] by auto
    next
      case False
      then have "x = z" using x by simp
      moreover have "y \<in> set xs \<Longrightarrow> \<not> outranks (snd z) (snd y)" using not_outranks_trans [OF False least] .
      moreover have "\<not> outranks (snd z) (snd z)" by (simp add: outranks_def)
      ultimately show ?thesis using Cons.prems(2) by auto
    qed
  qed
qed simp

lemma lowest_priority_None: "lowest_priority xs = None \<longleftrightarrow> xs = []"
  by (cases xs) (auto split: option.splits)

lemma lowest_priority_entry:
  assumes ok: "pool_ok E p" and v: "lowest_priority_txid p = Some v"
  obtains e where "lowest_entry p v e" "\<And>cand. should_evict v cand p = outranks cand e"
proof -
  obtain e where e: "lowest_priority (pool_entries p) = Some (v, e)" using v by (auto simp: lowest_priority_txid_def)
  have m: "map_of (pool_entries p) v = Some e" using lowest_priority_Some [OF e] ok by (simp add: pool_ok_def)
  have "lowest_entry p v e"
    using m lowest_priority_least [OF e map_of_SomeD] by (auto simp: lowest_entry_def simp del: map_of_eq_Some_iff)
  moreover have "should_evict v cand p = outranks cand e" for cand
    using m by (auto simp: should_evict_def outranks_def)
  ultimately show thesis using that by blast
qed

text \<open>Whether the candidate fits in the end; if not, nothing is left, or it goes before no entry of the lowest priority.\<close>

definition room_result :: "mempool_entry \<Rightarrow> mempool \<Rightarrow> mempool_error + unit \<Rightarrow> bool" where
  "room_result cand p r \<longleftrightarrow>
     (case r of
        Inr _ \<Rightarrow> \<not> would_exceed_limits (entry_size cand) p
      | Inl e \<Rightarrow> e = AtCapacity \<and> would_exceed_limits (entry_size cand) p \<and>
          (pool_entries p = [] \<or> (\<exists>v f. lowest_entry p v f \<and> \<not> outranks cand f)))"

lemma make_room_evicts:
  "pool_ok E p \<Longrightarrow> make_room_for cand p = (r, p') \<Longrightarrow> \<exists>V. evicted_for cand p V p' \<and> room_result cand p' r"
proof (induction cand p rule: make_room_for.induct)
  case (1 cand p)
  note run = 1(3) [unfolded make_room_for.simps [of cand p]]
  show ?case
  proof (cases "would_exceed_limits (entry_size cand) p")
    case False
    then show ?thesis using run by (auto simp: room_result_def intro: evict_none)
  next
    case full: True
    show ?thesis
    proof (cases "lowest_priority_txid p")
      case None
      then have "pool_entries p = []" by (simp add: lowest_priority_txid_def lowest_priority_None)
      then show ?thesis using run full None by (auto simp: room_result_def intro: evict_none)
    next
      case (Some v)
      obtain e where e: "lowest_entry p v e" "should_evict v cand p = outranks cand e"
        using lowest_priority_entry [OF 1(2) Some] by metis
      show ?thesis
      proof (cases "outranks cand e")
        case False
        then show ?thesis using run full Some e by (auto simp: room_result_def intro: evict_none)
      next
        case True
        let ?q = "remove_entry_and_descendants v p"
        have q: "?q = drop_entries (descends p v) p" using remove_descendants_drop [OF 1(2)] .
        then have ok: "pool_ok E ?q" using drop_descends_ok [OF 1(2)] by simp
        have "make_room_for cand ?q = (r, p')" using run full Some e True by simp
        then obtain V where "evicted_for cand ?q V p'" "room_result cand p' r"
          using 1(1) [OF _ Some _ ok] full e True by auto
        then show ?thesis using evict_one [OF full e(1) True] by (auto simp: q)
      qed
    qed
  qed
qed

text \<open>All in all, the ids of the set are dropped; no kept entry spends an output of a dropped entry.\<close>

lemma drop_drop: "drop_entries S (drop_entries T p) = drop_entries (T \<union> S) p"
proof -
  have "filter (\<lambda>x. P x \<notin> S) (filter (\<lambda>x. P x \<notin> T) xs) = filter (\<lambda>x. P x \<notin> T \<union> S) xs" for P and xs :: "'x list"
    by (auto intro: filter_cong)
  then show ?thesis by (simp add: drop_entries_def)
qed

lemma map_of_drop: "map_of (pool_entries (drop_entries S p)) t = (if t \<in> S then None else map_of (pool_entries p) t)"
proof -
  have "map_of (filter (\<lambda>x. fst x \<notin> S) al) t = (if t \<in> S then None else map_of al t)" for al :: "(hash32 \<times> mempool_entry) list"
    by (induction al) auto
  then show ?thesis by (simp add: drop_entries_def)
qed

definition spend_closed :: "mempool \<Rightarrow> hash32 set \<Rightarrow> bool" where
  "spend_closed p V \<longleftrightarrow> (\<forall>a t. a \<in> V \<longrightarrow> child_of p a t \<longrightarrow> t \<in> V)"

lemma evicted_drop: "evicted_for cand p V p' \<Longrightarrow> p' = drop_entries V p \<or> V = {} \<and> p' = p"
  by (induction rule: evicted_for.induct) (auto simp: drop_drop)

lemma evicted_closed: "evicted_for cand p V p' \<Longrightarrow> spend_closed p V"
proof (induction rule: evicted_for.induct)
  case (evict_one p v e V p')
  show ?case unfolding spend_closed_def
  proof (intro allI impI)
    fix a t assume a: "a \<in> descends p v \<union> V" and c: "child_of p a t"
    show "t \<in> descends p v \<union> V"
    proof (cases "a \<in> descends p v \<or> t \<in> descends p v")
      case True
      then show ?thesis using c by (auto simp: descends_def intro: rtranclp.rtrancl_into_rtrancl)
    next
      case False
      then have "child_of (drop_entries (descends p v) p) a t" using c by (simp add: child_of_def map_of_drop)
      then show ?thesis using evict_one.IH a False by (auto simp: spend_closed_def)
    qed
  qed
qed (simp add: spend_closed_def)

lemma evicted_ok: "evicted_for cand p V p' \<Longrightarrow> pool_ok E p \<Longrightarrow> p' = drop_entries V p \<and> pool_ok E p'"
proof (induction rule: evicted_for.induct)
  case (evict_none p)
  then show ?case by (simp add: drop_entries_def pool_ok_def)
next
  case (evict_one p v e V p')
  then have "p' = drop_entries V (drop_entries (descends p v) p) \<and> pool_ok E p'" using drop_descends_ok by blast
  then show ?case unfolding drop_drop .
qed

section \<open>Validity in the order of admission\<close>

lemma valid_in_order_append:
  "valid_in_order E u (es @ [e]) \<longleftrightarrow> valid_in_order E u es \<and> is_valid_for_view E (entry_tx e) (apply_entries E es u)"
  by (induction es arbitrary: u) (auto simp: apply_entries_def)

lemma apply_entries_snoc: "apply_entries E (es @ [e]) u = fst (apply_transaction E (apply_entries E es u) (entry_tx e))"
  by (simp add: apply_entries_def)

text \<open>Validity looks at the outputs the transaction spends only.\<close>

lemma is_valid_for_view_cong:
  assumes "\<forall>op\<in>input_outpoint ` set (inputs tx). entries v op = entries w op"
  shows "is_valid_for_view E tx v = is_valid_for_view E tx w"
proof -
  have "prev_scripts_loop v ins = prev_scripts_loop w ins" if "set ins \<subseteq> set (inputs tx)" for ins
    using that assms by (induction ins) (simp_all add: utxo_get_def split: option.split)
  moreover have "inputs_value v tx = inputs_value w tx" using assms by (simp add: inputs_value_def cong: map_cong)
  moreover have "list_all (\<lambda>i. input_outpoint i \<in> dom (entries v)) (inputs tx) =
      list_all (\<lambda>i. input_outpoint i \<in> dom (entries w)) (inputs tx)"
    using assms by (simp add: list_all_iff domIff)
  ultimately show ?thesis by (simp add: is_valid_for_view_def verify_scripts_def is_ok_iff validate_transaction_Inr_iff)
qed

lemma insert_outputs_agree:
  "entries u op = entries v op \<Longrightarrow>
     entries (fst (insert_outputs tid k outs u crt)) op = entries (fst (insert_outputs tid k outs v crt')) op"
  by (induction outs arbitrary: k u v crt crt') auto

lemma apply_transaction_agree:
  assumes "entries u op = entries v op"
  shows "entries (fst (apply_transaction E u tx)) op = entries (fst (apply_transaction E v tx)) op"
proof -
  obtain u1 r where u: "(if is_coinbase tx then (u, []) else remove_inputs (inputs tx) u []) = (u1, r)" by fastforce
  obtain v1 r' where v: "(if is_coinbase tx then (v, []) else remove_inputs (inputs tx) v []) = (v1, r')" by fastforce
  have "entries u1 op = entries v1 op"
    using u v assms remove_inputs_spec [of "inputs tx" u "[]"] remove_inputs_spec [of "inputs tx" v "[]"]
    by (auto simp: restrict_map_def split: if_splits)
  from insert_outputs_agree [OF this, of "txid E tx" 0 "outputs tx" "[]" "[]"] show ?thesis
    by (auto simp: apply_transaction_def u v split: prod.split)
qed

lemma apply_transaction_other:
  assumes "op \<notin> input_outpoint ` set (inputs tx)" "op_txid op \<noteq> txid E tx"
  shows "entries (fst (apply_transaction E u tx)) op = entries u op"
proof (rule apply_transaction_spec [of E u tx])
  fix u' r c
  assume "apply_transaction E u tx = (u', \<lparr>removed = r, created = c\<rparr>)" "set c = created_outpoints E tx"
    and other: "\<And>op. op \<notin> set c \<Longrightarrow> entries u' op = (entries u |` (- spent_outpoints tx)) op"
  moreover have "op \<notin> created_outpoints E tx" "op \<notin> spent_outpoints tx"
    using assms by (auto simp: created_outpoints_def spent_outpoints_def)
  ultimately show ?thesis by simp
qed

definition untouched_by :: "env \<Rightarrow> out_point \<Rightarrow> mempool_entry \<Rightarrow> bool" where
  "untouched_by E op d \<longleftrightarrow> op \<notin> entry_outpoints d \<and> op_txid op \<noteq> txid E (entry_tx d)"

lemma apply_entries_filter:
  "\<forall>d\<in>set es. \<not> K d \<longrightarrow> untouched_by E op d \<Longrightarrow>
     entries (apply_entries E (filter K es) u) op = entries (apply_entries E es u) op"
proof (induction es rule: rev_induct)
  case (snoc e es)
  then have ih: "entries (apply_entries E (filter K es) u) op = entries (apply_entries E es u) op" by simp
  show ?case
  proof (cases "K e")
    case True
    then show ?thesis using apply_transaction_agree [OF ih] by (simp add: apply_entries_snoc)
  next
    case False
    then have "untouched_by E op e" using snoc.prems by simp
    then show ?thesis using ih False apply_transaction_other by (simp add: apply_entries_snoc untouched_by_def)
  qed
qed (simp add: apply_entries_def)

lemma filter_valid:
  "valid_in_order E u es \<Longrightarrow>
     \<forall>e\<in>set es. K e \<longrightarrow> (\<forall>op\<in>entry_outpoints e. \<forall>d\<in>set es. \<not> K d \<longrightarrow> untouched_by E op d) \<Longrightarrow>
     valid_in_order E u (filter K es)"
proof (induction es rule: rev_induct)
  case (snoc e es)
  have ih: "valid_in_order E u (filter K es)" using snoc by (simp add: valid_in_order_append)
  show ?case
  proof (cases "K e")
    case True
    have "is_valid_for_view E (entry_tx e) (apply_entries E (filter K es) u) = is_valid_for_view E (entry_tx e) (apply_entries E es u)"
    proof (rule is_valid_for_view_cong, rule ballI)
      fix op assume "op \<in> entry_outpoints e"
      then show "entries (apply_entries E (filter K es) u) op = entries (apply_entries E es u) op"
        using snoc.prems(2) True by (intro apply_entries_filter) auto
    qed
    then show ?thesis using snoc.prems(1) ih True by (simp add: valid_in_order_append)
  next
    case False
    then show ?thesis using ih by simp
  qed
qed simp

lemma ordered_drop:
  assumes "pool_ok E p"
  shows "ordered_entries (drop_entries S p) = filter (\<lambda>e. txid E (entry_tx e) \<notin> S) (ordered_entries p)"
proof -
  have "entry_ok E (fst x) (snd x)" if "x \<in> set (pool_entries p)" for x
    using assms that by (cases x) (simp add: pool_ok_def)
  then have "map snd (filter (\<lambda>x. fst x \<notin> S) (pool_entries p)) = filter (\<lambda>e. txid E (entry_tx e) \<notin> S) (map snd (pool_entries p))"
    unfolding filter_map comp_def by (intro arg_cong [of _ _ "map snd"] filter_cong) (auto simp: entry_ok_def)
  then show ?thesis by (simp add: ordered_entries_def drop_entries_def filter_sort)
qed

lemma ordered_entry:
  assumes ok: "pool_ok E p" and e: "e \<in> set (ordered_entries p)"
  shows "map_of (pool_entries p) (txid E (entry_tx e)) = Some e"
proof -
  have d: "distinct (map fst (pool_entries p))" and all: "\<forall>t e. map_of (pool_entries p) t = Some e \<longrightarrow> entry_ok E t e"
    using ok by (simp_all add: pool_ok_def)
  obtain t where "(t, e) \<in> set (pool_entries p)" using e by (force simp: ordered_entries_def)
  then have m: "map_of (pool_entries p) t = Some e" using d by simp
  then have "txid E (entry_tx e) = t" using all by (simp add: entry_ok_def)
  then show ?thesis using m by simp
qed

text \<open>An outpoint a kept entry spends is neither spent nor created by a dropped one.\<close>

lemma closed_untouched:
  assumes ok: "pool_ok E p" and V: "spend_closed p V" and d: "d \<in> set (ordered_entries p)" "txid E (entry_tx d) \<in> V"
    and op: "\<And>e t. map_of (pool_entries p) t = Some e \<Longrightarrow> op \<in> entry_outpoints e \<Longrightarrow> t \<notin> V" "op_txid op \<notin> V"
  shows "untouched_by E op d"
  using op(1) [OF ordered_entry [OF ok d(1)]] op(2) d(2) by (auto simp: untouched_by_def)

lemma same_owner:
  assumes "pool_ok E p" "map_of (pool_entries p) t = Some e" "map_of (pool_entries p) t' = Some e'"
    "op \<in> entry_outpoints e" "op \<in> entry_outpoints e'"
  shows "t = t'"
proof -
  have "claims_ok p" using assms(1) by (simp add: pool_ok_def)
  note claims_okD [OF this, of op]
  then have "map_of (pool_spends p) op = Some t" "map_of (pool_spends p) op = Some t'" using assms(2-5) by blast+
  then show ?thesis by simp
qed

lemma drop_closed_valid:
  assumes ok: "pool_ok E p" and V: "spend_closed p V" and valid: "valid_in_order E u (ordered_entries p)"
  shows "valid_in_order E u (ordered_entries (drop_entries V p))"
  unfolding ordered_drop [OF ok]
proof (rule filter_valid [OF valid], intro ballI impI)
  fix e op d
  assume e: "e \<in> set (ordered_entries p)" "txid E (entry_tx e) \<notin> V" "op \<in> entry_outpoints e"
    and d: "d \<in> set (ordered_entries p)" "\<not> txid E (entry_tx d) \<notin> V"
  have m: "map_of (pool_entries p) (txid E (entry_tx e)) = Some e" using ordered_entry [OF ok e(1)] .
  have "t \<notin> V" if "map_of (pool_entries p) t = Some f" "op \<in> entry_outpoints f" for t f
    using same_owner [OF ok m that(1) e(3) that(2)] e(2) by simp
  moreover have "op_txid op \<notin> V"
    using V m e(2,3) unfolding spend_closed_def child_of_def by blast
  ultimately show "untouched_by E op d" using closed_untouched [OF ok V d(1)] d(2) by blast
qed

text \<open>An output that neither the set has nor an entry creates is not there.\<close>

lemma apply_entries_missing:
  "entries u op = None \<Longrightarrow> \<forall>e\<in>set es. op_txid op \<noteq> txid E (entry_tx e) \<Longrightarrow> entries (apply_entries E es u) op = None"
proof (induction es rule: rev_induct)
  case (snoc e es)
  then have none: "entries (apply_entries E es u) op = None" by simp
  show ?case
  proof (rule apply_transaction_spec [of E "apply_entries E es u" "entry_tx e"])
    fix u' r c
    assume a: "apply_transaction E (apply_entries E es u) (entry_tx e) = (u', \<lparr>removed = r, created = c\<rparr>)"
      "set c = created_outpoints E (entry_tx e)"
      "\<And>op. op \<notin> set c \<Longrightarrow> entries u' op = (entries (apply_entries E es u) |` (- spent_outpoints (entry_tx e))) op"
    have "op \<notin> set c" using snoc.prems(2) by (auto simp: a(2) created_outpoints_def)
    then show ?thesis using a(1,3) none by (simp add: apply_entries_snoc restrict_map_def)
  qed
qed (simp add: apply_entries_def)

end
