(* ===== verification/MempoolTheorems.thy ===== *)
theory MempoolTheorems
  imports Eviction Samples
begin

text \<open>The properties of the memory pool, over every pool its operations can produce.\<close>

inductive pool_reach :: "env \<Rightarrow> mempool_limits \<Rightarrow> mempool \<Rightarrow> bool" for E lim where
  reach_new: "pool_reach E lim (new_mempool lim)"
| reach_accept: "pool_reach E lim p \<Longrightarrow> accept_tx E tx u p = (r, p') \<Longrightarrow> pool_reach E lim p'"
| reach_block: "pool_reach E lim p \<Longrightarrow> pool_reach E lim (remove_for_block E b p)"
| reach_sync: "pool_reach E lim p \<Longrightarrow> synchronize_to_chain E u con dis p = Some p' \<Longrightarrow> pool_reach E lim p'"
| reach_events: "pool_reach E lim p \<Longrightarrow> apply_chain_events E evs c p = Some p' \<Longrightarrow> pool_reach E lim p'"
| reach_resync: "pool_reach E lim p \<Longrightarrow> resync_to_active_chain E c since p = (r, Some p') \<Longrightarrow> pool_reach E lim p'"
| reach_serve: "pool_reach E lim p \<Longrightarrow> serve_transaction E tid u p = (t, p') \<Longrightarrow> pool_reach E lim p'"

definition good_pool :: "env \<Rightarrow> mempool_limits \<Rightarrow> mempool \<Rightarrow> bool" where
  "good_pool E lim p \<longleftrightarrow> pool_ok E p \<and> within_limits p \<and> pool_limits p = lim"

lemma good_shrinks: "good_pool E lim p \<Longrightarrow> pool_ok E p' \<Longrightarrow> shrinks p p' \<Longrightarrow> good_pool E lim p'"
  unfolding good_pool_def using shrinks_limits [of p p'] by (simp add: shrinks_def)

lemma good_remove_for_block: "good_pool E lim p \<Longrightarrow> good_pool E lim (remove_for_block E b p)"
  using good_shrinks remove_for_block_ok(1,2) unfolding good_pool_def by blast

lemma good_remove_blocks: "good_pool E lim p \<Longrightarrow> good_pool E lim (foldl (\<lambda>p b. remove_for_block E b p) p bs)"
  by (induction bs arbitrary: p) (simp_all add: good_remove_for_block)

lemma good_revalidate:
  "good_pool E lim p \<Longrightarrow> \<exists>p'. revalidate_pool E u p = Some p' \<and> good_pool E lim p' \<and> shrinks p p' \<and> valid_in_order E u (ordered_entries p')"
  using revalidate_loop_ok [of E p "length (pool_entries p) + 1" u] good_shrinks [of E lim p]
  by (auto simp: revalidate_pool_def good_pool_def)

lemma good_restore: "good_pool E lim p \<Longrightarrow> good_pool E lim (restore_candidates E u txs p)"
  using restore_candidates_ok by (simp add: good_pool_def)

lemma good_synchronize:
  assumes "good_pool E lim p"
  shows "\<exists>p'. synchronize_to_chain E u con dis p = Some p' \<and> good_pool E lim p'"
  using good_revalidate [OF good_remove_blocks [OF assms, of con], of u] good_restore
  by (auto simp: synchronize_to_chain_def)

lemma good_resync:
  assumes "good_pool E lim p"
  shows "\<exists>r p'. resync_to_active_chain E c since p = (r, Some p') \<and> good_pool E lim p'"
proof (cases "recovery_disconnected_blocks c since")
  case (Inl e)
  then show ?thesis using assms by (simp add: resync_to_active_chain_def)
next
  case (Inr dis)
  define hs where "hs = [0..<unat (height c) + 1]"
  let ?f = "\<lambda>p h. case active_block_at c (of_nat h) of None \<Rightarrow> p | Some b \<Rightarrow> remove_for_block E b p"
  have "good_pool E lim (foldl ?f p hs)"
    using assms by (induction hs arbitrary: p) (simp_all add: good_remove_for_block split: option.split)
  from good_revalidate [OF this, of "utxo c"]
  obtain p' where p': "revalidate_pool E (utxo c) (foldl ?f p hs) = Some p'" "good_pool E lim p'" by blast
  have "resync_to_active_chain E c since p =
      (Inr (), map_option (restore_candidates E (utxo c) (restorable dis)) (revalidate_pool E (utxo c) (foldl ?f p hs)))"
    by (simp only: resync_to_active_chain_def Inr sum.case Let_def hs_def)
  then show ?thesis using p' good_restore by auto
qed

lemma pool_reach_good: "pool_reach E lim p \<Longrightarrow> good_pool E lim p"
proof (induction rule: pool_reach.induct)
  case reach_new
  then show ?case using new_mempool_ok by (simp add: good_pool_def) (simp add: new_mempool_def)
next
  case (reach_accept p tx u r p')
  show ?case using accept_tx_ok [OF _ _ reach_accept.hyps(2)] reach_accept.IH by (simp add: good_pool_def)
next
  case (reach_block p b)
  then show ?case using good_remove_for_block by blast
next
  case (reach_sync p u con dis p')
  then show ?case using good_synchronize [of E lim p u con dis] by auto
next
  case (reach_events p evs c p')
  obtain con dis where ev: "event_blocks c evs = (con, dis)" by fastforce
  show ?case using good_synchronize [OF reach_events.IH, of "utxo c" con dis] reach_events.hyps(2)
    by (auto simp: apply_chain_events_def ev)
next
  case (reach_resync p c since r p')
  then show ?case using good_resync [of E lim p c since] by auto
next
  case (reach_serve p tid u t p')
  have "p' = p \<or> p' = remove_entry tid p"
    using reach_serve.hyps(2) by (auto simp: serve_transaction_def split: option.splits if_splits)
  then show ?case
    using reach_serve.IH good_shrinks remove_entry_ok(1,2) unfolding good_pool_def by blast
qed

section \<open>Concrete pool\<close>

definition sample_view :: utxo_set where
  "sample_view = \<lparr>entries = [\<lparr>op_txid = replicate 32 7, op_index = 0\<rparr> \<mapsto> \<lparr>entry_value = 100, entry_script = []\<rparr>]\<rparr>"

definition sample_parent :: transaction where
  "sample_parent = \<lparr>tx_version = 1,
     inputs = [\<lparr>previous_output = replicate 32 7, prev_index = 0, script_sig = [], sequence_no = 0\<rparr>],
     outputs = [\<lparr>out_value = 50, script_pubkey = []\<rparr>], lock_time = 0\<rparr>"

definition sample_spender :: transaction where
  "sample_spender = \<lparr>tx_version = 2,
     inputs = [\<lparr>previous_output = 1 # replicate 31 0, prev_index = 0, script_sig = [], sequence_no = 0\<rparr>],
     outputs = [\<lparr>out_value = 1, script_pubkey = []\<rparr>], lock_time = 0\<rparr>"

lemma sample_sizes: "tx_serialized_size sample_parent = 60" "tx_serialized_size sample_spender = 60"
  by (simp_all add: tx_serialized_size_def sample_parent_def sample_spender_def compact_size_encoded_len_def)

lemma sample_first_byte:
  "length (serialize_tx sample_parent) = 60 \<and> hd (serialize_tx sample_parent) = 1"
  "length (serialize_tx sample_spender) = 60 \<and> hd (serialize_tx sample_spender) = 2"
  by (simp_all add: serialize_tx_def sample_parent_def sample_spender_def serialize_input_def serialize_output_def
      u32_to_le_bytes_def u64_to_le_bytes_def write_compact_size_def eval_simps)

lemma sample_txid:
  "txid sample_env sample_parent = 1 # replicate 31 0" "txid sample_env sample_spender = 2 # replicate 31 0"
  using sample_first_byte by (simp_all add: txid_def sha256d_def sample_env_def toy_env_def)

definition sample_limits1 :: mempool_limits where
  "sample_limits1 = \<lparr>max_tx_count = 1, max_bytes = 1000\<rparr>"

definition sample_entry :: "transaction \<Rightarrow> u64 \<Rightarrow> mempool_entry" where
  "sample_entry tx n = \<lparr>entry_tx = tx, fee_rate = 0, entry_size = 60, entry_seq = n\<rparr>"

definition sample_pool :: "transaction \<Rightarrow> u64 \<Rightarrow> mempool" where
  "sample_pool tx n = \<lparr>pool_limits = sample_limits1, pool_entries = [(txid sample_env tx, sample_entry tx n)],
     pool_spends = claim_inputs (txid sample_env tx) (inputs tx) [], total_bytes = 60, next_entry_seq = n + 1\<rparr>"

lemma accept_tx_success:
  assumes "build_validation_view E p u = view" "validate_tx_structure tx = Inr sz" "\<not> is_coinbase tx"
    "map_of (pool_entries p) (txid E tx) = None" "check_duplicate_inputs E tx = Inr ()" "check_mempool_conflicts tx p = Inr ()"
    "validate_transaction view tx = Inr ()" "compute_fee tx view = Inr fee" "verify_scripts E tx view = Inr ()"
    "cand = \<lparr>entry_tx = tx, fee_rate = (if sz > 0 then fee div of_nat sz else 0), entry_size = sz, entry_seq = next_entry_seq p\<rparr>"
    "make_room_for cand p = (Inr (), p1)"
  shows "accept_tx E tx u p =
    (Inr \<lparr>accepted_txid = txid E tx, accepted_fee = fee, accepted_size = sz\<rparr>, insert_entry (txid E tx) cand p1)"
  using assms by (simp add: accept_tx_def Let_def mempool_contains_def)

lemma sample_struct: "validate_tx_structure sample_parent = Inr 60" "validate_tx_structure sample_spender = Inr 60"
  by (simp_all add: validate_tx_structure_def sample_sizes)
    (simp_all add: sample_parent_def sample_spender_def is_coinbase_def limit_defs)

lemma sample_not_coinbase: "\<not> is_coinbase sample_parent" "\<not> is_coinbase sample_spender"
  by (simp_all add: is_coinbase_def sample_parent_def sample_spender_def)

lemma sample_accept_parent:
  "accept_tx sample_env sample_parent sample_view (new_mempool sample_limits1) =
     (Inr \<lparr>accepted_txid = txid sample_env sample_parent, accepted_fee = 50, accepted_size = 60\<rparr>, sample_pool sample_parent 0)"
proof -
  have "accept_tx sample_env sample_parent sample_view (new_mempool sample_limits1) =
    (Inr \<lparr>accepted_txid = txid sample_env sample_parent, accepted_fee = 50, accepted_size = 60\<rparr>,
     insert_entry (txid sample_env sample_parent) (sample_entry sample_parent 0) (new_mempool sample_limits1))"
  proof (rule accept_tx_success)
    show "build_validation_view sample_env (new_mempool sample_limits1) sample_view = sample_view"
      by (simp add: build_validation_view_def apply_entries_def ordered_entries_def new_mempool_def)
    show "validate_transaction sample_view sample_parent = Inr ()"
      by (simp add: validate_transaction_Inr_iff sample_not_coinbase)
        (simp add: sample_view_def sample_parent_def input_outpoint_def outputs_value_def inputs_value_def)
    show "compute_fee sample_parent sample_view = Inr 50"
      by (simp add: compute_fee_def sample_parent_def sample_view_def get_value_def utxo_get_def input_outpoint_def checked_add_def)
    show "verify_scripts sample_env sample_parent sample_view = Inr ()"
      by (simp add: verify_scripts_def sample_parent_def sample_view_def utxo_get_def input_outpoint_def)
    show "make_room_for (sample_entry sample_parent 0) (new_mempool sample_limits1) = (Inr (), new_mempool sample_limits1)"
      by (simp add: make_room_for.simps would_exceed_limits_def new_mempool_def sample_limits1_def sample_entry_def)
  qed ((rule sample_struct sample_not_coinbase)+, simp_all add: sample_entry_def check_duplicate_inputs_def check_mempool_conflicts_def
      new_mempool_def sample_parent_def)
  then show ?thesis by (simp add: new_mempool_def insert_entry_def sample_pool_def) (simp add: sample_entry_def)
qed

lemma sample_parent_applied:
  "entries (fst (apply_transaction sample_env sample_view sample_parent)) =
     [\<lparr>op_txid = 1 # replicate 31 0, op_index = 0\<rparr> \<mapsto> \<lparr>entry_value = 50, entry_script = []\<rparr>]"
  by (simp add: apply_transaction_def sample_not_coinbase sample_txid)
    (simp add: sample_parent_def sample_view_def input_outpoint_def fun_eq_iff)

text \<open>The pool of one entry: admitting the spender of its entry evicts the entry.\<close>

lemma sample_accept_spender:
  "accept_tx sample_env sample_spender sample_view (sample_pool sample_parent 0) =
     (Inr \<lparr>accepted_txid = txid sample_env sample_spender, accepted_fee = 49, accepted_size = 60\<rparr>, sample_pool sample_spender 1)"
proof -
  let ?view = "fst (apply_transaction sample_env sample_view sample_parent)"
  let ?empty = "(new_mempool sample_limits1)\<lparr>next_entry_seq := 1\<rparr>"
  have "accept_tx sample_env sample_spender sample_view (sample_pool sample_parent 0) =
    (Inr \<lparr>accepted_txid = txid sample_env sample_spender, accepted_fee = 49, accepted_size = 60\<rparr>,
     insert_entry (txid sample_env sample_spender) (sample_entry sample_spender 1) ?empty)"
  proof (rule accept_tx_success)
    show "build_validation_view sample_env (sample_pool sample_parent 0) sample_view = ?view"
      by (simp add: build_validation_view_def apply_entries_def ordered_entries_def sample_pool_def sample_entry_def)
    show "validate_transaction ?view sample_spender = Inr ()"
      by (simp add: validate_transaction_Inr_iff sample_not_coinbase)
        (simp add: sample_parent_applied sample_spender_def input_outpoint_def outputs_value_def inputs_value_def)
    show "compute_fee sample_spender ?view = Inr 49"
      by (simp add: compute_fee_def sample_spender_def sample_parent_applied get_value_def utxo_get_def input_outpoint_def checked_add_def)
    show "verify_scripts sample_env sample_spender ?view = Inr ()"
      by (simp add: verify_scripts_def sample_spender_def sample_parent_applied utxo_get_def input_outpoint_def)
    have desc: "descendants_of (txid sample_env sample_parent) (sample_pool sample_parent 0) = []"
      by (simp add: descendants_of_def sample_pool_def claim_inputs_def sample_txid)
        (simp add: sample_parent_def input_outpoint_def eval_simps)
    have full: "would_exceed_limits (entry_size (sample_entry sample_spender 1)) (sample_pool sample_parent 0)"
      "lowest_priority_txid (sample_pool sample_parent 0) = Some (txid sample_env sample_parent)"
      "should_evict (txid sample_env sample_parent) (sample_entry sample_spender 1) (sample_pool sample_parent 0)"
      by (simp_all add: would_exceed_limits_def lowest_priority_txid_def should_evict_def sample_pool_def sample_entry_def
          sample_limits1_def)
    have evict: "remove_entry_and_descendants (txid sample_env sample_parent) (sample_pool sample_parent 0) = ?empty"
      by (simp add: remove_entry_and_descendants_def remove_entries_def desc)
        (simp add: remove_entry_def sample_pool_def sample_entry_def new_mempool_def claim_inputs_def sample_parent_def)
    have room: "make_room_for (sample_entry sample_spender 1) ?empty = (Inr (), ?empty)"
      by (simp add: make_room_for.simps [of _ ?empty] would_exceed_limits_def)
        (simp add: new_mempool_def sample_limits1_def sample_entry_def)
    show "make_room_for (sample_entry sample_spender 1) (sample_pool sample_parent 0) = (Inr (), ?empty)"
      by (simp add: make_room_for.simps [of _ "sample_pool sample_parent 0"] full evict room)
    show "map_of (pool_entries (sample_pool sample_parent 0)) (txid sample_env sample_spender) = None"
      by (simp add: sample_pool_def sample_txid)
    show "check_mempool_conflicts sample_spender (sample_pool sample_parent 0) = Inr ()"
      by (simp add: check_mempool_conflicts_def sample_pool_def claim_inputs_def)
        (simp add: sample_spender_def sample_parent_def input_outpoint_def eval_simps)
  qed ((rule sample_struct sample_not_coinbase)+, simp_all add: sample_entry_def sample_pool_def,
      simp add: check_duplicate_inputs_def sample_spender_def)
  then show ?thesis by (simp add: new_mempool_def insert_entry_def sample_pool_def) (simp add: sample_entry_def)
qed

lemma sample_pool_reach:
  "pool_reach sample_env sample_limits1 (sample_pool sample_parent 0)"
  "pool_reach sample_env sample_limits1 (sample_pool sample_spender 1)"
proof -
  show p: "pool_reach sample_env sample_limits1 (sample_pool sample_parent 0)"
    by (rule reach_accept [OF reach_new sample_accept_parent])
  show "pool_reach sample_env sample_limits1 (sample_pool sample_spender 1)"
    by (rule reach_accept [OF p sample_accept_spender])
qed


section \<open>The invariant\<close>

text \<open>
  C9. Mempool invariant: after any sequence of admissions, confirmed blocks, chain events, resyncs and
  served requests, on whatever chain states, every entry is stored under its id with its size, the claimed
  outpoints are exactly the inputs of the entries (so no two entries spend the same output), the byte
  count is the sum of the sizes, and the pool is within its configured limits.
\<close>

theorem mempool_invariant:
  assumes "pool_reach E lim p"
  shows "pool_ok E p \<and> within_limits p \<and> pool_limits p = lim"
  using pool_reach_good [OF assms] by (simp add: good_pool_def)

theorem mempool_invariant_witness:
  "pool_ok sample_env (sample_pool sample_spender 1) \<and> within_limits (sample_pool sample_spender 1)"
  using mempool_invariant [OF sample_pool_reach(2)] by blast

section \<open>Admission\<close>

text \<open>
  C10. Admission: a transaction that \<open>accept_tx\<close> admits is no coinbase, was not in the pool, spends nothing
  an entry already claims, and is valid - structure, inputs, amounts and scripts - on the active chain with
  the pool's entries applied; the reported fee is what its inputs exceed its outputs by; afterwards it is in
  the pool, its inputs are claimed by it, and every other entry is one the pool had.
\<close>

theorem accept_tx_admits:
  assumes "pool_reach E lim p" and "accept_tx E tx u p = (Inr a, p')"
  shows "(let view = build_validation_view E p u; tid = txid E tx in
     is_valid_for_view E tx view \<and> outputs_value tx \<le> inputs_value view tx \<and>
     a = \<lparr>accepted_txid = tid, accepted_fee = of_nat (inputs_value view tx - outputs_value tx), accepted_size = tx_serialized_size tx\<rparr> \<and>
     get_transaction tid p = None \<and> get_transaction tid p' = Some tx \<and>
     (\<forall>op\<in>input_outpoint ` set (inputs tx). map_of (pool_spends p) op = None \<and> map_of (pool_spends p') op = Some tid) \<and>
     (map_of (pool_entries p'))(tid := None) \<subseteq>\<^sub>m map_of (pool_entries p))"
proof -
  have good: "pool_ok E p" "pool_ok E p'"
    using pool_reach_good [OF assms(1)] pool_reach_good [OF reach_accept [OF assms]] by (simp_all add: good_pool_def)
  obtain p1 cand where a: "make_room_for cand p = (Inr (), p1)" "p' = insert_entry (txid E tx) cand p1"
    "entry_tx cand = tx" "accepted_txid a = txid E tx" "accepted_size a = tx_serialized_size tx"
    "compute_fee tx (build_validation_view E p u) = Inr (accepted_fee a)"
    "is_valid_for_view E tx (build_validation_view E p u)" "\<not> mempool_contains (txid E tx) p"
    "check_mempool_conflicts tx p = Inr ()"
    by (rule accept_tx_Inr [OF assms(2)]) (simp add: that)
  have entries: "map_of (pool_entries p') = (map_of (pool_entries p1))(txid E tx \<mapsto> cand)"
    by (simp add: a(2) insert_entry_def update_conv')
  have fee: "accepted_fee a = of_nat (unat (accepted_fee a))" by simp
  have "accepted_fee a = of_nat (inputs_value (build_validation_view E p u) tx - outputs_value tx)"
    "outputs_value tx \<le> inputs_value (build_validation_view E p u) tx"
    using compute_fee_Inr [OF a(6)] by (simp_all add: fee [unfolded conjunct2 [OF compute_fee_Inr [OF a(6)]]])
  moreover have "map_of (pool_spends p') op = Some (txid E tx)" if "op \<in> input_outpoint ` set (inputs tx)" for op
    using that by (simp add: a(2,3) insert_entry_def map_of_claim_inputs)
  moreover have "(map_of (pool_entries p'))(txid E tx := None) \<subseteq>\<^sub>m map_of (pool_entries p)"
    using make_room_for_ok [OF good(1) a(1)] by (auto simp: entries shrinks_def map_le_def)
  ultimately show ?thesis
    using a entries by (simp add: Let_def get_transaction_def mempool_contains_def conflicts_Inr_iff)
qed

theorem accept_tx_admits_witness:
  "\<exists>a p'. accept_tx sample_env sample_parent sample_view (new_mempool sample_limits1) = (Inr a, p') \<and>
     accepted_fee a = 50 \<and> get_transaction (txid sample_env sample_parent) p' = Some sample_parent"
  using accept_tx_admits [OF reach_new sample_accept_parent] sample_accept_parent by (auto simp: Let_def)

section \<open>Making room\<close>

text \<open>The sequence numbers have not wrapped around.\<close>

definition seqs_ok :: "mempool \<Rightarrow> bool" where
  "seqs_ok p \<longleftrightarrow> (\<forall>x\<in>set (pool_entries p). entry_seq (snd x) < next_entry_seq p)"

lemma insort_key_last: "f a < f x \<Longrightarrow> insort_key f a (ys @ [x]) = insort_key f a ys @ [x]"
  for f :: "'a \<Rightarrow> 'b::linorder"
  by (induction ys) auto

lemma sort_key_last: "\<forall>a\<in>set xs. f a < f x \<Longrightarrow> sort_key f (xs @ [x]) = sort_key f xs @ [x]"
  for f :: "'a \<Rightarrow> 'b::linorder"
  by (induction xs) (auto simp: insort_key_last)

lemma seqs_subset: "seqs_ok p \<Longrightarrow> set (pool_entries q) \<subseteq> set (pool_entries p) \<Longrightarrow> next_entry_seq q = next_entry_seq p \<Longrightarrow> seqs_ok q"
  by (auto simp: seqs_ok_def)

lemma ordered_insert:
  assumes "seqs_ok p" "map_of (pool_entries p) tid = None" "entry_seq e = next_entry_seq p"
  shows "ordered_entries (insert_entry tid e p) = ordered_entries p @ [e]"
proof -
  have "pool_entries (insert_entry tid e p) = pool_entries p @ [(tid, e)]"
    using assms(2) by (simp add: insert_entry_def update_fresh)
  then show ?thesis using assms(1,3) sort_key_last [of "map snd (pool_entries p)" entry_seq e]
    by (simp add: ordered_entries_def seqs_ok_def)
qed

lemma accept_tx_cases:
  assumes "accept_tx E tx u p = (r, p')"
  obtains (refused) e where "r = Inl e" "p' = p"
    | (room) cand r1 p1 where "make_room_for cand p = (r1, p1)" "is_valid_for_view E tx (build_validation_view E p u)"
        "entry_tx cand = tx" "entry_size cand = tx_serialized_size tx" "entry_seq cand = next_entry_seq p"
        "map_of (pool_entries p) (txid E tx) = None" "check_mempool_conflicts tx p = Inr ()"
        "case r1 of Inl e \<Rightarrow> r = Inl e \<and> p' = p1
           | Inr _ \<Rightarrow> (\<exists>a. r = Inr a \<and> p' = insert_entry (txid E tx) cand p1 \<and>
               cand = \<lparr>entry_tx = tx, fee_rate = accepted_fee a div of_nat (accepted_size a), entry_size = accepted_size a,
                 entry_seq = next_entry_seq p\<rparr>)"
proof -
  let ?view = "build_validation_view E p u"
  let ?checks = "and_then (validate_tx_structure tx) (\<lambda>sz.
           if is_coinbase tx then Inl Coinbase
           else if mempool_contains (txid E tx) p then Inl (Duplicate (txid E tx))
           else
             and_then (check_duplicate_inputs E tx) (\<lambda>_.
             and_then (check_mempool_conflicts tx p) (\<lambda>_.
             and_then (map_err MempoolUtxo (validate_transaction ?view tx)) (\<lambda>_.
             and_then (compute_fee tx ?view) (\<lambda>fee.
             and_then (verify_scripts E tx ?view) (\<lambda>_. Inr (sz, fee)))))))"
  show thesis
  proof (cases ?checks)
    case (Inl e)
    then show thesis using refused [of e] assms by (simp add: accept_tx_def Let_def)
  next
    case (Inr st)
    then obtain sz fee where ok: "?checks = Inr (sz, fee)" by (cases st) simp
    have sz: "sz = tx_serialized_size tx" "0 < tx_serialized_size tx"
      using ok by (auto simp: and_then_Inr_iff dest!: validate_tx_structure_Inr split: if_splits) (simp add: tx_serialized_size_def)
    have valid: "is_valid_for_view E tx ?view" "map_of (pool_entries p) (txid E tx) = None" "check_mempool_conflicts tx p = Inr ()"
      using ok by (auto simp: and_then_Inr_iff is_valid_for_view_def is_ok_iff mempool_contains_def split: if_splits)
    let ?cand = "\<lparr>entry_tx = tx, fee_rate = fee div of_nat sz, entry_size = sz, entry_seq = next_entry_seq p\<rparr>"
    obtain r1 p1 where run: "make_room_for ?cand p = (r1, p1)" by fastforce
    show thesis
    proof (rule room [OF run valid(1) _ _ _ valid(2,3)])
      show "case r1 of Inl e \<Rightarrow> r = Inl e \<and> p' = p1
           | Inr _ \<Rightarrow> (\<exists>a. r = Inr a \<and> p' = insert_entry (txid E tx) ?cand p1 \<and>
               ?cand = \<lparr>entry_tx = tx, fee_rate = accepted_fee a div of_nat (accepted_size a), entry_size = accepted_size a,
                 entry_seq = next_entry_seq p\<rparr>)"
        using assms ok run sz by (cases r1) (auto simp: accept_tx_def Let_def)
    qed (simp_all add: sz)
  qed
qed

lemma admitted_valid:
  assumes ok: "pool_ok E p" and evict: "evicted_for cand p V p1"
    and cand: "entry_tx cand = tx" "entry_seq cand = next_entry_seq p" "is_valid_for_view E tx (build_validation_view E p u)"
      "map_of (pool_entries p) (txid E tx) = None" "check_mempool_conflicts tx p = Inr ()"
    and before: "seqs_ok p" "valid_in_order E u (ordered_entries p)"
  shows "valid_in_order E u (ordered_entries p1)"
    and "\<forall>op\<in>input_outpoint ` set (inputs tx). op_txid op \<notin> V \<Longrightarrow>
      valid_in_order E u (ordered_entries (insert_entry (txid E tx) cand p1))"
    and "op \<in> input_outpoint ` set (inputs tx) \<Longrightarrow> op_txid op \<in> V \<Longrightarrow> entries u op = None \<Longrightarrow>
      \<not> valid_in_order E u (ordered_entries (insert_entry (txid E tx) cand p1))"
proof -
  have V: "spend_closed p V" and p1: "p1 = drop_entries V p" "pool_ok E p1"
    using evicted_closed [OF evict] evicted_ok [OF evict ok] by blast+
  show valid1: "valid_in_order E u (ordered_entries p1)" using drop_closed_valid [OF ok V before(2)] by (simp add: p1(1))
  have "seqs_ok p1" using before(1) by (rule seqs_subset) (auto simp: p1(1) drop_entries_def)
  moreover have "next_entry_seq p1 = next_entry_seq p" by (simp add: p1(1) drop_entries_def)
  ultimately have "ordered_entries (insert_entry (txid E tx) cand p1) = ordered_entries p1 @ [cand]"
    using cand(2,4) by (intro ordered_insert) (simp_all add: p1(1) map_of_drop)
  then have after: "valid_in_order E u (ordered_entries (insert_entry (txid E tx) cand p1)) \<longleftrightarrow>
      is_valid_for_view E tx (apply_entries E (ordered_entries p1) u)"
    using valid1 by (simp add: valid_in_order_append cand(1))
  show "valid_in_order E u (ordered_entries (insert_entry (txid E tx) cand p1))"
    if kept: "\<forall>op\<in>input_outpoint ` set (inputs tx). op_txid op \<notin> V"
  proof -
    have "entries (apply_entries E (ordered_entries p1) u) op = entries (build_validation_view E p u) op"
      if op: "op \<in> input_outpoint ` set (inputs tx)" for op
    proof -
      have free: "map_of (pool_spends p) op = None" using cand(5) op by (auto simp: conflicts_Inr_iff)
      have "claims_ok p" using ok by (simp add: pool_ok_def)
      then have "op \<notin> entry_outpoints e" if "map_of (pool_entries p) t = Some e" for t e
        using claims_okD [of p op t] that free by auto
      then have "\<forall>d\<in>set (ordered_entries p). \<not> txid E (entry_tx d) \<notin> V \<longrightarrow> untouched_by E op d"
        using closed_untouched [OF ok V] kept op by blast
      from apply_entries_filter [OF this, of u] show ?thesis
        by (simp add: p1(1) ordered_drop [OF ok] build_validation_view_def)
    qed
    then have "is_valid_for_view E tx (apply_entries E (ordered_entries p1) u) = is_valid_for_view E tx (build_validation_view E p u)"
      by (intro is_valid_for_view_cong) blast
    then show ?thesis using after cand(3) by simp
  qed
  show "\<not> valid_in_order E u (ordered_entries (insert_entry (txid E tx) cand p1))"
    if op: "op \<in> input_outpoint ` set (inputs tx)" "op_txid op \<in> V" "entries u op = None"
  proof -
    have "op_txid op \<noteq> txid E (entry_tx e)" if "e \<in> set (ordered_entries p1)" for e
      using ordered_entry [OF p1(2) that] op(2) by (auto simp: p1(1) map_of_drop split: if_splits)
    then have "entries (apply_entries E (ordered_entries p1) u) op = None"
      using apply_entries_missing [OF op(3)] by blast
    then have "\<not> is_valid_for_view E tx (apply_entries E (ordered_entries p1) u)"
      using op(1) by (auto simp: is_valid_for_view_def is_ok_iff validate_transaction_Inr_iff list_all_iff)
    then show ?thesis using after by simp
  qed
qed


text \<open>
  Parent eviction, on the smallest pool: with one slot, the spender of the only entry is
  admitted, its parent is evicted, and the pool is left with an entry whose input exists nowhere.
\<close>

theorem accept_tx_may_evict_parent:
  "accept_tx sample_env sample_parent sample_view (new_mempool sample_limits1) =
     (Inr \<lparr>accepted_txid = txid sample_env sample_parent, accepted_fee = 50, accepted_size = 60\<rparr>, sample_pool sample_parent 0) \<and>
   accept_tx sample_env sample_spender sample_view (sample_pool sample_parent 0) =
     (Inr \<lparr>accepted_txid = txid sample_env sample_spender, accepted_fee = 49, accepted_size = 60\<rparr>, sample_pool sample_spender 1) \<and>
   previous_output (inputs sample_spender ! 0) = txid sample_env sample_parent \<and>
   \<not> is_valid_for_view sample_env sample_spender (build_validation_view sample_env (new_mempool sample_limits1) sample_view)"
proof -
  have "build_validation_view sample_env (new_mempool sample_limits1) sample_view = sample_view"
    by (simp add: build_validation_view_def apply_entries_def ordered_entries_def new_mempool_def)
  moreover have "verify_scripts sample_env sample_spender sample_view =
      Inl (MempoolUtxo (MissingInput (1 # replicate 31 0) 0))"
    by (simp add: verify_scripts_def sample_spender_def sample_view_def utxo_get_def input_outpoint_def eval_simps)
  ultimately have "\<not> is_valid_for_view sample_env sample_spender (build_validation_view sample_env (new_mempool sample_limits1) sample_view)"
    by (simp add: is_valid_for_view_def)
  moreover have "previous_output (inputs sample_spender ! 0) = txid sample_env sample_parent"
    by (simp add: sample_txid) (simp add: sample_spender_def)
  ultimately show ?thesis using sample_accept_parent sample_accept_spender by blast
qed



text \<open>
  C13. Admission with room: as long as the sequence numbers have not wrapped, admitting a transaction to a
  pool that has room for it - the case in which nothing is evicted - keeps the pool valid in the order of
  admission, which is the order in which a view or a block is built from it.
\<close>

theorem accept_with_room_keeps_valid:
  assumes "pool_reach E lim p" "seqs_ok p" "valid_in_order E u (ordered_entries p)"
    and "\<not> would_exceed_limits (tx_serialized_size tx) p" and "accept_tx E tx u p = (Inr a, p')"
  shows "ordered_entries p' = ordered_entries p @ [the (map_of (pool_entries p') (txid E tx))] \<and>
    valid_in_order E u (ordered_entries p')"
proof -
  obtain p1 cand where a: "make_room_for cand p = (Inr (), p1)" "p' = insert_entry (txid E tx) cand p1"
    "entry_tx cand = tx" "entry_size cand = tx_serialized_size tx" "entry_seq cand = next_entry_seq p"
    "is_valid_for_view E tx (build_validation_view E p u)" "\<not> mempool_contains (txid E tx) p"
    by (rule accept_tx_Inr [OF assms(5)]) (simp add: that)
  have "p1 = p" using a(1,4) assms(4) by (simp add: make_room_for.simps)
  then have "pool_entries p' = pool_entries p @ [(txid E tx, cand)]"
    using a(2,7) by (simp add: insert_entry_def update_fresh mempool_contains_def)
  moreover from this have "ordered_entries p' = ordered_entries p @ [cand]"
    using assms(2) sort_key_last [of "map snd (pool_entries p)" entry_seq cand]
    by (simp add: ordered_entries_def seqs_ok_def a(5))
  ultimately show ?thesis
    using a assms(3) by (simp add: valid_in_order_append build_validation_view_def mempool_contains_def map_add_def)
qed

theorem accept_with_room_keeps_valid_witness:
  "valid_in_order sample_env sample_view (ordered_entries (sample_pool sample_parent 0))"
proof -
  have "seqs_ok (new_mempool sample_limits1)" "valid_in_order sample_env sample_view (ordered_entries (new_mempool sample_limits1))"
    "\<not> would_exceed_limits (tx_serialized_size sample_parent) (new_mempool sample_limits1)"
    by (simp_all add: seqs_ok_def ordered_entries_def would_exceed_limits_def new_mempool_def sample_sizes)
      (simp add: sample_limits1_def)
  from accept_with_room_keeps_valid [OF reach_new this sample_accept_parent] show ?thesis by blast
qed


section \<open>Following the chain\<close>

text \<open>
  C11. Confirmed blocks: \<open>remove_for_block\<close> removes exactly the entries the block confirms, those that spend
  an outpoint the block spends, and, transitively, those that spend an output of a transaction of the block or of
  a removed entry; it keeps every other entry as it was.  Children of confirmed transactions go too, though they
  stay valid (the witness is one): more than the conflicts and their descendants the code's comment names.
\<close>

theorem remove_for_block_exact:
  assumes "pool_reach E lim p"
  shows "map_of (pool_entries (remove_for_block E b p)) tid = (if doomed E b p tid then None else map_of (pool_entries p) tid)"
  using remove_for_block_ok(3) pool_reach_good [OF assms] by (simp add: good_pool_def)

theorem remove_for_block_exact_witness:
  "map_of (pool_entries (remove_for_block sample_env
      \<lparr>header = sample_header 1 [], transactions = [sample_parent]\<rparr> (sample_pool sample_spender 1))) (txid sample_env sample_spender) = None"
proof -
  let ?b = "\<lparr>header = sample_header 1 [], transactions = [sample_parent]\<rparr>" and ?p = "sample_pool sample_spender 1"
  have "map_of (pool_entries ?p) (txid sample_env sample_spender) = Some (sample_entry sample_spender 1)"
    by (simp add: sample_pool_def)
  moreover have "\<lparr>op_txid = txid sample_env sample_parent, op_index = 0\<rparr> \<in> entry_outpoints (sample_entry sample_spender 1)"
    by (simp add: sample_txid) (simp add: sample_entry_def sample_spender_def input_outpoint_def)
  ultimately have "doomed sample_env ?b ?p (txid sample_env sample_spender)"
    by (rule doomed.dependent) (simp add: doomed.confirmed)
  then show ?thesis using remove_for_block_exact [OF sample_pool_reach(2), of ?b] by simp
qed

text \<open>
  Room for \<open>n\<close> more transactions of \<open>k\<close> bytes together, without evicting and without a wrap of the sequence numbers.
\<close>

definition has_room :: "nat \<Rightarrow> nat \<Rightarrow> mempool \<Rightarrow> bool" where
  "has_room n k p \<longleftrightarrow>
     length (pool_entries p) + n \<le> max_tx_count (pool_limits p) \<and> total_bytes p + k \<le> max_bytes (pool_limits p) \<and>
     unat (next_entry_seq p) + n < 2 ^ 64 \<and> seqs_ok p"

definition tx_bytes :: "transaction list \<Rightarrow> nat" where
  "tx_bytes txs = sum_list (map tx_serialized_size txs)"

lemma accept_with_room:
  assumes good: "good_pool E lim p" and valid: "valid_in_order E u (ordered_entries p)"
    and room: "has_room (Suc n) (tx_serialized_size tx + k) p" and res: "accept_tx E tx u p = (r, p')"
  shows "valid_in_order E u (ordered_entries p') \<and>
    (case r of Inl _ \<Rightarrow> p' = p | Inr _ \<Rightarrow> has_room n k p' \<and> map_of (pool_entries p) \<subseteq>\<^sub>m map_of (pool_entries p'))"
  using res
proof (cases rule: accept_tx_cases)
  case (refused e)
  then show ?thesis using valid by simp
next
  case (room cand r1 p1)
  have fits: "\<not> would_exceed_limits (entry_size cand) p"
    using assms(3) by (simp add: has_room_def would_exceed_limits_def room(4))
  then have r1: "r1 = Inr ()" "p1 = p" using room(1) by (simp_all add: make_room_for.simps)
  then obtain a where a: "r = Inr a" "p' = insert_entry (txid E tx) cand p" using room(8) by auto
  have ok: "pool_ok E p" using good by (simp add: good_pool_def)
  have seqs: "seqs_ok p" "unat (next_entry_seq p) + Suc n < 2 ^ 64" using assms(3) by (simp_all add: has_room_def)
  have "valid_in_order E u (ordered_entries p')"
    using admitted_valid(2) [OF ok evict_none room(3,5,2,6,7) seqs(1) valid] a(2) by simp
  moreover have "has_room n k p'"
  proof -
    have succ: "unat (next_entry_seq p + 1) = Suc (unat (next_entry_seq p))" using seqs(2) by (simp add: unat_word_ariths)
    then have "seqs_ok p'"
      using seqs(1) room(5,6) by (auto simp: seqs_ok_def a(2) insert_entry_def update_fresh word_less_nat_alt intro: less_SucI)
    then show ?thesis
      using assms(3) succ room(4,6) by (simp add: has_room_def a(2) insert_entry_def update_fresh)
  qed
  moreover have "map_of (pool_entries p) \<subseteq>\<^sub>m map_of (pool_entries p')"
    using room(6) by (auto simp: a(2) insert_entry_def update_conv' map_le_def)
  ultimately show ?thesis by (simp add: a(1))
qed

lemma restore_pass_valid:
  "good_pool E lim p \<Longrightarrow> valid_in_order E u (ordered_entries p) \<Longrightarrow> has_room (length txs + n) (tx_bytes txs + k) p \<Longrightarrow>
     restore_pass E u txs p = (refused, p') \<Longrightarrow>
     good_pool E lim p' \<and> valid_in_order E u (ordered_entries p') \<and> has_room (length refused + n) (tx_bytes refused + k) p' \<and>
     map_of (pool_entries p) \<subseteq>\<^sub>m map_of (pool_entries p')"
proof (induction txs arbitrary: p refused p' n k)
  case (Cons tx txs)
  obtain r p1 where a: "accept_tx E tx u p = (r, p1)" by fastforce
  obtain left p2 where b: "restore_pass E u txs p1 = (left, p2)" by fastforce
  have "has_room (Suc (length txs + n)) (tx_serialized_size tx + (tx_bytes txs + k)) p"
    using Cons.prems(3) by (simp add: tx_bytes_def add.assoc)
  note one = accept_with_room [OF Cons.prems(1,2) this a]
  have good1: "good_pool E lim p1" using accept_tx_ok [OF _ _ a] Cons.prems(1) by (simp add: good_pool_def)
  show ?case
  proof (cases r)
    case (Inl e)
    then have p1: "p1 = p" and r: "refused = tx # left" "p' = p2" using one Cons.prems(4) a b by auto
    have "has_room (length txs + Suc n) (tx_bytes txs + (tx_serialized_size tx + k)) p1"
      using Cons.prems(3) by (simp add: p1 tx_bytes_def ac_simps)
    from Cons.IH [OF good1 _ this b] one show ?thesis by (simp add: r p1 tx_bytes_def ac_simps)
  next
    case (Inr x)
    then have r: "refused = left" "p' = p2" and room: "has_room (length txs + n) (tx_bytes txs + k) p1"
      and le: "map_of (pool_entries p) \<subseteq>\<^sub>m map_of (pool_entries p1)"
      using one Cons.prems(4) a b by auto
    from Cons.IH [OF good1 _ room b] one le show ?thesis by (auto simp: r intro: map_le_trans)
  qed
qed simp

lemma restore_candidates_valid:
  "good_pool E lim p \<Longrightarrow> valid_in_order E u (ordered_entries p) \<Longrightarrow> has_room (length txs) (tx_bytes txs) p \<Longrightarrow>
     valid_in_order E u (ordered_entries (restore_candidates E u txs p)) \<and>
     map_of (pool_entries p) \<subseteq>\<^sub>m map_of (pool_entries (restore_candidates E u txs p))"
proof (induction E u txs p rule: restore_candidates.induct)
  case (1 E u txs p)
  obtain left p1 where pass: "restore_pass E u txs p = (left, p1)" by fastforce
  note ok = restore_pass_valid [OF 1(2,3) _ pass, of 0 0]
  show ?case
  proof (cases "length left = length txs \<or> left = []")
    case True
    then show ?thesis using ok 1(4) pass by (auto simp: restore_candidates.simps [of E u txs p])
  next
    case False
    then have "restore_candidates E u txs p = restore_candidates E u left p1"
      using pass by (simp add: restore_candidates.simps [of E u txs p])
    then show ?thesis using 1(1) [OF pass [symmetric] False] ok 1(4) by (auto intro: map_le_trans)
  qed
qed

lemma restore_nothing [simp]: "restore_candidates E u [] p = p"
  by (simp add: restore_candidates.simps)

lemma has_room_shrinks:
  assumes "pool_ok E p" "pool_ok E p'" "shrinks p p'" "has_room n k p"
  shows "has_room n k p'"
proof -
  have "set (pool_entries p') \<subseteq> set (pool_entries p)"
  proof
    fix x assume "x \<in> set (pool_entries p')"
    then have "map_of (pool_entries p') (fst x) = Some (snd x)" using assms(2) by (simp add: pool_ok_def)
    then have "map_of (pool_entries p) (fst x) = Some (snd x)"
      using assms(3) by (auto simp: shrinks_def map_le_def dom_def)
    then show "x \<in> set (pool_entries p)" using map_of_SomeD by fastforce
  qed
  then have "seqs_ok p'" using assms(3,4) by (auto simp: shrinks_def has_room_def intro: seqs_subset)
  then show ?thesis using assms(3,4) by (simp add: shrinks_def has_room_def)
qed

text \<open>What the pool does when blocks are connected and the transactions of others are to be restored.\<close>

definition fits_restored :: "block list \<Rightarrow> mempool \<Rightarrow> bool" where
  "fits_restored dis p \<longleftrightarrow> restorable dis = [] \<or> has_room (length (restorable dis)) (tx_bytes (restorable dis)) p"

lemma restored_valid:
  assumes good: "good_pool E lim p" "good_pool E lim p2" "shrinks p p2"
    and valid: "valid_in_order E u (ordered_entries p2)" and fits: "fits_restored dis p"
  shows "valid_in_order E u (ordered_entries (restore_candidates E u (restorable dis) p2)) \<and>
    map_of (pool_entries p2) \<subseteq>\<^sub>m map_of (pool_entries (restore_candidates E u (restorable dis) p2))"
proof (cases "restorable dis = []")
  case True
  then show ?thesis using valid by simp
next
  case False
  then have "has_room (length (restorable dis)) (tx_bytes (restorable dis)) p2"
    using fits good has_room_shrinks [of E p p2] by (simp add: fits_restored_def good_pool_def)
  then show ?thesis using restore_candidates_valid [OF good(2) valid] by blast
qed

lemma remove_blocks_shrinks: "good_pool E lim p \<Longrightarrow> shrinks p (foldl (\<lambda>p b. remove_for_block E b p) p bs)"
proof (induction bs arbitrary: p)
  case (Cons b bs)
  have "shrinks p (remove_for_block E b p)" using remove_for_block_ok(2) Cons.prems by (simp add: good_pool_def)
  then show ?case using Cons.IH [OF good_remove_for_block [OF Cons.prems]] shrinks_trans by simp
qed simp

lemma synchronize_valid:
  assumes good: "good_pool E lim p" and fits: "fits_restored dis p"
  shows "\<exists>p'. synchronize_to_chain E u con dis p = Some p' \<and> good_pool E lim p' \<and> valid_in_order E u (ordered_entries p')"
proof -
  let ?p1 = "foldl (\<lambda>p b. remove_for_block E b p) p con"
  have good1: "good_pool E lim ?p1" using good_remove_blocks [OF good] .
  obtain p2 where p2: "revalidate_pool E u ?p1 = Some p2" "good_pool E lim p2" "shrinks ?p1 p2" "valid_in_order E u (ordered_entries p2)"
    using good_revalidate [OF good1] by blast
  have "shrinks p p2" using remove_blocks_shrinks [OF good] p2(3) by (rule shrinks_trans)
  from restored_valid [OF good p2(2) this p2(4) fits] show ?thesis
    using p2 good_restore by (simp add: synchronize_to_chain_def)
qed

text \<open>
  C12. Synchronisation ends: \<open>revalidate_pool\<close> always ends - every id it finds invalid is an entry, so every
  turn removes one - and leaves entries that, applied in the order of admission to the active chain's
  outputs, are valid each on what its predecessors leave.  \<open>synchronize_to_chain\<close> always ends too, and its pool is
  valid in this sense when nothing is to be restored from disconnected blocks, or when the pool has
  room for all that is, so that nothing has to be evicted for it (see C14 for what eviction can do).
\<close>

theorem synchronize_to_chain_ends:
  assumes "pool_reach E lim p"
  shows "(\<exists>p'. revalidate_pool E u p = Some p' \<and> valid_in_order E u (ordered_entries p') \<and>
        map_of (pool_entries p') \<subseteq>\<^sub>m map_of (pool_entries p)) \<and>
    (\<exists>p'. synchronize_to_chain E u con dis p = Some p' \<and> (fits_restored dis p \<longrightarrow> valid_in_order E u (ordered_entries p')))"
proof -
  note good = pool_reach_good [OF assms]
  obtain p1 where p1: "revalidate_pool E u p = Some p1" "valid_in_order E u (ordered_entries p1)" "shrinks p p1"
    using good_revalidate [OF good] by blast
  then show ?thesis
    using good_synchronize [OF good, of u con dis] synchronize_valid [OF good, of dis u con] by (auto simp: shrinks_def)
qed

text \<open>A pool whose only entry a block had confirmed is restored when that block is disconnected.\<close>

definition sample_limits2 :: mempool_limits where
  "sample_limits2 = \<lparr>max_tx_count = 10, max_bytes = 1000\<rparr>"

definition sample_disconnected :: block where
  "sample_disconnected = \<lparr>header = sample_header 1 [], transactions = [coinbase_tx 1 50, sample_parent]\<rparr>"

theorem synchronize_to_chain_ends_witness:
  "restorable [sample_disconnected] = [sample_parent] \<and>
   (\<exists>p'. synchronize_to_chain sample_env sample_view [] [sample_disconnected] (new_mempool sample_limits2) = Some p' \<and>
      valid_in_order sample_env sample_view (ordered_entries p'))"
proof -
  have r: "restorable [sample_disconnected] = [sample_parent]"
    by (simp add: restorable_def sample_disconnected_def sample_not_coinbase)
  then have "fits_restored [sample_disconnected] (new_mempool sample_limits2)"
    by (simp add: fits_restored_def has_room_def tx_bytes_def sample_sizes seqs_ok_def new_mempool_def)
      (simp add: sample_limits2_def)
  then show ?thesis
    using synchronize_to_chain_ends [OF reach_new, of sample_env sample_view sample_limits2 "[]" "[sample_disconnected]"] r by blast
qed

end
