(* ===== verification/Wallet.thy ===== *)
theory Wallet
  imports Chain Script Sighash
begin

text \<open>
  The crate \<open>bitrst-wallet\<close>: keys (\<open>key.rs\<close>), addresses (\<open>address.rs\<close>), signing (\<open>sign.rs\<close>) and the tracking of
  spendable outputs over chain events (\<open>wallet.rs\<close>).  Secret keys are opaque values of the
  curve library; what \<open>PrivateKey::generate\<close> draws is an argument of its caller.
\<close>

section \<open>Keys, addresses and signing\<close>

datatype wallet_error =
    InvalidPrivateKey
  | WalletInputIndexOutOfRange
  | WalletSighash sighash_error
  | MissingActiveBlock u32

definition private_key_from_bytes :: "env \<Rightarrow> bytes \<Rightarrow> wallet_error + bytes" where
  "private_key_from_bytes E bs = ok_or InvalidPrivateKey (secret_key_from_slice E bs)"

definition public_key :: "env \<Rightarrow> bytes \<Rightarrow> bytes" where
  "public_key E key = public_key_serialize E (public_key_from_secret E key)"

definition key_pubkey_hash :: "env \<Rightarrow> bytes \<Rightarrow> bytes" where
  "key_pubkey_hash E key = hash160 E (public_key E key)"

datatype network = Mainnet | Testnet

definition p2pkh_version :: "network \<Rightarrow> u8" where
  "p2pkh_version n = (case n of Mainnet \<Rightarrow> 0x00 | Testnet \<Rightarrow> 0x6f)"

record address =
  address_network :: network
  address_pubkey_hash :: bytes
  encoded :: string

definition address_p2pkh :: "env \<Rightarrow> bytes \<Rightarrow> network \<Rightarrow> address" where
  "address_p2pkh E pkh n =
     \<lparr>address_network = n, address_pubkey_hash = pkh, encoded = encode_check E (p2pkh_version n) pkh\<rparr>"

definition sign_p2pkh_input ::
  "env \<Rightarrow> transaction \<Rightarrow> nat \<Rightarrow> bytes list \<Rightarrow> bytes \<Rightarrow> wallet_error + transaction" where
  "sign_p2pkh_input E tx input_index prev_script_pubkeys key =
     (if input_index \<ge> length (inputs tx) then Inl WalletInputIndexOutOfRange
      else
        and_then (map_err WalletSighash (sighash_all E tx input_index prev_script_pubkeys)) (\<lambda>sighash.
          let signature = sign_der_with_hashtype E key sighash (ucast SIGHASH_ALL)
          in Inr (tx\<lparr>inputs := (inputs tx)[input_index :=
                       (inputs tx ! input_index)\<lparr>script_sig := p2pkh_script_sig signature (public_key E key)\<rparr>]\<rparr>)))"

section \<open>Tracked outputs\<close>

record wallet_utxo =
  wu_outpoint :: out_point
  wu_value :: u64
  wu_script_pubkey :: bytes

record wallet_block_undo =
  undo_created :: "out_point list"
  undo_removed :: "wallet_utxo list"

text \<open>\<open>utxos\<close> is an association list because the balance iterates over it.\<close>

record wallet =
  watched :: "bytes set"
  wallet_utxos :: "(out_point \<times> wallet_utxo) list"
  block_undo :: "hash32 \<rightharpoonup> wallet_block_undo"

definition new_wallet :: wallet where
  "new_wallet = \<lparr>watched = {}, wallet_utxos = [], block_undo = Map.empty\<rparr>"

definition watch_address :: "address \<Rightarrow> wallet \<Rightarrow> wallet" where
  "watch_address a w = w\<lparr>watched := insert (address_pubkey_hash a) (watched w)\<rparr>"

definition p2pkh_pubkey_hash :: "bytes \<Rightarrow> bytes option" where
  "p2pkh_pubkey_hash script =
     (if length script \<noteq> 25 \<or> script ! 0 \<noteq> 0x76 \<or> script ! 1 \<noteq> 0xa9 \<or> script ! 2 \<noteq> 20 \<or>
         script ! 23 \<noteq> 0x88 \<or> script ! 24 \<noteq> 0xac
      then None else Some (take 20 (drop 3 script)))"

text \<open>The loops over the inputs, the outputs and the transactions of a connected block.\<close>

type_synonym tracked = "(out_point \<times> wallet_utxo) list"

fun take_inputs :: "tx_input list \<Rightarrow> tracked \<Rightarrow> wallet_block_undo \<Rightarrow> tracked \<times> wallet_block_undo" where
  "take_inputs [] us undo = (us, undo)"
| "take_inputs (input # ins) us undo =
     (case map_of us (input_outpoint input) of
        None \<Rightarrow> take_inputs ins us undo
      | Some u \<Rightarrow> take_inputs ins (AList.delete (input_outpoint input) us)
                     (undo\<lparr>undo_removed := undo_removed undo @ [u]\<rparr>))"

fun credit_outputs ::
  "bytes set \<Rightarrow> hash32 \<Rightarrow> nat \<Rightarrow> tx_output list \<Rightarrow> tracked \<Rightarrow> wallet_block_undo \<Rightarrow> tracked \<times> wallet_block_undo" where
  "credit_outputs W tid index [] us undo = (us, undo)"
| "credit_outputs W tid index (out # outs) us undo =
     (case p2pkh_pubkey_hash (script_pubkey out) of
        None \<Rightarrow> credit_outputs W tid (index + 1) outs us undo
      | Some pkh \<Rightarrow>
          if pkh \<in> W then
            let op = \<lparr>op_txid = tid, op_index = of_nat index\<rparr>
            in credit_outputs W tid (index + 1) outs
                 (AList.update op \<lparr>wu_outpoint = op, wu_value = out_value out, wu_script_pubkey = script_pubkey out\<rparr> us)
                 (undo\<lparr>undo_created := undo_created undo @ [op]\<rparr>)
          else credit_outputs W tid (index + 1) outs us undo)"

fun track_txs ::
  "env \<Rightarrow> bytes set \<Rightarrow> transaction list \<Rightarrow> tracked \<Rightarrow> wallet_block_undo \<Rightarrow> tracked \<times> wallet_block_undo" where
  "track_txs E W [] us undo = (us, undo)"
| "track_txs E W (tx # txs) us undo =
     (case take_inputs (inputs tx) us undo of
        (us1, undo1) \<Rightarrow>
          (case credit_outputs W (txid E tx) 0 (outputs tx) us1 undo1 of
             (us2, undo2) \<Rightarrow> track_txs E W txs us2 undo2))"

definition connect_to_wallet :: "env \<Rightarrow> block \<Rightarrow> wallet \<Rightarrow> wallet" where
  "connect_to_wallet E b w =
     (case track_txs E (watched w) (transactions b) (wallet_utxos w) \<lparr>undo_created = [], undo_removed = []\<rparr> of
        (us, undo) \<Rightarrow> w\<lparr>wallet_utxos := us, block_undo := (block_undo w)(hash_block E b \<mapsto> undo)\<rparr>)"

definition disconnect_from_wallet :: "hash32 \<Rightarrow> wallet \<Rightarrow> wallet" where
  "disconnect_from_wallet h w =
     (case block_undo w h of
        None \<Rightarrow> w
      | Some undo \<Rightarrow>
          let us1 = foldl (\<lambda>us op. AList.delete op us) (wallet_utxos w) (undo_created undo);
              us2 = foldl (\<lambda>us u. AList.update (wu_outpoint u) u us) us1 (undo_removed undo)
          in w\<lparr>wallet_utxos := us2, block_undo := (block_undo w)(h := None)\<rparr>)"

fun apply_events :: "env \<Rightarrow> chain_event list \<Rightarrow> chain \<Rightarrow> wallet \<Rightarrow> (wallet_error + unit) \<times> wallet" where
  "apply_events E [] c w = (Inr (), w)"
| "apply_events E (ev # evs) c w =
     (case ev of
        BlockConnected h _ _ \<Rightarrow>
          (case active_block_at c h of
             None \<Rightarrow> (Inl (MissingActiveBlock h), w)
           | Some b \<Rightarrow> apply_events E evs c (connect_to_wallet E b w))
      | BlockDisconnected _ h \<Rightarrow> apply_events E evs c (disconnect_from_wallet h w)
      | _ \<Rightarrow> apply_events E evs c w)"

definition balance :: "wallet \<Rightarrow> u64" where
  "balance w = sum_list (map (\<lambda>x. wu_value (snd x)) (wallet_utxos w))"

end
