(* ===== verification/WalletTheorems.thy ===== *)
theory WalletTheorems
  imports Wallet ChainTheorems
begin

text \<open>
  The wallet against the chain: what it tracks are the watched outputs of the unspent set; what undoing
  a block restores, and what it does not; and a signed input is accepted by the interpreter.
\<close>

section \<open>The watched part of an unspent set\<close>

definition watches :: "bytes set \<Rightarrow> bytes \<Rightarrow> bool" where
  "watches W script \<longleftrightarrow> (\<exists>pkh\<in>W. p2pkh_pubkey_hash script = Some pkh)"

definition tracked_output :: "out_point \<Rightarrow> utxo_entry \<Rightarrow> wallet_utxo" where
  "tracked_output op e = \<lparr>wu_outpoint = op, wu_value = entry_value e, wu_script_pubkey = entry_script e\<rparr>"

definition wallet_view :: "bytes set \<Rightarrow> utxo_set \<Rightarrow> out_point \<rightharpoonup> wallet_utxo" where
  "wallet_view W u op =
     (case entries u op of None \<Rightarrow> None | Some e \<Rightarrow> if watches W (entry_script e) then Some (tracked_output op e) else None)"

definition follows :: "bytes set \<Rightarrow> tracked \<Rightarrow> utxo_set \<Rightarrow> bool" where
  "follows W us u \<longleftrightarrow> distinct (map fst us) \<and> map_of us = wallet_view W u"

lemma follows_empty: "follows W [] new_utxo"
  by (simp add: follows_def wallet_view_def new_utxo_def fun_eq_iff)

lemma take_inputs_spec:
  "take_inputs ins us undo = (us', undo') \<Longrightarrow>
     map_of us' = map_of us |` (- input_outpoint ` set ins) \<and> (distinct (map fst us) \<longrightarrow> distinct (map fst us'))"
proof (induction ins us undo rule: take_inputs.induct)
  case (2 i ins us undo)
  show ?case
  proof (cases "map_of us (input_outpoint i)")
    case None
    then show ?thesis using 2(1) [OF None] 2(3) by (auto simp: restrict_map_def fun_eq_iff)
  next
    case (Some w)
    then show ?thesis using 2(2) [OF Some] 2(3)
      by (auto simp: restrict_map_def fun_eq_iff delete_conv' distinct_delete)
  qed
qed (simp add: restrict_map_def)

lemma of_nat_u32_inj: "m < 2 ^ 32 \<Longrightarrow> n < 2 ^ 32 \<Longrightarrow> (of_nat m :: u32) = of_nat n \<longleftrightarrow> m = n"
  by (simp add: word_unat_eq_iff unat_of_nat)

definition output_entry :: "tx_output \<Rightarrow> utxo_entry" where
  "output_entry out = \<lparr>entry_value = out_value out, entry_script = script_pubkey out\<rparr>"

text \<open>Crediting outputs whose outpoints are unspent nowhere, or unspent with the very same value and script.\<close>

lemma credit_outputs_follows:
  assumes "follows W us u"
    and "\<forall>i<length outs. \<forall>e. entries u \<lparr>op_txid = tid, op_index = of_nat (k + i)\<rparr> = Some e \<longrightarrow> e = output_entry (outs ! i)"
    and "k + length outs \<le> 2 ^ 32" and "credit_outputs W tid k outs us undo = (us', undo')"
  shows "follows W us' (fst (insert_outputs tid k outs u crt))"
  using assms
proof (induction outs arbitrary: k us undo u crt)
  case (Cons out outs)
  let ?op = "\<lparr>op_txid = tid, op_index = of_nat k\<rparr>"
  let ?u = "u\<lparr>entries := (entries u)(?op \<mapsto> \<lparr>entry_value = out_value out, entry_script = script_pubkey out\<rparr>)\<rparr>"
  let ?w = "\<lparr>wu_outpoint = ?op, wu_value = out_value out, wu_script_pubkey = script_pubkey out\<rparr>"
  have same: "entries u ?op = Some e \<Longrightarrow> e = output_entry out" for e using Cons.prems(2) [rule_format, of 0 e] by simp
  have fresh: "\<forall>i<length outs. \<forall>e. entries ?u \<lparr>op_txid = tid, op_index = of_nat (k + 1 + i)\<rparr> = Some e \<longrightarrow> e = output_entry (outs ! i)"
  proof (intro allI impI)
    fix i e assume i: "i < length outs" and e: "entries ?u \<lparr>op_txid = tid, op_index = of_nat (k + 1 + i)\<rparr> = Some e"
    have "(of_nat (k + 1 + i) :: u32) \<noteq> of_nat k"
      using i Cons.prems(3) of_nat_u32_inj [of "k + 1 + i" k] by simp
    then have "entries u \<lparr>op_txid = tid, op_index = of_nat (k + Suc i)\<rparr> = Some e" using e by (simp add: add.left_commute)
    then show "e = output_entry (outs ! i)"
      using Cons.prems(2) [rule_format, of "Suc i" e] i by simp
  qed
  show ?case
  proof (cases "watches W (script_pubkey out)")
    case True
    then obtain pkh where pkh: "p2pkh_pubkey_hash (script_pubkey out) = Some pkh" "pkh \<in> W" by (auto simp: watches_def)
    have "follows W (AList.update ?op ?w us) ?u"
      using Cons.prems(1) True
      by (auto simp: follows_def distinct_update update_conv' wallet_view_def tracked_output_def fun_eq_iff)
    from Cons.IH [OF this fresh] show ?thesis using Cons.prems(3,4) pkh by (simp add: Let_def)
  next
    case False
    have "wallet_view W ?u op = wallet_view W u op" for op
      using False same by (cases "entries u ?op") (auto simp: wallet_view_def output_entry_def)
    then have "follows W us ?u" using Cons.prems(1) by (simp add: follows_def fun_eq_iff)
    moreover have "credit_outputs W tid (k + 1) outs us undo = (us', undo')"
      using Cons.prems(4) False by (auto simp: watches_def split: option.splits)
    ultimately show ?thesis using Cons.IH [OF _ fresh] Cons.prems(3) by simp
  qed
qed simp

section \<open>Where the entries come from\<close>

text \<open>
  Every entry is an output of one of the given transactions, under its identifier and index.  No two of the
  transactions share an identifier, and the null index of a coinbase input is not one of an output.
\<close>

definition entries_from :: "env \<Rightarrow> transaction set \<Rightarrow> utxo_set \<Rightarrow> bool" where
  "entries_from E T u \<longleftrightarrow>
     (\<forall>op e. entries u op = Some e \<longrightarrow>
        (\<exists>tx\<in>T. \<exists>i<length (outputs tx). op = \<lparr>op_txid = txid E tx, op_index = of_nat i\<rparr> \<and> e = output_entry (outputs tx ! i)))"

definition identified :: "env \<Rightarrow> transaction set \<Rightarrow> bool" where
  "identified E T \<longleftrightarrow> inj_on (txid E) T \<and> (\<forall>tx\<in>T. length (outputs tx) < 2 ^ 32 - 1)"

lemma insert_outputs_from:
  "entries (fst (insert_outputs tid k outs u crt)) op = Some e \<Longrightarrow>
     entries u op = Some e \<or> (\<exists>i<length outs. op = \<lparr>op_txid = tid, op_index = of_nat (k + i)\<rparr> \<and> e = output_entry (outs ! i))"
proof (induction outs arbitrary: k u crt)
  case (Cons out outs)
  let ?op = "\<lparr>op_txid = tid, op_index = of_nat k\<rparr>"
  let ?u = "u\<lparr>entries := (entries u)(?op \<mapsto> \<lparr>entry_value = out_value out, entry_script = script_pubkey out\<rparr>)\<rparr>"
  have "entries ?u op = Some e \<or> (\<exists>i<length outs. op = \<lparr>op_txid = tid, op_index = of_nat (k + 1 + i)\<rparr> \<and> e = output_entry (outs ! i))"
    using Cons.IH [of "k + 1" ?u] Cons.prems by simp
  then consider "op = ?op" "e = output_entry out" | "entries u op = Some e"
    | i where "i < length outs" "op = \<lparr>op_txid = tid, op_index = of_nat (k + Suc i)\<rparr>" "e = output_entry (outs ! i)"
    by (auto simp: output_entry_def add.left_commute split: if_splits)
  then show ?case
  proof cases
    case 1
    then show ?thesis by (intro disjI2 exI [of _ 0]) simp
  next
    case 3
    then show ?thesis by (intro disjI2 exI [of _ "Suc i"]) simp
  qed simp
qed simp

lemma apply_transaction_from:
  assumes "entries_from E T u" "tx \<in> T"
  shows "entries_from E T (fst (apply_transaction E u tx))"
proof -
  obtain u1 r where u1: "(if is_coinbase tx then (u, []) else remove_inputs (inputs tx) u []) = (u1, r)" by fastforce
  have sub: "entries u1 op = Some e \<Longrightarrow> entries u op = Some e" for op e
    using u1 remove_inputs_spec [of "inputs tx" u "[]"] by (auto simp: restrict_map_def split: if_splits)
  have "\<exists>tx\<in>T. \<exists>i<length (outputs tx). op = \<lparr>op_txid = txid E tx, op_index = of_nat i\<rparr> \<and> e = output_entry (outputs tx ! i)"
    if "entries (fst (insert_outputs (txid E tx) 0 (outputs tx) u1 [])) op = Some e" for op e
    using insert_outputs_from [OF that] sub [of op e] assms by (auto simp: entries_from_def)
  then show ?thesis using u1 by (auto simp: entries_from_def apply_transaction_def split: prod.splits)
qed

lemma from_new: "entries_from E T new_utxo"
  by (simp add: entries_from_def new_utxo_def)

section \<open>A connected block\<close>

lemma track_tx_follows:
  assumes f: "follows W us u" and from_T: "entries_from E T u" and T: "identified E T" "tx \<in> T"
    and a: "take_inputs (inputs tx) us undo = (us1, undo1)"
    and b: "credit_outputs W (txid E tx) 0 (outputs tx) us1 undo1 = (us2, undo2)"
  shows "follows W us2 (fst (apply_transaction E u tx))"
proof -
  have bound: "tx' \<in> T \<Longrightarrow> length (outputs tx') < 2 ^ 32 - 1" for tx' using T(1) unfolding identified_def by blast
  obtain u1 r where u1: "(if is_coinbase tx then (u, []) else remove_inputs (inputs tx) u []) = (u1, r)" by fastforce
  have null: "entries u op = None" if "op_index op = - 1" for op
  proof (cases "entries u op")
    case (Some e)
    then obtain tx' i where i: "tx' \<in> T" "i < length (outputs tx')" "op_index op = of_nat i"
      using from_T unfolding entries_from_def by fastforce
    then have "i < 2 ^ 32 - 1" using bound [OF i(1)] by simp
    moreover from this have "unat (of_nat i :: u32) = i" by (simp add: unat_of_nat)
    moreover have "(of_nat i :: u32) = - 1" using i(3) that by simp
    moreover have "unat (- 1 :: u32) = 2 ^ 32 - 1" by (simp add: unsigned_minus_1_eq_mask mask_eq_exp_minus_1)
    ultimately show ?thesis by simp
  qed simp
  have e1: "entries u1 = entries u |` (- input_outpoint ` set (inputs tx))"
  proof (cases "is_coinbase tx")
    case True
    then obtain inp where "inputs tx = [inp]" "prev_index inp = - 1"
      by (cases "inputs tx") (auto simp: is_coinbase_def)
    then have "entries u op = None" if "op \<in> input_outpoint ` set (inputs tx)" for op
      using that null [of op] by (auto simp: input_outpoint_def)
    then show ?thesis using u1 True by (auto simp: restrict_map_def fun_eq_iff)
  next
    case False
    then show ?thesis using remove_inputs_spec [of "inputs tx" u "[]"] u1 by auto
  qed
  have "follows W us1 u1"
    using take_inputs_spec [OF a] f e1 by (auto simp: follows_def wallet_view_def restrict_map_def fun_eq_iff)
  moreover have "\<forall>i<length (outputs tx). \<forall>e. entries u1 \<lparr>op_txid = txid E tx, op_index = of_nat (0 + i)\<rparr> = Some e \<longrightarrow>
      e = output_entry (outputs tx ! i)"
  proof (intro allI impI)
    fix i e assume i: "i < length (outputs tx)"
      and e: "entries u1 \<lparr>op_txid = txid E tx, op_index = of_nat (0 + i)\<rparr> = Some e"
    then have "entries u \<lparr>op_txid = txid E tx, op_index = of_nat i\<rparr> = Some e"
      by (auto simp: e1 restrict_map_def split: if_splits)
    then obtain tx' j where j: "tx' \<in> T" "j < length (outputs tx')" "txid E tx' = txid E tx" "(of_nat i :: u32) = of_nat j"
        "e = output_entry (outputs tx' ! j)"
      using from_T unfolding entries_from_def by force
    have "tx' = tx" using T j(1,3) by (auto simp: identified_def inj_on_def)
    moreover have "i = j" using i j(2,4) bound [OF T(2)] bound [OF j(1)] of_nat_u32_inj [of i j] by simp
    ultimately show "e = output_entry (outputs tx ! i)" using j(5) by simp
  qed
  moreover obtain u2 c where u2: "insert_outputs (txid E tx) 0 (outputs tx) u1 [] = (u2, c)" by fastforce
  ultimately have "follows W us2 u2"
    using credit_outputs_follows [OF _ _ _ b, of u1 "[]"] bound [OF T(2)] by simp
  then show ?thesis using u1 u2 by (simp add: apply_transaction_def)
qed

lemma track_txs_follows:
  "follows W us u \<Longrightarrow> entries_from E T u \<Longrightarrow> identified E T \<Longrightarrow> set txs \<subseteq> T \<Longrightarrow> track_txs E W txs us undo = (us', undo') \<Longrightarrow>
     follows W us' (fst (apply_txs E txs u)) \<and> entries_from E T (fst (apply_txs E txs u))"
proof (induction txs arbitrary: us u undo)
  case (Cons tx txs)
  obtain us1 undo1 where a: "take_inputs (inputs tx) us undo = (us1, undo1)" by fastforce
  obtain us2 undo2 where b: "credit_outputs W (txid E tx) 0 (outputs tx) us1 undo1 = (us2, undo2)" by fastforce
  have "follows W us2 (fst (apply_transaction E u tx))"
    using track_tx_follows [OF Cons.prems(1,2,3) _ a b] Cons.prems(4) by simp
  moreover have "entries_from E T (fst (apply_transaction E u tx))" using apply_transaction_from Cons.prems(2,4) by simp
  ultimately show ?case using Cons.IH [of us2 "fst (apply_transaction E u tx)" undo2] Cons.prems(3-5) a b
    by (auto split: prod.splits)
qed simp

lemma connect_to_wallet_follows:
  assumes "follows (watched w) (wallet_utxos w) u" "entries_from E T u" "identified E T" "set (transactions b) \<subseteq> T"
  shows "follows (watched (connect_to_wallet E b w)) (wallet_utxos (connect_to_wallet E b w))
           (fst (apply_block_transactions E b u)) \<and> entries_from E T (fst (apply_block_transactions E b u)) \<and>
    watched (connect_to_wallet E b w) = watched w"
  using track_txs_follows [OF assms] by (auto simp: connect_to_wallet_def apply_block_transactions_def split: prod.split)

lemma follows_balance:
  assumes "follows W us u"
  shows "sum_list (map (\<lambda>x. wu_value (snd x)) us) = (\<Sum>op\<in>dom (wallet_view W u). entry_value (the (entries u op)))"
proof -
  have d: "distinct (map fst us)" and m: "map_of us = wallet_view W u" using assms by (simp_all add: follows_def)
  have "sum_list (map (\<lambda>x. wu_value (snd x)) us) = (\<Sum>x\<in>set us. wu_value (snd x))"
    using d by (intro sum_list_distinct_conv_sum_set) (simp add: distinct_map)
  also have "\<dots> = (\<Sum>op\<in>fst ` set us. entry_value (the (entries u op)))"
  proof (rule sum.reindex_cong [symmetric])
    show "inj_on fst (set us)" using d by (simp add: distinct_map)
    fix x assume "x \<in> set us"
    then have "map_of us (fst x) = Some (snd x)" using d by simp
    then have "snd x = tracked_output (fst x) (the (entries u (fst x)))"
      unfolding m by (auto simp: wallet_view_def split: option.splits if_splits)
    then show "entry_value (the (entries u (fst x))) = wu_value (snd x)" by (simp add: tracked_output_def)
  qed simp
  also have "fst ` set us = dom (wallet_view W u)" using m dom_map_of_conv_image_fst [of us] by simp
  finally show ?thesis .
qed

section \<open>A chain from its genesis\<close>

definition connect_events :: "env \<Rightarrow> chain \<Rightarrow> nat list \<Rightarrow> chain_event list" where
  "connect_events E c ks =
     map (\<lambda>k. BlockConnected (of_nat k) (hash_block E (blocks c ! k)) (length (transactions (blocks c ! k)))) ks"

lemma apply_connect_events:
  "\<forall>k\<in>set ks. k < length (blocks c) \<Longrightarrow> length (blocks c) \<le> 2 ^ 32 \<Longrightarrow>
     apply_events E (connect_events E c ks) c w = (Inr (), foldl (\<lambda>w b. connect_to_wallet E b w) w (map ((!) (blocks c)) ks))"
proof (induction ks arbitrary: w)
  case (Cons k ks)
  have "k < 2 ^ 32" using Cons.prems by auto
  then have "active_block_at c (of_nat k) = Some (blocks c ! k)"
    using Cons.prems by (simp add: active_block_at_def unat_of_nat)
  then show ?case using Cons.IH [of "connect_to_wallet E (blocks c ! k) w"] Cons.prems
    by (simp add: connect_events_def)
qed (simp add: connect_events_def)

lemma connect_all_follows:
  "follows (watched w) (wallet_utxos w) u \<Longrightarrow> entries_from E T u \<Longrightarrow> identified E T \<Longrightarrow>
     (\<forall>b\<in>set bs. set (transactions b) \<subseteq> T) \<Longrightarrow>
     follows (watched w) (wallet_utxos (foldl (\<lambda>w b. connect_to_wallet E b w) w bs)) (replay E u bs)"
proof (induction bs arbitrary: w u)
  case (Cons b bs)
  have c: "follows (watched (connect_to_wallet E b w)) (wallet_utxos (connect_to_wallet E b w))
      (fst (apply_block_transactions E b u))" "entries_from E T (fst (apply_block_transactions E b u))"
      "watched (connect_to_wallet E b w) = watched w"
    using connect_to_wallet_follows [OF Cons.prems(1-3), of b] Cons.prems(4) by auto
  show ?case using Cons.IH [OF c(1,2) Cons.prems(3)] Cons.prems(4) c(3) by simp
qed simp

definition active_txs :: "chain \<Rightarrow> transaction set" where
  "active_txs c = (\<Union>b\<in>set (blocks c). set (transactions b))"

lemma wallet_view_within: "within u v \<Longrightarrow> wallet_view W u \<subseteq>\<^sub>m wallet_view W v"
  by (auto simp: map_le_def wallet_view_def within_entry domIff split: option.splits)

text \<open>
  C28. The wallet and the chain: a new wallet that is given the connect events of all active blocks of a
  reachable chain, no two different transactions of which share an identifier, tracks exactly the outputs the
  replay of these blocks leaves unspent that pay a watched key hash by a standard script, with their values and
  scripts, and its balance is their sum (modulo \<open>2 ^ 64\<close>).  All such outputs of the chain's unspent set are
  among them, and they are all there is unless some branch of the index overwrites an unspent output.
\<close>

theorem wallet_tracks_chain:
  assumes "chain_reach E gb c" and "inj_on (txid E) (active_txs c)" and "length (blocks c) \<le> 2 ^ 32"
  shows "\<exists>w. apply_events E (connect_events E c [0..<length (blocks c)]) c (new_wallet\<lparr>watched := W\<rparr>) = (Inr (), w) \<and>
    map_of (wallet_utxos w) = wallet_view W (replay E new_utxo (blocks c)) \<and>
    balance w = (\<Sum>op\<in>dom (wallet_view W (replay E new_utxo (blocks c))).
                   entry_value (the (entries (replay E new_utxo (blocks c)) op))) \<and>
    wallet_view W (utxo c) \<subseteq>\<^sub>m map_of (wallet_utxos w) \<and>
    (index_fresh E (hash_block E gb) (known c) \<longrightarrow> map_of (wallet_utxos w) = wallet_view W (utxo c))"
proof -
  let ?u = "replay E new_utxo (blocks c)"
  let ?w = "foldl (\<lambda>w b. connect_to_wallet E b w) (new_wallet\<lparr>watched := W\<rparr>) (blocks c)"
  have run: "apply_events E (connect_events E c [0..<length (blocks c)]) c (new_wallet\<lparr>watched := W\<rparr>) = (Inr (), ?w)"
    using apply_connect_events [of "[0..<length (blocks c)]" c E "new_wallet\<lparr>watched := W\<rparr>"] assms(3) by (simp add: map_nth)
  have "identified E (active_txs c)"
    using assms(2) reached_outputs [OF assms(1)] by (auto simp: identified_def active_txs_def)
  then have f: "follows W (wallet_utxos ?w) ?u"
    using connect_all_follows [of "new_wallet\<lparr>watched := W\<rparr>" new_utxo E "active_txs c" "blocks c"] from_new
    by (auto simp: new_wallet_def follows_empty active_txs_def)
  have "wallet_view W (utxo c) \<subseteq>\<^sub>m wallet_view W ?u"
    using reached_contained [OF assms(1)] wallet_view_within by (simp add: ledger_state_def)
  moreover have "utxo c = ?u" if "index_fresh E (hash_block E gb) (known c)"
    using reached_replayed [OF assms(1) that] by (simp add: ledger_state_def)
  ultimately show ?thesis using run f follows_balance [OF f] by (auto simp: follows_def balance_def)
qed

section \<open>A disconnected block\<close>

definition keyed :: "tracked \<Rightarrow> bool" where
  "keyed us \<longleftrightarrow> (\<forall>op x. map_of us op = Some x \<longrightarrow> wu_outpoint x = op)"

text \<open>What the undo data recorded so far say about the outputs tracked before the block.\<close>

definition undo_ok :: "tracked \<Rightarrow> tracked \<Rightarrow> wallet_block_undo \<Rightarrow> bool" where
  "undo_ok us0 us undo \<longleftrightarrow>
     keyed us \<and>
     (\<forall>op. op \<notin> set (undo_created undo) \<longrightarrow>
        map_of us op = (if op \<in> wu_outpoint ` set (undo_removed undo) then None else map_of us0 op)) \<and>
     (\<forall>x\<in>set (undo_removed undo). wu_outpoint x \<notin> set (undo_created undo) \<longrightarrow> map_of us0 (wu_outpoint x) = Some x)"

lemma take_inputs_undo:
  "undo_ok us0 us undo \<Longrightarrow> take_inputs ins us undo = (us', undo') \<Longrightarrow> undo_ok us0 us' undo'"
proof (induction ins us undo rule: take_inputs.induct)
  case (2 i ins us undo)
  show ?case
  proof (cases "map_of us (input_outpoint i)")
    case None
    then show ?thesis using 2(1) [OF None] 2(3,4) by simp
  next
    case (Some x)
    have key: "wu_outpoint x = input_outpoint i" using 2(3) Some by (auto simp: undo_ok_def keyed_def)
    have old: "map_of us0 (input_outpoint i) = Some x" if "input_outpoint i \<notin> set (undo_created undo)"
      using 2(3) Some that by (auto simp: undo_ok_def split: if_splits)
    have "undo_ok us0 (AList.delete (input_outpoint i) us) (undo\<lparr>undo_removed := undo_removed undo @ [x]\<rparr>)"
      using 2(3) key old by (auto simp: undo_ok_def keyed_def delete_conv')
    from 2(2) [OF Some this] show ?thesis using 2(4) Some by simp
  qed
qed simp

lemma credit_outputs_undo:
  "undo_ok us0 us undo \<Longrightarrow> credit_outputs W tid k outs us undo = (us', undo') \<Longrightarrow> undo_ok us0 us' undo'"
proof (induction outs arbitrary: k us undo)
  case (Cons out outs)
  let ?op = "\<lparr>op_txid = tid, op_index = of_nat k\<rparr>"
  let ?x = "\<lparr>wu_outpoint = ?op, wu_value = out_value out, wu_script_pubkey = script_pubkey out\<rparr>"
  show ?case
  proof (cases "watches W (script_pubkey out)")
    case True
    have "undo_ok us0 (AList.update ?op ?x us) (undo\<lparr>undo_created := undo_created undo @ [?op]\<rparr>)"
      using Cons.prems(1) by (auto simp: undo_ok_def keyed_def update_conv')
    from Cons.IH [OF this] show ?thesis using Cons.prems(2) True by (auto simp: watches_def Let_def)
  next
    case False
    then have "credit_outputs W tid (k + 1) outs us undo = (us', undo')"
      using Cons.prems(2) by (auto simp: watches_def split: option.splits)
    then show ?thesis using Cons.IH [OF Cons.prems(1)] by blast
  qed
qed simp

lemma track_txs_undo:
  "undo_ok us0 us undo \<Longrightarrow> track_txs E W txs us undo = (us', undo') \<Longrightarrow> undo_ok us0 us' undo'"
proof (induction txs arbitrary: us undo)
  case (Cons tx txs)
  obtain us1 undo1 where a: "take_inputs (inputs tx) us undo = (us1, undo1)" by fastforce
  obtain us2 undo2 where b: "credit_outputs W (txid E tx) 0 (outputs tx) us1 undo1 = (us2, undo2)" by fastforce
  have "undo_ok us0 us2 undo2"
    using credit_outputs_undo [OF take_inputs_undo [OF Cons.prems(1) a] b] .
  from Cons.IH [OF this] show ?case using Cons.prems(2) a b by simp
qed simp

lemma map_of_delete_all: "map_of (foldl (\<lambda>us op. AList.delete op us) us ops) = map_of us |` (- set ops)"
  by (induction ops arbitrary: us) (auto simp: restrict_map_def fun_eq_iff delete_conv')

lemma map_of_update_all:
  "\<forall>x\<in>set xs. m0 (wu_outpoint x) = Some x \<Longrightarrow>
     map_of (foldl (\<lambda>us u. AList.update (wu_outpoint u) u us) us xs) op =
       (if op \<in> wu_outpoint ` set xs then m0 op else map_of us op)"
  by (induction xs arbitrary: us) (auto simp: update_conv')

text \<open>
  Undo of a block: when the block creates no watched output that is already tracked, and spends no
  watched output it creates itself, the disconnect event takes the wallet back to
  exactly the outputs it tracked before the block, and forgets the undo data.
\<close>

theorem wallet_disconnect_restores:
  assumes "keyed (wallet_utxos w)" and "block_undo (connect_to_wallet E b w) (hash_block E b) = Some undo"
    and "set (undo_created undo) \<inter> dom (map_of (wallet_utxos w)) = {}"
    and "set (undo_created undo) \<inter> wu_outpoint ` set (undo_removed undo) = {}"
  shows "\<exists>w'. apply_events E [BlockDisconnected h (hash_block E b)] c (connect_to_wallet E b w) = (Inr (), w') \<and>
    map_of (wallet_utxos w') = map_of (wallet_utxos w) \<and> watched w' = watched w \<and>
    block_undo w' = (block_undo w)(hash_block E b := None)"
proof -
  let ?none = "\<lparr>undo_created = [], undo_removed = []\<rparr>"
  obtain us where t: "track_txs E (watched w) (transactions b) (wallet_utxos w) ?none = (us, undo)"
    and w1: "connect_to_wallet E b w = w\<lparr>wallet_utxos := us, block_undo := (block_undo w)(hash_block E b \<mapsto> undo)\<rparr>"
    using assms(2) by (auto simp: connect_to_wallet_def split: prod.splits)
  have "undo_ok (wallet_utxos w) (wallet_utxos w) ?none" using assms(1) by (simp add: undo_ok_def)
  from track_txs_undo [OF this t] have ok: "undo_ok (wallet_utxos w) us undo" .
  have all: "\<forall>x\<in>set (undo_removed undo). map_of (wallet_utxos w) (wu_outpoint x) = Some x"
    using ok assms(4) by (auto simp: undo_ok_def)
  let ?us1 = "foldl (\<lambda>us op. AList.delete op us) us (undo_created undo)"
  have "map_of (foldl (\<lambda>us u. AList.update (wu_outpoint u) u us) ?us1 (undo_removed undo)) op = map_of (wallet_utxos w) op" for op
    unfolding map_of_update_all [OF all] map_of_delete_all
  proof -
    have "map_of (wallet_utxos w) op = None" if "op \<in> set (undo_created undo)"
      using assms(3) that by (cases "map_of (wallet_utxos w) op") (auto simp del: map_of_eq_Some_iff)
    then show "(if op \<in> wu_outpoint ` set (undo_removed undo) then map_of (wallet_utxos w) op
        else (map_of us |` (- set (undo_created undo))) op) = map_of (wallet_utxos w) op"
      using ok by (auto simp: undo_ok_def restrict_map_def)
  qed
  then show ?thesis by (simp add: disconnect_from_wallet_def w1 Let_def fun_eq_iff)
qed

definition sample_funding :: transaction where
  "sample_funding = \<lparr>tx_version = 1,
     inputs = [\<lparr>previous_output = replicate 32 7, prev_index = 0, script_sig = [], sequence_no = 0\<rparr>],
     outputs = [\<lparr>out_value = 50, script_pubkey = p2pkh_script_pubkey (replicate 20 1)\<rparr>], lock_time = 0\<rparr>"

definition sample_spending :: transaction where
  "sample_spending = \<lparr>tx_version = 2,
     inputs = [\<lparr>previous_output = 1 # replicate 31 0, prev_index = 0, script_sig = [], sequence_no = 0\<rparr>],
     outputs = [\<lparr>out_value = 40, script_pubkey = [0x51]\<rparr>], lock_time = 0\<rparr>"

definition sample_wallet :: wallet where
  "sample_wallet = new_wallet\<lparr>watched := {replicate 20 1}\<rparr>"

definition sample_block_of :: "transaction list \<Rightarrow> block" where
  "sample_block_of txs = \<lparr>header = sample_header 1 [], transactions = txs\<rparr>"

lemma sample_funding_txid: "txid sample_env sample_funding = 1 # replicate 31 0"
proof -
  have "length (serialize_tx sample_funding) = 85 \<and> hd (serialize_tx sample_funding) = 1"
    by (simp add: serialize_tx_def sample_funding_def serialize_input_def serialize_output_def p2pkh_script_pubkey_def
        u32_to_le_bytes_def u64_to_le_bytes_def write_compact_size_def eval_simps)
  then show ?thesis by (simp add: txid_def sha256d_def sample_env_def toy_env_def)
qed

lemma sample_script: "p2pkh_pubkey_hash (p2pkh_script_pubkey (replicate 20 1)) = Some (replicate 20 1)"
  by (simp add: p2pkh_pubkey_hash_def p2pkh_script_pubkey_def OP_DUP_def OP_HASH160_def OP_EQUALVERIFY_def OP_CHECKSIG_def
      eval_simps)

definition sample_tracked :: wallet_utxo where
  "sample_tracked = \<lparr>wu_outpoint = \<lparr>op_txid = 1 # replicate 31 0, op_index = 0\<rparr>, wu_value = 50,
     wu_script_pubkey = p2pkh_script_pubkey (replicate 20 1)\<rparr>"

text \<open>A chain whose genesis block pays 50 to a watched key hash.\<close>

definition paying_tx :: transaction where
  "paying_tx = \<lparr>tx_version = 1,
     inputs = [\<lparr>previous_output = replicate 32 0, prev_index = - 1, script_sig = [], sequence_no = - 1\<rparr>],
     outputs = [\<lparr>out_value = 50, script_pubkey = p2pkh_script_pubkey (replicate 20 1)\<rparr>], lock_time = 0\<rparr>"

definition paying_genesis :: block where
  "paying_genesis = \<lparr>header = (sample_header 1 (replicate 32 0))\<lparr>hdr_merkle_root := txid sample_env paying_tx\<rparr>,
     transactions = [paying_tx]\<rparr>"

lemma paying_txid: "txid sample_env paying_tx = 1 # replicate 31 0"
proof -
  have "length (serialize_tx paying_tx) = 85 \<and> hd (serialize_tx paying_tx) = 1"
    by (simp add: serialize_tx_def paying_tx_def serialize_input_def serialize_output_def p2pkh_script_pubkey_def
        u32_to_le_bytes_def u64_to_le_bytes_def write_compact_size_def eval_simps)
  then show ?thesis by (simp add: txid_def sha256d_def sample_env_def toy_env_def)
qed

lemma paying_coinbase: "is_coinbase paying_tx"
  by (simp add: is_coinbase_def paying_tx_def)

lemma paying_hash: "hash_block sample_env paying_genesis = sample_hash 1"
proof -
  have "length (serialize_header (header paying_genesis)) = 80 \<and> serialize_header (header paying_genesis) ! 68 = 1"
    using serialize_header_time [of "header paying_genesis"] by (simp add: paying_genesis_def sample_header_def paying_txid)
  then show ?thesis by (simp add: hash_block_def hash_header_def sha256d_def sample_env_def toy_env_def sample_hash_def)
qed

lemma paying_genesis_chain: "\<exists>c. genesis_chain sample_env paying_genesis 10 default_journal default_dj = Inr c"
proof -
  obtain w where w: "block_work 0x1f010000 = Inr w" using sample_work by blast
  obtain u undo where ap: "apply_block_transactions sample_env paying_genesis new_utxo = (u, undo)" by fastforce
  have limits: "validate_block_limits paying_genesis = Inr ()"
    by (simp add: paying_genesis_def validate_block_limits_def tx_scripts_within_limit_def block_serialized_size_def
        tx_serialized_size_def paying_tx_def compact_size_encoded_len_def limit_defs p2pkh_script_pubkey_def)
  have txs: "validate_block_transactions_for_utxo sample_env paying_genesis new_utxo = Inr ()"
    by (simp add: validate_block_transactions_iff spends_def tx_accepted_def paying_coinbase validate_transaction_Inr_iff
        paying_genesis_def) (simp add: paying_tx_def outputs_value_def)
  have root: "header_merkle_root_matches sample_env paying_genesis"
    by (simp add: header_merkle_root_matches_iff paying_genesis_def merkle_root_def MAX_TRANSACTIONS_PER_BLOCK_def
        merkle_levels.simps)
  have head: "validate_block_header_for_parent sample_env [] [] 10 paying_genesis None None 0 = Inr ()"
    using root paying_hash paying_coinbase
    by (simp add: validate_block_header_for_parent_def sample_target sample_meets expected_bits_def Let_def ok_or_def
        paying_genesis_def sample_header_def)
  show ?thesis
    using w ap limits txs head
    by (simp add: genesis_chain_def Let_def validate_block_for_parent_def put_store_Inr paying_genesis_def sample_header_def)
qed

lemma paying_replay:
  "wallet_view {replicate 20 1} (replay sample_env new_utxo [paying_genesis]) = [wu_outpoint sample_tracked \<mapsto> sample_tracked]"
  "entry_value (the (entries (replay sample_env new_utxo [paying_genesis]) (wu_outpoint sample_tracked))) = 50"
proof -
  have "replay sample_env new_utxo [paying_genesis] =
      \<lparr>entries = [\<lparr>op_txid = 1 # replicate 31 0, op_index = 0\<rparr> \<mapsto> \<lparr>entry_value = 50, entry_script = p2pkh_script_pubkey (replicate 20 1)\<rparr>]\<rparr>"
    using paying_coinbase paying_txid
    by (simp add: paying_genesis_def apply_block_transactions_def apply_transaction_def new_utxo_def split: prod.split)
      (simp add: paying_tx_def)
  note u = this
  show "wallet_view {replicate 20 1} (replay sample_env new_utxo [paying_genesis]) = [wu_outpoint sample_tracked \<mapsto> sample_tracked]"
    unfolding u by (simp add: wallet_view_def watches_def sample_script sample_tracked_def tracked_output_def fun_eq_iff)
  show "entry_value (the (entries (replay sample_env new_utxo [paying_genesis]) (wu_outpoint sample_tracked))) = 50"
    unfolding u by (simp add: sample_tracked_def)
qed

theorem wallet_tracks_chain_witness:
  "\<exists>c w. genesis_chain sample_env paying_genesis 10 default_journal default_dj = Inr c \<and>
     apply_events sample_env (connect_events sample_env c [0]) c (new_wallet\<lparr>watched := {replicate 20 1}\<rparr>) = (Inr (), w) \<and>
     map_of (wallet_utxos w) = [wu_outpoint sample_tracked \<mapsto> sample_tracked] \<and> balance w = 50"
proof -
  obtain c where gen: "genesis_chain sample_env paying_genesis 10 default_journal default_dj = Inr c"
    using paying_genesis_chain by blast
  have b: "blocks c = [paying_genesis]" by (rule genesis_chain_result [OF gen]) simp
  have t: "inj_on (txid sample_env) (active_txs c)" by (simp add: b active_txs_def paying_genesis_def)
  have upt: "[0..<length (blocks c)] = [0]" by (simp add: b)
  show ?thesis
    using wallet_tracks_chain [OF reach_genesis [OF gen] t, of "{replicate 20 1}", unfolded upt] gen
    unfolding b paying_replay(1) by (auto simp: paying_replay(2) simp del: replay_simps)
qed

lemma sample_credit:
  "credit_outputs {replicate 20 1} (txid sample_env sample_funding) 0 (outputs sample_funding) [] \<lparr>undo_created = [], undo_removed = []\<rparr> =
     ([(wu_outpoint sample_tracked, sample_tracked)], \<lparr>undo_created = [wu_outpoint sample_tracked], undo_removed = []\<rparr>)"
  unfolding sample_funding_txid by (simp add: sample_funding_def sample_script sample_tracked_def Let_def)

lemma sample_take:
  "take_inputs (inputs sample_funding) [] undo = ([], undo)"
  "take_inputs (inputs sample_spending) [(wu_outpoint sample_tracked, sample_tracked)] undo =
     ([], undo\<lparr>undo_removed := undo_removed undo @ [sample_tracked]\<rparr>)"
  by (simp_all add: sample_funding_def sample_spending_def sample_tracked_def input_outpoint_def)

lemma sample_connect_funding:
  "connect_to_wallet sample_env (sample_block_of [sample_funding]) sample_wallet =
     sample_wallet\<lparr>wallet_utxos := [(wu_outpoint sample_tracked, sample_tracked)],
       block_undo := [hash_block sample_env (sample_block_of [sample_funding]) \<mapsto>
         \<lparr>undo_created = [wu_outpoint sample_tracked], undo_removed = []\<rparr>]\<rparr>"
  by (simp add: connect_to_wallet_def sample_wallet_def new_wallet_def)
    (simp add: sample_block_of_def sample_take sample_credit)

theorem wallet_disconnect_restores_witness:
  "\<forall>c. \<exists>w'. apply_events sample_env [BlockDisconnected 1 (hash_block sample_env (sample_block_of [sample_funding]))] c
      (connect_to_wallet sample_env (sample_block_of [sample_funding]) sample_wallet) = (Inr (), w') \<and>
    map_of (wallet_utxos w') = Map.empty" (is "\<forall>c. ?restored c")
proof (rule allI)
  fix c
  have empty: "wallet_utxos sample_wallet = []" by (simp add: sample_wallet_def new_wallet_def)
  let ?undo = "\<lparr>undo_created = [wu_outpoint sample_tracked], undo_removed = []\<rparr>"
  have "keyed (wallet_utxos sample_wallet)" by (simp add: empty keyed_def)
  moreover have "block_undo (connect_to_wallet sample_env (sample_block_of [sample_funding]) sample_wallet)
      (hash_block sample_env (sample_block_of [sample_funding])) = Some ?undo"
    by (simp add: sample_connect_funding)
  ultimately show "?restored c"
    using wallet_disconnect_restores [of sample_wallet sample_env "sample_block_of [sample_funding]" ?undo 1 c] empty by auto
qed

text \<open>
  A phantom output (a flaw): the undo data of a whole block are undone as one step - first every created
  output is dropped, then every removed one is put back - so an output the block both creates and
  spends comes back.  A wallet with nothing, after the block and its disconnection, has a balance of 50.
\<close>

theorem wallet_disconnect_phantom:
  "let b = sample_block_of [sample_funding, sample_spending]; w1 = connect_to_wallet sample_env b sample_wallet
   in balance sample_wallet = 0 \<and> balance w1 = 0 \<and>
      (\<exists>w2. apply_events sample_env [BlockDisconnected 1 (hash_block sample_env b)] c w1 = (Inr (), w2) \<and> balance w2 = 50)"
proof -
  let ?b = "sample_block_of [sample_funding, sample_spending]"
  let ?undo = "\<lparr>undo_created = [wu_outpoint sample_tracked], undo_removed = [sample_tracked]\<rparr>"
  have pay: "credit_outputs W tid 0 (outputs sample_spending) us undo = (us, undo)" for W tid us undo
    by (simp add: sample_spending_def p2pkh_pubkey_hash_def)
  have empty: "wallet_utxos sample_wallet = []" "watched sample_wallet = {replicate 20 1}"
    by (simp_all add: sample_wallet_def new_wallet_def)
  have "transactions ?b = [sample_funding, sample_spending]" by (simp add: sample_block_of_def)
  then have w1: "connect_to_wallet sample_env ?b sample_wallet =
      sample_wallet\<lparr>wallet_utxos := [], block_undo := (block_undo sample_wallet)(hash_block sample_env ?b \<mapsto> ?undo)\<rparr>"
    by (simp add: connect_to_wallet_def empty sample_take sample_credit pay)
  then have "balance (disconnect_from_wallet (hash_block sample_env ?b) (connect_to_wallet sample_env ?b sample_wallet)) = 50"
    by (simp add: disconnect_from_wallet_def balance_def) (simp add: sample_tracked_def)
  then show ?thesis by (simp add: Let_def w1 balance_def empty)
qed

section \<open>Signing\<close>

lemma sighash_preimage_script_sig:
  "k < length (inputs tx) \<Longrightarrow>
     sighash_preimage (tx\<lparr>inputs := (inputs tx)[k := (inputs tx ! k)\<lparr>script_sig := sg\<rparr>]\<rparr>) j ps = sighash_preimage tx j ps"
proof -
  assume k: "k < length (inputs tx)"
  let ?ins = "(inputs tx)[k := (inputs tx ! k)\<lparr>script_sig := sg\<rparr>]"
  have "map (sighash_input j ps) (enumerate 0 ?ins) = map (sighash_input j ps) (enumerate 0 (inputs tx))"
    using k by (intro nth_equalityI) (auto simp: nth_enumerate_eq sighash_input_def nth_list_update)
  then show ?thesis by (simp add: sighash_preimage_def)
qed

text \<open>
  C29. Signing: for a key the curve library accepts, signing an input that spends a standard output of that
  key succeeds, changes nothing but that input's unlocking script, and the interpreter accepts the
  signed input against the output's script and the signature hash of the signed transaction.
\<close>

theorem signed_input_unlocks:
  assumes "hash_ok E" "ecdsa_ok E" "private_key_from_bytes E s = Inr key"
    and "k < length (inputs tx)" "length prevs = length (inputs tx)"
    and "prevs ! k = p2pkh_script_pubkey (key_pubkey_hash E key)"
  shows "\<exists>sg h. sign_p2pkh_input E tx k prevs key = Inr (tx\<lparr>inputs := (inputs tx)[k := (inputs tx ! k)\<lparr>script_sig := sg\<rparr>]\<rparr>) \<and>
     sighash_all E (tx\<lparr>inputs := (inputs tx)[k := (inputs tx ! k)\<lparr>script_sig := sg\<rparr>]\<rparr>) k prevs = Inr h \<and>
     verify_script E sg (prevs ! k) h = Inr ()"
proof -
  have sk: "secret_key_from_slice E s = Some key" using assms(3) by (simp add: private_key_from_bytes_def)
  let ?h = "sha256d E (sighash_preimage tx k prevs)"
  let ?sig = "sign_der_with_hashtype E key ?h (ucast SIGHASH_ALL)"
  let ?sg = "p2pkh_script_sig ?sig (public_key E key)"
  have sign: "sign_p2pkh_input E tx k prevs key = Inr (tx\<lparr>inputs := (inputs tx)[k := (inputs tx ! k)\<lparr>script_sig := ?sg\<rparr>]\<rparr>)"
    using assms(4,5) by (simp add: sign_p2pkh_input_def sighash_all_def Let_def)
  have hash: "sighash_all E (tx\<lparr>inputs := (inputs tx)[k := (inputs tx ! k)\<lparr>script_sig := ?sg\<rparr>]\<rparr>) k prevs = Inr ?h"
    using assms(4,5) by (simp add: sighash_all_def sighash_preimage_script_sig)
  have "length ?sig < 2 ^ 32" using length_signature(2) [OF assms(2) sk, of ?h "ucast SIGHASH_ALL"] by simp
  moreover have "length (public_key E key) < 2 ^ 32"
    using assms(2) sk by (auto simp: public_key_def ecdsa_ok_def Let_def)
  moreover have "length (key_pubkey_hash E key) = 20" using length_hash160 [OF assms(1)] by (simp add: key_pubkey_hash_def)
  moreover have "verify_der_signature E ?sig (public_key E key) ?h = Inr ()"
    unfolding public_key_def by (rule verify_der_signature_sign [OF assms(2) sk])
  ultimately have "verify_script E ?sg (prevs ! k) ?h = Inr ()"
    unfolding assms(6) using verify_p2pkh_outcome [of "key_pubkey_hash E key" ?sig "public_key E key" E ?h]
    by (simp add: key_pubkey_hash_def)
  then show ?thesis using sign hash by blast
qed

theorem signed_input_unlocks_witness:
  "\<exists>tx' h. sign_p2pkh_input toy_env sample_spending 0 [p2pkh_script_pubkey (key_pubkey_hash toy_env (replicate 33 1))]
       (replicate 33 1) = Inr tx' \<and>
     verify_script toy_env (script_sig (inputs tx' ! 0)) (p2pkh_script_pubkey (key_pubkey_hash toy_env (replicate 33 1))) h = Inr ()"
proof -
  have "private_key_from_bytes toy_env (replicate 33 1) = Inr (replicate 33 1)"
    by (simp add: private_key_from_bytes_def toy_env_def)
  from signed_input_unlocks [OF toy_hash_ok toy_ecdsa_ok this, of 0 sample_spending
      "[p2pkh_script_pubkey (key_pubkey_hash toy_env (replicate 33 1))]"]
  show ?thesis by (auto simp: sample_spending_def)
qed

end
