(* ===== verification/Miner.thy ===== *)
theory Miner
  imports Block Pow
begin

text \<open>
  The crate \<open>bitrst-miner\<close> (\<open>pow.rs\<close>): the search for a nonce.  The header is changed in place, so every
  outcome comes with the header it leaves.
\<close>

definition MAX_NONCE_ATTEMPTS :: nat where
  "MAX_NONCE_ATTEMPTS = 10000000"

datatype mine_error = AttemptsExceeded

text \<open>The loop \<open>for _ in 0..MAX_NONCE_ATTEMPTS\<close>.\<close>

fun mine_loop :: "env \<Rightarrow> pow_target \<Rightarrow> nat \<Rightarrow> block_header \<Rightarrow> (mine_error + hash32) \<times> block_header" where
  "mine_loop E tgt 0 hdr = (Inl AttemptsExceeded, hdr)"
| "mine_loop E tgt (Suc n) hdr =
     (let h = hash_header E hdr in
      if meets tgt h then (Inr h, hdr)
      else mine_loop E tgt n (hdr\<lparr>nonce := nonce hdr + 1\<rparr>))"

definition mine :: "env \<Rightarrow> block_header \<Rightarrow> pow_target \<Rightarrow> (mine_error + hash32) \<times> block_header" where
  "mine E hdr tgt = mine_loop E tgt MAX_NONCE_ATTEMPTS hdr"

definition mine_with_header_bits :: "env \<Rightarrow> block_header \<Rightarrow> (mine_error + hash32 option) \<times> block_header" where
  "mine_with_header_bits E hdr =
     (case from_bits (bits hdr) of
        None \<Rightarrow> (Inr None, hdr)
      | Some tgt \<Rightarrow>
          (case mine E hdr tgt of
             (Inl e, hdr') \<Rightarrow> (Inl e, hdr')
           | (Inr h, hdr') \<Rightarrow> (Inr (Some h), hdr')))"

section \<open>What the search finds\<close>

definition header_at :: "block_header \<Rightarrow> nat \<Rightarrow> block_header" where
  "header_at hdr k = hdr\<lparr>nonce := nonce hdr + of_nat k\<rparr>"

definition solves :: "env \<Rightarrow> pow_target \<Rightarrow> block_header \<Rightarrow> nat \<Rightarrow> bool" where
  "solves E tgt hdr k \<longleftrightarrow> meets tgt (hash_header E (header_at hdr k))"

lemma header_at_Suc: "header_at (hdr\<lparr>nonce := nonce hdr + 1\<rparr>) k = header_at hdr (Suc k)"
  by (simp add: header_at_def add.commute add.left_commute)

lemma header_at_0 [simp]: "header_at hdr 0 = hdr"
  by (simp add: header_at_def)

lemma mine_loop_found:
  "k < n \<Longrightarrow> solves E tgt hdr k \<Longrightarrow> (\<forall>j<k. \<not> solves E tgt hdr j) \<Longrightarrow>
     mine_loop E tgt n hdr = (Inr (hash_header E (header_at hdr k)), header_at hdr k)"
proof (induction E tgt n hdr arbitrary: k rule: mine_loop.induct)
  case (2 E tgt n hdr)
  show ?case
  proof (cases k)
    case 0
    then show ?thesis using 2(3) by (simp add: solves_def Let_def)
  next
    case (Suc j)
    let ?next = "hdr\<lparr>nonce := nonce hdr + 1\<rparr>"
    have no: "\<not> meets tgt (hash_header E hdr)" using 2(4) [rule_format, of 0] Suc by (simp add: solves_def)
    have "solves E tgt ?next j" "\<forall>i<j. \<not> solves E tgt ?next i"
      using 2(3,4) Suc unfolding solves_def header_at_Suc by auto
    then show ?thesis using 2(1) [OF refl no, of j] 2(2) Suc no by (simp add: Let_def header_at_Suc)
  qed
qed simp

lemma mine_loop_exhausted:
  "\<forall>j<n. \<not> solves E tgt hdr j \<Longrightarrow> mine_loop E tgt n hdr = (Inl AttemptsExceeded, header_at hdr n)"
proof (induction E tgt n hdr rule: mine_loop.induct)
  case (2 E tgt n hdr)
  have no: "\<not> meets tgt (hash_header E hdr)" using 2(2) [rule_format, of 0] by (simp add: solves_def)
  have "\<forall>j<n. \<not> solves E tgt (hdr\<lparr>nonce := nonce hdr + 1\<rparr>) j" using 2(2) unfolding solves_def header_at_Suc by auto
  then show ?case using 2(1) [OF refl no] no by (simp add: Let_def header_at_Suc)
qed simp

text \<open>
  Mining: with bits that encode no target the header is left alone; otherwise the search returns the first
  of the ten million nonces from the header's own, counted modulo \<open>2 ^ 32\<close>, whose hash meets the target,
  with that hash and with the header that has it, and only if there is none it fails.
\<close>

theorem mine_finds_first_nonce:
  "mine_with_header_bits E hdr =
     (case from_bits (bits hdr) of
        None \<Rightarrow> (Inr None, hdr)
      | Some tgt \<Rightarrow>
          if \<exists>k<10000000. solves E tgt hdr k
          then let k = (LEAST k. solves E tgt hdr k) in (Inr (Some (hash_header E (header_at hdr k))), header_at hdr k)
          else (Inl AttemptsExceeded, header_at hdr 10000000))"
proof (cases "from_bits (bits hdr)")
  case (Some tgt)
  show ?thesis
  proof (cases "\<exists>k<10000000. solves E tgt hdr k")
    case True
    let ?k = "LEAST k. solves E tgt hdr k"
    have "solves E tgt hdr ?k" "?k < 10000000" "\<forall>j<?k. \<not> solves E tgt hdr j"
      using True by (auto intro: LeastI dest: not_less_Least intro: order.strict_trans1 [OF Least_le])
    then have "mine E hdr tgt = (Inr (hash_header E (header_at hdr ?k)), header_at hdr ?k)"
      unfolding mine_def MAX_NONCE_ATTEMPTS_def by (intro mine_loop_found)
    then show ?thesis using True Some by (simp add: mine_with_header_bits_def Let_def)
  next
    case False
    then have "mine E hdr tgt = (Inl AttemptsExceeded, header_at hdr 10000000)"
      unfolding mine_def MAX_NONCE_ATTEMPTS_def by (intro mine_loop_exhausted) auto
    then show ?thesis using False Some by (auto simp: mine_with_header_bits_def)
  qed
qed (simp add: mine_with_header_bits_def)

end
