(* ===== verification/Framing.thy ===== *)
theory Framing
  imports Codec
begin

text \<open>
  \<open>envelope.rs\<close> and \<open>framing.rs\<close> of \<open>crates/bitrst-net/src\<close>: the 24-byte message header and the readers and
  writers of whole messages.  A socket is the list of what its reads will return: data, in chunks of any
  size, or an error; an empty read, or the end of the list, is the end of the stream.  A write that
  fails may already have sent part of its bytes: \<open>os n = Some k\<close> says that the \<open>n\<close>-th operation on the
  socket fails after \<open>k\<close> bytes.
\<close>

section \<open>Envelope\<close>

definition printable :: "u8 \<Rightarrow> bool" where
  "printable b \<longleftrightarrow> 0x20 \<le> b \<and> b \<le> 0x7e"

definition command_from_header_bytes :: "bytes \<Rightarrow> net_error + bytes" where
  "command_from_header_bytes bs =
     (let end_pos = length (takeWhile (\<lambda>b. b \<noteq> 0) bs);
          command_bytes = take end_pos bs
      in if command_bytes = [] then Inl InvalidCommand
         else if \<not> list_all printable command_bytes then Inl InvalidCommand
         else if list_ex (\<lambda>b. b \<noteq> 0) (drop end_pos bs) then Inl InvalidCommand
         else if \<not> utf8_valid command_bytes then Inl InvalidCommand
         else Inr command_bytes)"

definition command_encode :: "bytes \<Rightarrow> net_error + bytes" where
  "command_encode name =
     (if name = [] \<or> length name > COMMAND_LENGTH then Inl InvalidCommand
      else if \<not> list_all printable name then Inl InvalidCommand
      else Inr (copy_at 0 name (replicate COMMAND_LENGTH 0)))"

record message_header =
  hdr_magic :: bytes
  hdr_command :: bytes
  payload_len :: u32
  hdr_checksum :: bytes

definition checksum :: "env \<Rightarrow> bytes \<Rightarrow> bytes" where
  "checksum E pl = take 4 (sha256d E pl)"

definition decode_message_header :: "bytes \<Rightarrow> bytes \<Rightarrow> nat \<Rightarrow> net_error + message_header" where
  "decode_message_header bs expected_magic max_payload =
     (let mg = take 4 bs in
      if mg \<noteq> expected_magic then Inl InvalidMagic
      else
        and_then (command_from_header_bytes (take 12 (drop 4 bs))) (\<lambda>cmd.
          let len = u32_from_le_bytes (take 4 (drop 16 bs)) in
          if unat len > max_payload then Inl (PayloadTooLarge len max_payload)
          else Inr \<lparr>hdr_magic = mg, hdr_command = cmd, payload_len = len, hdr_checksum = take 4 (drop 20 bs)\<rparr>))"

definition encode_message_header :: "env \<Rightarrow> bytes \<Rightarrow> bytes \<Rightarrow> bytes \<Rightarrow> nat \<Rightarrow> net_error + bytes" where
  "encode_message_header E cmd pl mg max_payload =
     (if length pl > max_payload then Inl (PayloadTooLarge (of_nat (length pl)) max_payload)
      else
        and_then (command_encode cmd) (\<lambda>command_bytes.
          Inr (copy_at 20 (checksum E pl)
              (copy_at 16 (u32_to_le_bytes (of_nat (length pl)))
              (copy_at 4 command_bytes
              (copy_at 0 mg (replicate MESSAGE_HEADER_SIZE 0)))))))"

definition verify_checksum :: "env \<Rightarrow> message_header \<Rightarrow> bytes \<Rightarrow> net_error + unit" where
  "verify_checksum E h pl =
     (if checksum E pl \<noteq> hdr_checksum h then Inl (ChecksumMismatch (hdr_command h)) else Inr ())"

section \<open>Readers\<close>

datatype io_event = Data bytes | ReadError

text \<open>The loop \<open>while self.buffer.len() < n\<close> of \<open>FramedReader::read_message\<close>.\<close>

fun fill :: "nat \<Rightarrow> bytes \<Rightarrow> io_event list \<Rightarrow> (net_error + unit) \<times> bytes \<times> io_event list" where
  "fill n buf [] = (if length buf < n then (Inl ConnectionClosed, buf, []) else (Inr (), buf, []))"
| "fill n buf (ev # evs) =
     (if length buf < n then
        (case ev of
           ReadError \<Rightarrow> (Inl (Io ''read''), buf, evs)
         | Data bs \<Rightarrow> if bs = [] then (Inl ConnectionClosed, buf, evs) else fill n (buf @ bs) evs)
      else (Inr (), buf, ev # evs))"

definition framed_read_message ::
  "env \<Rightarrow> p2p_network \<Rightarrow> bytes \<Rightarrow> io_event list \<Rightarrow> (net_error + message) \<times> bytes \<times> io_event list" where
  "framed_read_message E net buf evs =
     (case fill MESSAGE_HEADER_SIZE buf evs of
        (Inl e, buf, evs) \<Rightarrow> (Inl e, buf, evs)
      | (Inr _, buf, evs) \<Rightarrow>
          (case decode_message_header (take MESSAGE_HEADER_SIZE buf) (magic net) MAX_PAYLOAD_SIZE of
             Inl e \<Rightarrow> (Inl e, buf, evs)
           | Inr h \<Rightarrow>
               let total_len = MESSAGE_HEADER_SIZE + unat (payload_len h) in
               (case fill total_len buf evs of
                  (Inl e, buf, evs) \<Rightarrow> (Inl e, buf, evs)
                | (Inr _, buf, evs) \<Rightarrow>
                    let pl = drop MESSAGE_HEADER_SIZE (take total_len buf); buf' = drop total_len buf
                    in (and_then (verify_checksum E h pl) (\<lambda>_. decode_payload (hdr_command h) pl), buf', evs))))"

text \<open>\<open>read_exact_or_closed\<close>: a read fills at most what is left of its buffer, the rest stays in the socket.\<close>

fun read_exact :: "nat \<Rightarrow> bytes \<Rightarrow> io_event list \<Rightarrow> (net_error + bytes) \<times> io_event list" where
  "read_exact n got [] = (if length got < n then (Inl ConnectionClosed, []) else (Inr got, []))"
| "read_exact n got (ev # evs) =
     (if length got < n then
        (case ev of
           ReadError \<Rightarrow> (Inl (Io ''read exact''), evs)
         | Data bs \<Rightarrow>
             if bs = [] then (Inl ConnectionClosed, evs)
             else if length bs \<le> n - length got then read_exact n (got @ bs) evs
             else (Inr (got @ take (n - length got) bs), Data (drop (n - length got) bs) # evs))
      else (Inr got, ev # evs))"

definition read_message :: "env \<Rightarrow> p2p_network \<Rightarrow> io_event list \<Rightarrow> (net_error + message) \<times> io_event list" where
  "read_message E net evs =
     (case read_exact MESSAGE_HEADER_SIZE [] evs of
        (Inl e, evs) \<Rightarrow> (Inl e, evs)
      | (Inr header_bytes, evs) \<Rightarrow>
          (case decode_message_header header_bytes (magic net) MAX_PAYLOAD_SIZE of
             Inl e \<Rightarrow> (Inl e, evs)
           | Inr h \<Rightarrow>
               (case (if payload_len h \<noteq> 0 then read_exact (unat (payload_len h)) [] evs else (Inr [], evs)) of
                  (Inl e, evs) \<Rightarrow> (Inl e, evs)
                | (Inr pl, evs) \<Rightarrow>
                    (and_then (verify_checksum E h pl) (\<lambda>_. decode_payload (hdr_command h) pl), evs))))"

section \<open>Writers\<close>

text \<open>\<open>write_message\<close>: its result and the bytes the socket took.\<close>

definition write_message ::
  "env \<Rightarrow> p2p_network \<Rightarrow> (nat \<Rightarrow> nat option) \<Rightarrow> message \<Rightarrow> (net_error + unit) \<times> bytes" where
  "write_message E net os m =
     (case and_then (encode_payload m) (\<lambda>(cmd, pl).
             and_then (encode_message_header E cmd pl (magic net) MAX_PAYLOAD_SIZE) (\<lambda>hb. Inr (hb, pl))) of
        Inl e \<Rightarrow> (Inl e, [])
      | Inr (hb, pl) \<Rightarrow>
          (case os 0 of
             Some k \<Rightarrow> (Inl (Io ''write header''), take k hb)
           | None \<Rightarrow>
               (case (if pl \<noteq> [] then os 1 else None) of
                  Some k \<Rightarrow> (Inl (Io ''write payload''), hb @ take k pl)
                | None \<Rightarrow>
                    (case os 2 of
                       Some _ \<Rightarrow> (Inl (Io ''flush''), hb @ pl)
                     | None \<Rightarrow> (Inr (), hb @ pl)))))"

text \<open>The task behind \<open>MessageWriter\<close>: the bytes it sends for the queued messages, up to the first failure.\<close>

fun writer_task :: "env \<Rightarrow> p2p_network \<Rightarrow> (nat \<Rightarrow> nat \<Rightarrow> nat option) \<Rightarrow> nat \<Rightarrow> message list \<Rightarrow> bytes" where
  "writer_task E net os n [] = []"
| "writer_task E net os n (m # ms) =
     (case write_message E net (os n) m of
        (Inl _, w) \<Rightarrow> w
      | (Inr _, w) \<Rightarrow> w @ writer_task E net os (n + 1) ms)"

end
