(* ===== verification/FramingTheorems.thy ===== *)
theory FramingTheorems
  imports Framing
begin

text \<open>
  A frame is the header and the payload of one message.  The readers accept exactly the frames, however the
  stream is cut into chunks, and read back what the writer sent.
\<close>

section \<open>Frames\<close>

definition valid_command :: "bytes \<Rightarrow> bool" where
  "valid_command cmd \<longleftrightarrow> cmd \<noteq> [] \<and> length cmd \<le> 12 \<and> list_all printable cmd"

definition header_bytes :: "bytes \<Rightarrow> bytes \<Rightarrow> u32 \<Rightarrow> bytes \<Rightarrow> bytes" where
  "header_bytes mg cmd len sum4 = mg @ cmd @ replicate (12 - length cmd) 0 @ u32_to_le_bytes len @ sum4"

definition frame :: "env \<Rightarrow> p2p_network \<Rightarrow> bytes \<Rightarrow> bytes \<Rightarrow> bytes" where
  "frame E net cmd pl = header_bytes (magic net) cmd (of_nat (length pl)) (checksum E pl) @ pl"

lemma length_header_bytes:
  "length mg = 4 \<Longrightarrow> length cmd \<le> 12 \<Longrightarrow> length sum4 = 4 \<Longrightarrow> length (header_bytes mg cmd len sum4) = 24"
  by (simp add: header_bytes_def)

lemma length_checksum: "hash_ok E \<Longrightarrow> length (checksum E pl) = 4"
  by (simp add: checksum_def length_sha256d)

lemma printable_nonzero: "printable b \<Longrightarrow> b \<noteq> 0"
  by (auto simp: printable_def)

lemma printable_utf8: "list_all printable bs \<Longrightarrow> utf8_valid bs"
proof (induction bs)
  case (Cons b bs)
  have "unat b \<le> 0x7e" using Cons.prems by (simp add: printable_def word_le_nat_alt)
  then have "b < 0x80" by (simp add: word_less_nat_alt)
  then show ?case using Cons by simp
qed simp

lemma command_from_header_bytes_iff:
  assumes "length bs = 12"
  shows "command_from_header_bytes bs = Inr cmd \<longleftrightarrow> valid_command cmd \<and> bs = cmd @ replicate (12 - length cmd) 0"
proof
  define n where "n = length (takeWhile (\<lambda>b. b \<noteq> 0) bs)"
  have n: "n \<le> 12" using length_takeWhile_le [of "\<lambda>b. b \<noteq> 0" bs] assms by (simp add: n_def)
  assume "command_from_header_bytes bs = Inr cmd"
  then have c: "take n bs = cmd" "cmd \<noteq> []" "list_all printable cmd" "\<not> list_ex (\<lambda>b. b \<noteq> 0) (drop n bs)"
    unfolding command_from_header_bytes_def Let_def n_def [symmetric] by (auto split: if_splits)
  have "drop n bs = replicate (12 - n) 0"
    using c(4) assms by (intro replicate_eqI) (auto simp: list_ex_iff)
  moreover have "length cmd = n" using c(1) n assms by auto
  ultimately have "bs = cmd @ replicate (12 - length cmd) 0" using c(1) append_take_drop_id [of n bs] by metis
  then show "valid_command cmd \<and> bs = cmd @ replicate (12 - length cmd) 0"
    using c n \<open>length cmd = n\<close> by (simp add: valid_command_def)
next
  assume r: "valid_command cmd \<and> bs = cmd @ replicate (12 - length cmd) 0"
  then have nz: "\<forall>b\<in>set cmd. b \<noteq> 0" by (auto simp: valid_command_def list_all_iff dest: printable_nonzero)
  then have "takeWhile (\<lambda>b. b \<noteq> 0) bs = cmd" using r by (simp add: takeWhile_append)
  then show "command_from_header_bytes bs = Inr cmd"
    using r printable_utf8 [of cmd]
    by (auto simp: command_from_header_bytes_def Let_def valid_command_def list_ex_iff)
qed

lemma append4:
  "length a = length a' \<Longrightarrow> length b = length b' \<Longrightarrow> length c = length c' \<Longrightarrow>
     a @ b @ c @ d = a' @ b' @ c' @ d' \<longleftrightarrow> a = a' \<and> b = b' \<and> c = c' \<and> d = d'"
  by simp

lemma decode_message_header_iff:
  assumes "length bs = 24" "length mg = 4"
  shows "decode_message_header bs mg mx = Inr h \<longleftrightarrow>
    valid_command (hdr_command h) \<and> hdr_magic h = mg \<and> unat (payload_len h) \<le> mx \<and> length (hdr_checksum h) = 4 \<and>
    bs = header_bytes mg (hdr_command h) (payload_len h) (hdr_checksum h)"
proof -
  obtain b1 b2 b3 b4 where b: "bs = b1 @ b2 @ b3 @ b4" "length b1 = 4" "length b2 = 12" "length b3 = 4" "length b4 = 4"
  proof
    have "drop 4 bs = take 12 (drop 4 bs) @ drop 16 bs" "drop 16 bs = take 4 (drop 16 bs) @ drop 20 bs"
      using append_take_drop_id [of 12 "drop 4 bs"] append_take_drop_id [of 4 "drop 16 bs"] by simp_all
    then show "bs = take 4 bs @ take 12 (drop 4 bs) @ take 4 (drop 16 bs) @ drop 20 bs"
      by (metis append_take_drop_id)
  qed (use assms(1) in simp_all)
  obtain a cmd len s where h: "h = \<lparr>hdr_magic = a, hdr_command = cmd, payload_len = len, hdr_checksum = s\<rparr>" by (cases h)
  have len: "u32_from_le_bytes b3 = len \<longleftrightarrow> b3 = u32_to_le_bytes len"
    using b(4) by (metis from_le_to_le(2) to_le_from_le(2))
  have t: "take 4 bs = b1" "take 12 (drop 4 bs) = b2" "take 4 (drop 16 bs) = b3" "take 4 (drop 20 bs) = b4"
    using b(2-) unfolding b(1) by simp_all
  have "decode_message_header bs mg mx = Inr h \<longleftrightarrow>
      b1 = mg \<and> a = mg \<and> command_from_header_bytes b2 = Inr cmd \<and> u32_from_le_bytes b3 = len \<and> unat len \<le> mx \<and> b4 = s"
    unfolding decode_message_header_def Let_def t by (auto simp: and_then_Inr_iff h not_less)
  also have "\<dots> \<longleftrightarrow> valid_command cmd \<and> a = mg \<and> unat len \<le> mx \<and> length s = 4 \<and>
      bs = header_bytes mg cmd len s"
  proof (cases "valid_command cmd")
    case True
    then have "length (cmd @ replicate (12 - length cmd) 0) = 12" by (simp add: valid_command_def)
    then have "bs = header_bytes mg cmd len s \<longleftrightarrow>
        b1 = mg \<and> b2 = cmd @ replicate (12 - length cmd) 0 \<and> b3 = u32_to_le_bytes len \<and> b4 = s"
      using append4 [of b1 mg b2 "cmd @ replicate (12 - length cmd) 0" b3 "u32_to_le_bytes len" b4 s, unfolded append_assoc]
        b(2-4) assms(2) unfolding b(1) header_bytes_def by simp
    then show ?thesis using True b(5) unfolding command_from_header_bytes_iff [OF b(3)] len by blast
  qed (simp add: command_from_header_bytes_iff [OF b(3)])
  finally show ?thesis by (simp add: h)
qed

lemma encode_message_header_iff:
  assumes "hash_ok E" "length mg = 4"
  shows "encode_message_header E cmd pl mg mx = Inr hb \<longleftrightarrow>
    valid_command cmd \<and> length pl \<le> mx \<and> hb = header_bytes mg cmd (of_nat (length pl)) (checksum E pl)"
  using length_checksum [OF assms(1), of pl] assms(2)
  by (auto simp: encode_message_header_def command_encode_def and_then_Inr_iff valid_command_def header_bytes_def
      COMMAND_LENGTH_def MESSAGE_HEADER_SIZE_def copy_at_def not_less)

section \<open>Filling the buffer\<close>

lemma fill_Inr:
  "fill n buf evs = (Inr u, buf', evs') \<Longrightarrow>
     \<exists>cs. evs = map Data cs @ evs' \<and> buf' = buf @ concat cs \<and> n \<le> length buf'"
proof (induction n buf evs rule: fill.induct)
  case (2 n buf ev evs)
  show ?case
  proof (cases "length buf < n")
    case True
    then obtain bs where bs: "ev = Data bs" "bs \<noteq> []" "fill n (buf @ bs) evs = (Inr u, buf', evs')"
      using 2(2) by (auto split: io_event.splits if_splits)
    from 2(1) [OF True bs] obtain cs where "evs = map Data cs @ evs'" "buf' = (buf @ bs) @ concat cs" "n \<le> length buf'" by blast
    then show ?thesis using bs(1) by (intro exI [of _ "bs # cs"]) simp
  next
    case False
    then show ?thesis using 2(2) by (intro exI [of _ "[]"]) simp
  qed
qed (simp split: if_splits)

lemma fill_chunks:
  "\<forall>c\<in>set cs. c \<noteq> [] \<Longrightarrow> n \<le> length (buf @ concat cs) \<Longrightarrow>
     \<exists>cs1 cs2. cs = cs1 @ cs2 \<and> fill n buf (map Data cs) = (Inr (), buf @ concat cs1, map Data cs2) \<and>
       n \<le> length (buf @ concat cs1)"
proof (induction cs arbitrary: buf)
  case (Cons c cs)
  show ?case
  proof (cases "length buf < n")
    case True
    obtain cs1 cs2 where "cs = cs1 @ cs2" "fill n (buf @ c) (map Data cs) = (Inr (), (buf @ c) @ concat cs1, map Data cs2)"
        "n \<le> length ((buf @ c) @ concat cs1)"
      using Cons.IH [of "buf @ c"] Cons.prems by auto
    then show ?thesis using True Cons.prems(1) by (intro exI [of _ "c # cs1"] exI [of _ cs2]) simp
  qed (intro exI [of _ "[]"] exI [of _ "c # cs"], simp)
qed simp

section \<open>Reading frames\<close>

lemma frame_split:
  assumes "hash_ok E" "valid_command cmd" "buf = frame E net cmd pl @ after"
  shows "take 24 buf = header_bytes (magic net) cmd (of_nat (length pl)) (checksum E pl)" "drop 24 buf = pl @ after"
proof -
  have "length (header_bytes (magic net) cmd (of_nat (length pl)) (checksum E pl)) = 24"
    using assms(2) by (intro length_header_bytes) (simp_all add: valid_command_def length_checksum [OF assms(1)])
  then show "take 24 buf = header_bytes (magic net) cmd (of_nat (length pl)) (checksum E pl)" "drop 24 buf = pl @ after"
    by (simp_all add: assms(3) frame_def)
qed

lemma framed_read_frame:
  assumes hash: "hash_ok E" and cmd: "valid_command cmd" and pl: "length pl \<le> MAX_PAYLOAD_SIZE"
    and cs: "\<forall>c\<in>set cs. c \<noteq> []" and data: "buf @ concat cs = frame E net cmd pl @ after"
  shows "\<exists>buf' cs'. framed_read_message E net buf (map Data cs) = (decode_payload cmd pl, buf', map Data cs') \<and>
    buf' @ concat cs' = after \<and> set cs' \<subseteq> set cs"
proof -
  let ?h = "\<lparr>hdr_magic = magic net, hdr_command = cmd, payload_len = of_nat (length pl), hdr_checksum = checksum E pl\<rparr>"
  have small: "unat (of_nat (length pl) :: u32) = length pl"
    using pl by (simp add: unat_of_nat MAX_PAYLOAD_SIZE_def limit_defs)
  have hl: "length (header_bytes (magic net) cmd (of_nat (length pl)) (checksum E pl)) = 24"
    using cmd by (intro length_header_bytes) (simp_all add: valid_command_def length_checksum [OF hash])
  have dec: "decode_message_header (header_bytes (magic net) cmd (of_nat (length pl)) (checksum E pl)) (magic net) MAX_PAYLOAD_SIZE = Inr ?h"
    using cmd pl small length_checksum [OF hash] by (subst decode_message_header_iff [OF hl]) simp_all
  have total_len: "24 + length pl \<le> length (buf @ concat cs)" using hl unfolding data frame_def by simp
  obtain cs1 cs2 where one: "cs = cs1 @ cs2" "fill 24 buf (map Data cs) = (Inr (), buf @ concat cs1, map Data cs2)"
      "24 \<le> length (buf @ concat cs1)"
    using fill_chunks [OF cs, of 24 buf] total_len by auto
  obtain cs3 cs4 where two: "cs2 = cs3 @ cs4"
      "fill (24 + length pl) (buf @ concat cs1) (map Data cs2) = (Inr (), (buf @ concat cs1) @ concat cs3, map Data cs4)"
      "24 + length pl \<le> length ((buf @ concat cs1) @ concat cs3)"
    using fill_chunks [of cs2 "24 + length pl" "buf @ concat cs1"] cs total_len one(1) by auto
  let ?b = "(buf @ concat cs1) @ concat cs3"
  have all: "?b @ concat cs4 = frame E net cmd pl @ after" using data by (simp add: one(1) two(1))
  have head: "take 24 (buf @ concat cs1) = header_bytes (magic net) cmd (of_nat (length pl)) (checksum E pl)"
    using frame_split(1) [OF hash cmd data] one(1,3) by simp
  have flen: "length (frame E net cmd pl) = 24 + length pl" using hl by (simp add: frame_def)
  have tb: "take (24 + length pl) ?b = frame E net cmd pl" "drop (24 + length pl) ?b @ concat cs4 = after"
    using all two(3) flen by (metis append_eq_append_conv_if append_take_drop_id append.assoc append_same_eq take_all_iff)+
  have pld: "drop 24 (take (24 + length pl) ?b) = pl" unfolding tb(1) using hl by (simp add: frame_def)
  have "framed_read_message E net buf (map Data cs) = (decode_payload cmd pl, drop (24 + length pl) ?b, map Data cs4)"
    using one(2) two(2) head dec pld small
    by (simp add: framed_read_message_def MESSAGE_HEADER_SIZE_def Let_def verify_checksum_def del: take_append drop_append append_assoc)
  moreover have "set cs4 \<subseteq> set cs" by (auto simp: one(1) two(1))
  ultimately show ?thesis using tb(2) by blast
qed

section \<open>Streams of messages\<close>

fun framed_read_many :: "env \<Rightarrow> p2p_network \<Rightarrow> nat \<Rightarrow> bytes \<Rightarrow> io_event list \<Rightarrow> net_error + message list" where
  "framed_read_many E net 0 buf evs = Inr []"
| "framed_read_many E net (Suc n) buf evs =
     (case framed_read_message E net buf evs of
        (Inl e, _, _) \<Rightarrow> Inl e
      | (Inr m, buf', evs') \<Rightarrow> and_then (framed_read_many E net n buf' evs') (\<lambda>ms. Inr (m # ms)))"

lemma write_message_frame:
  assumes "hash_ok E" "write_message E net (\<lambda>_. None) m = (Inr (), w)"
  obtains cmd pl where "encode_payload m = Inr (cmd, pl)" "valid_command cmd" "length pl \<le> MAX_PAYLOAD_SIZE" "w = frame E net cmd pl"
  using assms
  by (auto simp: write_message_def and_then_Inr_iff encode_message_header_iff [OF assms(1) length_magic] frame_def
      split: sum.splits)

lemma read_back_more:
  assumes hash: "hash_ok E"
  shows "\<forall>m\<in>set ms. wire_message m \<and> is_ok (fst (write_message E net (\<lambda>_. None) m)) \<Longrightarrow> \<forall>c\<in>set cs. c \<noteq> [] \<Longrightarrow>
     buf @ concat cs = writer_task E net (\<lambda>_ _. None) k ms @ after \<Longrightarrow>
     \<exists>buf' cs'. buf' @ concat cs' = after \<and> set cs' \<subseteq> set cs \<and>
       (\<forall>n. framed_read_many E net (length ms + n) buf (map Data cs) =
          and_then (framed_read_many E net n buf' (map Data cs')) (\<lambda>more. Inr (ms @ more)))"
proof (induction ms arbitrary: buf cs k)
  case Nil
  have "and_then r (\<lambda>more. Inr ([] @ more)) = r" for r :: "net_error + message list" by (cases r) simp_all
  then show ?case using Nil.prems by (intro exI [of _ buf] exI [of _ cs]) simp
next
  case (Cons m ms)
  obtain w where w: "write_message E net (\<lambda>_. None) m = (Inr (), w)"
    using Cons.prems(1) by (cases "write_message E net (\<lambda>_. None) m") (auto simp: is_ok_iff)
  obtain cmd pl where f: "encode_payload m = Inr (cmd, pl)" "valid_command cmd" "length pl \<le> MAX_PAYLOAD_SIZE" "w = frame E net cmd pl"
    by (rule write_message_frame [OF hash w])
  have dec: "decode_payload cmd pl = Inr m" using decode_encode_payload [OF _ f(1)] Cons.prems(1) by auto
  have "buf @ concat cs = frame E net cmd pl @ (writer_task E net (\<lambda>_ _. None) (k + 1) ms @ after)"
    using Cons.prems(3) w f(4) by simp
  from framed_read_frame [OF hash f(2,3) Cons.prems(2) this] obtain buf1 cs1 where
    r: "framed_read_message E net buf (map Data cs) = (Inr m, buf1, map Data cs1)"
      "buf1 @ concat cs1 = writer_task E net (\<lambda>_ _. None) (k + 1) ms @ after" "set cs1 \<subseteq> set cs"
    unfolding dec by blast
  obtain buf' cs' where more: "buf' @ concat cs' = after" "set cs' \<subseteq> set cs1"
      "\<And>n. framed_read_many E net (length ms + n) buf1 (map Data cs1) =
        and_then (framed_read_many E net n buf' (map Data cs')) (\<lambda>more. Inr (ms @ more))"
    using Cons.IH [of cs1 buf1 "k + 1"] Cons.prems(1,2) r(2,3) by auto
  have "framed_read_many E net (length (m # ms) + n) buf (map Data cs) =
      and_then (framed_read_many E net n buf' (map Data cs')) (\<lambda>more. Inr ((m # ms) @ more))" for n
    by (cases "framed_read_many E net n buf' (map Data cs')") (simp_all add: r(1) more(3))
  then show ?case using more(1,2) r(3) by blast
qed

lemma read_back:
  assumes "hash_ok E" and "\<forall>m\<in>set ms. wire_message m \<and> is_ok (fst (write_message E net (\<lambda>_. None) m))"
    and "\<forall>c\<in>set cs. c \<noteq> []" and "buf @ concat cs = writer_task E net (\<lambda>_ _. None) k ms @ after"
  shows "framed_read_many E net (length ms) buf (map Data cs) = Inr ms"
proof -
  obtain buf' cs' where "\<And>n. framed_read_many E net (length ms + n) buf (map Data cs) =
      and_then (framed_read_many E net n buf' (map Data cs')) (\<lambda>more. Inr (ms @ more))"
    using read_back_more [OF assms] by blast
  from this [of 0] show ?thesis by simp
qed

lemma fill_short:
  "\<forall>c\<in>set cs. c \<noteq> [] \<Longrightarrow> length (buf @ concat cs) < n \<Longrightarrow> fst (fill n buf (map Data cs)) = Inl ConnectionClosed"
  by (induction cs arbitrary: buf) auto

lemma framed_read_short:
  assumes "\<forall>c\<in>set cs. c \<noteq> []" "length (buf @ concat cs) < MESSAGE_HEADER_SIZE"
  shows "fst (framed_read_message E net buf (map Data cs)) = Inl ConnectionClosed"
  using fill_short [OF assms]
  by (cases "fill MESSAGE_HEADER_SIZE buf (map Data cs)") (simp add: framed_read_message_def)

text \<open>
  C32. Message streams: what the writer task sends for any queue of well-formed messages that fit the limits is
  read back message by message, in order and unchanged, whatever chunks the stream arrives in and whatever
  follows it; and when what follows is shorter than a header (nothing, say), the read after the last of them
  reports that the connection is closed.
\<close>

theorem message_stream_roundtrip:
  assumes "hash_ok E" and "\<forall>m\<in>set ms. wire_message m \<and> is_ok (fst (write_message E net (\<lambda>_. None) m))"
    and "\<forall>c\<in>set cs. c \<noteq> []" and "concat cs = writer_task E net (\<lambda>_ _. None) 0 ms @ after"
  shows "framed_read_many E net (length ms) [] (map Data cs) = Inr ms \<and>
    (length after < MESSAGE_HEADER_SIZE \<longrightarrow> framed_read_many E net (length ms + 1) [] (map Data cs) = Inl ConnectionClosed)"
proof
  show "framed_read_many E net (length ms) [] (map Data cs) = Inr ms"
    using read_back [OF assms(1,2,3), of "[]" 0 after] assms(4) by simp
  obtain buf' cs' where r: "buf' @ concat cs' = after" "set cs' \<subseteq> set cs"
      "\<And>n. framed_read_many E net (length ms + n) [] (map Data cs) =
        and_then (framed_read_many E net n buf' (map Data cs')) (\<lambda>more. Inr (ms @ more))"
    using read_back_more [OF assms(1,2,3), of "[]" 0 after] assms(4) by auto
  show "length after < MESSAGE_HEADER_SIZE \<longrightarrow> framed_read_many E net (length ms + 1) [] (map Data cs) = Inl ConnectionClosed"
  proof
    assume "length after < MESSAGE_HEADER_SIZE"
    then have "fst (framed_read_message E net buf' (map Data cs')) = Inl ConnectionClosed"
      using r(1,2) assms(3) by (intro framed_read_short) auto
    then have "framed_read_many E net 1 buf' (map Data cs') = Inl ConnectionClosed"
      by (cases "framed_read_message E net buf' (map Data cs')") simp
    then show "framed_read_many E net (length ms + 1) [] (map Data cs) = Inl ConnectionClosed"
      unfolding r(3) by simp
  qed
qed

text \<open>
  C33. Sound framing: if the reader returns a message - from any buffer, over any sequence of reads - then the
  bytes it consumed are exactly one frame: the network's magic, a printable command padded with zeros, the
  length of the payload (at most 4,000,000), the first four bytes of its double hash, and a payload that
  decodes to the message under that command.
\<close>

theorem framed_read_sound:
  assumes "framed_read_message E net buf evs = (Inr m, buf', evs')"
  shows "\<exists>cs cmd pl. evs = map Data cs @ evs' \<and> valid_command cmd \<and> length pl \<le> 4000000 \<and> decode_payload cmd pl = Inr m \<and>
    buf @ concat cs = frame E net cmd pl @ buf'"
proof -
  obtain b1 ev1 h b2 where r: "fill 24 buf evs = (Inr (), b1, ev1)"
    "decode_message_header (take 24 b1) (magic net) MAX_PAYLOAD_SIZE = Inr h"
    "fill (24 + unat (payload_len h)) b1 ev1 = (Inr (), b2, evs')"
    "verify_checksum E h (drop 24 (take (24 + unat (payload_len h)) b2)) = Inr ()"
    "decode_payload (hdr_command h) (drop 24 (take (24 + unat (payload_len h)) b2)) = Inr m"
    "buf' = drop (24 + unat (payload_len h)) b2"
    using assms by (auto simp: framed_read_message_def Let_def and_then_Inr_iff MESSAGE_HEADER_SIZE_def split: prod.splits sum.splits)
  obtain cs1 where one: "evs = map Data cs1 @ ev1" "b1 = buf @ concat cs1" "24 \<le> length b1" using fill_Inr [OF r(1)] by blast
  obtain cs2 where two: "ev1 = map Data cs2 @ evs'" "b2 = b1 @ concat cs2" "24 + unat (payload_len h) \<le> length b2"
    using fill_Inr [OF r(3)] by blast
  define pl where "pl = drop 24 (take (24 + unat (payload_len h)) b2)"
  have len: "length pl = unat (payload_len h)" using two(3) by (simp add: pl_def)
  have "length (take 24 b1) = 24" using one(3) by simp
  note head = r(2) [unfolded decode_message_header_iff [OF this length_magic]]
  have sum4: "hdr_checksum h = checksum E pl" using r(4) by (simp add: verify_checksum_def pl_def split: if_splits)
  have dec: "decode_payload (hdr_command h) pl = Inr m" using r(5) by (simp only: pl_def)
  have "take 24 (take (24 + unat (payload_len h)) b2) = take 24 b1" using one(3) two(2) by simp
  then have "take (24 + unat (payload_len h)) b2 = take 24 b1 @ pl"
    unfolding pl_def by (metis append_take_drop_id)
  also have "take 24 b1 = header_bytes (magic net) (hdr_command h) (of_nat (length pl)) (checksum E pl)"
    unfolding len using head by (simp add: sum4)
  finally have "take (24 + unat (payload_len h)) b2 = frame E net (hdr_command h) pl" by (simp only: frame_def)
  then have "b2 = frame E net (hdr_command h) pl @ buf'" unfolding r(6) by (metis append_take_drop_id)
  moreover have "evs = map Data (cs1 @ cs2) @ evs'" "b2 = buf @ concat (cs1 @ cs2)" using one two by simp_all
  moreover have "valid_command (hdr_command h)" "length pl \<le> 4000000"
    using head len by (simp_all add: MAX_PAYLOAD_SIZE_def MAX_BLOCK_SERIALIZED_SIZE_def)
  ultimately show ?thesis using dec by metis
qed

section \<open>Witnesses\<close>

definition sample_inv :: message where
  "sample_inv = inv_message [\<lparr>inv_type = InvBlock, inv_hash = replicate 32 3\<rparr>]"

lemma sample_write:
  assumes "m = verack_message \<or> m = sample_inv"
  shows "wire_message m \<and> is_ok (fst (write_message toy_env P2PTestnet (\<lambda>_. None) m))"
proof -
  have printable: "list_all printable (rust_str ''verack'')" "list_all printable (rust_str ''inv'')"
    by (simp_all add: rust_str_def printable_def)
  have "is_ok (fst (write_message toy_env P2PTestnet (\<lambda>_. None) m))"
    if "encode_payload m = Inr (cmd, pl)" "valid_command cmd" "length pl \<le> MAX_PAYLOAD_SIZE" for cmd pl
  proof -
    have "encode_message_header toy_env cmd pl (magic P2PTestnet) MAX_PAYLOAD_SIZE =
        Inr (header_bytes (magic P2PTestnet) cmd (of_nat (length pl)) (checksum toy_env pl))"
      using that by (simp add: encode_message_header_iff [OF toy_hash_ok length_magic])
    then show ?thesis using that by (simp add: write_message_def is_ok_iff)
  qed
  moreover have "encode_payload verack_message = Inr (rust_str ''verack'', [])"
    by (simp add: encode_payload_def verack_message_def)
  moreover have "\<exists>pl. encode_payload sample_inv = Inr (rust_str ''inv'', pl) \<and> length pl \<le> MAX_PAYLOAD_SIZE"
    by (simp add: encode_payload_def sample_inv_def inv_message_def encode_inv_def encode_inventory_list_def MAX_INV_COUNT_def
        write_inv_entry_def length_write_compact_size compact_size_encoded_len_def MAX_PAYLOAD_SIZE_def MAX_BLOCK_SERIALIZED_SIZE_def)
  moreover have "valid_command (rust_str ''verack'')" "valid_command (rust_str ''inv'')"
    using printable by (simp_all add: valid_command_def) (simp_all add: rust_str_def)
  ultimately have "is_ok (fst (write_message toy_env P2PTestnet (\<lambda>_. None) m))" using assms by force
  moreover have "wire_message m"
    using assms by (auto simp: wire_message_def sample_inv_def) (simp_all add: verack_message_def inv_message_def)
  ultimately show ?thesis by blast
qed

lemma frame_not_empty: "valid_command cmd \<Longrightarrow> frame E net cmd pl \<noteq> []"
  by (simp add: frame_def header_bytes_def valid_command_def)

lemma sample_sent:
  "writer_task toy_env P2PTestnet (\<lambda>_ _. None) 0 [verack_message, sample_inv] \<noteq> []"
proof -
  obtain w where w: "write_message toy_env P2PTestnet (\<lambda>_. None) verack_message = (Inr (), w)"
    using sample_write [of verack_message] by (cases "write_message toy_env P2PTestnet (\<lambda>_. None) verack_message") (auto simp: is_ok_iff)
  obtain cmd pl where "valid_command cmd" "w = frame toy_env P2PTestnet cmd pl"
    by (rule write_message_frame [OF toy_hash_ok w])
  then have "w \<noteq> []" by (simp add: frame_not_empty)
  then show ?thesis by (simp add: w)
qed

theorem message_stream_roundtrip_witness:
  "(let evs = map Data [writer_task toy_env P2PTestnet (\<lambda>_ _. None) 0 [verack_message, sample_inv]] in
    framed_read_many toy_env P2PTestnet 2 [] evs = Inr [verack_message, sample_inv] \<and>
    framed_read_many toy_env P2PTestnet 3 [] evs = Inl ConnectionClosed)"
proof -
  define w where "w = writer_task toy_env P2PTestnet (\<lambda>_ _. None) 0 [verack_message, sample_inv]"
  have "framed_read_many toy_env P2PTestnet (length [verack_message, sample_inv]) [] (map Data [w]) = Inr [verack_message, sample_inv] \<and>
    (length ([] :: bytes) < MESSAGE_HEADER_SIZE \<longrightarrow>
       framed_read_many toy_env P2PTestnet (length [verack_message, sample_inv] + 1) [] (map Data [w]) = Inl ConnectionClosed)"
  proof (rule message_stream_roundtrip [OF toy_hash_ok])
    show "concat [w] = writer_task toy_env P2PTestnet (\<lambda>_ _. None) 0 [verack_message, sample_inv] @ []" by (simp add: w_def)
  qed (use sample_write sample_sent in \<open>auto simp: w_def\<close>)
  moreover have "length [verack_message, sample_inv] = 2" "length [verack_message, sample_inv] + 1 = 3" by simp_all
  moreover have "length ([] :: bytes) < MESSAGE_HEADER_SIZE" by (simp add: MESSAGE_HEADER_SIZE_def)
  ultimately show ?thesis unfolding w_def Let_def by metis
qed

theorem framed_read_sound_witness:
  "\<exists>w cmd pl. write_message toy_env P2PTestnet (\<lambda>_. None) verack_message = (Inr (), w) \<and> w = frame toy_env P2PTestnet cmd pl \<and>
     decode_payload cmd pl = Inr verack_message"
proof -
  obtain w where w: "write_message toy_env P2PTestnet (\<lambda>_. None) verack_message = (Inr (), w)"
    using sample_write [of verack_message] by (cases "write_message toy_env P2PTestnet (\<lambda>_. None) verack_message") (auto simp: is_ok_iff)
  obtain cmd pl where f: "encode_payload verack_message = Inr (cmd, pl)" "valid_command cmd" "length pl \<le> MAX_PAYLOAD_SIZE"
      "w = frame toy_env P2PTestnet cmd pl"
    by (rule write_message_frame [OF toy_hash_ok w])
  have dec: "decode_payload cmd pl = Inr verack_message" using decode_encode_payload [OF _ f(1)] sample_write by auto
  have ne: "w \<noteq> []" using f(2,4) by (simp add: frame_not_empty)
  obtain buf' cs' where r: "framed_read_message toy_env P2PTestnet [] (map Data [w]) = (Inr verack_message, buf', map Data cs')"
      "buf' @ concat cs' = []"
    using framed_read_frame [OF toy_hash_ok f(2,3), of "[w]" "[]" P2PTestnet "[]"] ne f(4) dec by auto
  from framed_read_sound [OF r(1)] obtain cs cmd' pl' where
    s: "map Data [w] = map Data cs @ map Data cs'" "decode_payload cmd' pl' = Inr verack_message"
      "concat cs = frame toy_env P2PTestnet cmd' pl' @ buf'" by auto
  have "cs' = []" using s(1,3) r(2) ne by (cases cs) auto
  then have "cs = [w]" using s(1) by (auto simp: map_eq_Cons_conv Cons_eq_map_conv)
  then show ?thesis using w s(2,3) r(2) by auto
qed

end
