(* ===== verification/Handshake.thy ===== *)
theory Handshake
  imports Codec
begin

text \<open>
  \<open>crates/bitrst-net/src/handshake.rs\<close>: the version/verack state machine of one connection.  The random
  nonce of \<open>HandshakeConfig::default\<close> is an argument.  The second half composes the two machines of a
  connection and shows what \<open>Established\<close> means and that it is reached.
\<close>

datatype connection_direction = Outbound | Inbound

record handshake_config =
  local_nonce :: u64
  handshake_timeout :: nat

definition default_config :: "env \<Rightarrow> u64 \<Rightarrow> handshake_config" where
  "default_config E random = \<lparr>local_nonce = random, handshake_timeout = HANDSHAKE_TIMEOUT E\<rparr>"

datatype handshake_phase = AwaitingVersion | AwaitingPeerVersion | AwaitingVerack | Established

record handshake_state =
  hs_direction :: connection_direction
  hs_config :: handshake_config
  hs_phase :: handshake_phase
  hs_peer_version :: "version_message option"

definition new_handshake :: "connection_direction \<Rightarrow> handshake_config \<Rightarrow> handshake_state" where
  "new_handshake dir cfg =
     \<lparr>hs_direction = dir, hs_config = cfg,
      hs_phase = (case dir of Outbound \<Rightarrow> AwaitingPeerVersion | Inbound \<Rightarrow> AwaitingVersion),
      hs_peer_version = None\<rparr>"

definition timeout :: "handshake_state \<Rightarrow> nat" where
  "timeout s = handshake_timeout (hs_config s)"

definition initial_outbound_messages :: "handshake_state \<Rightarrow> version_message \<Rightarrow> message list" where
  "initial_outbound_messages s v =
     (if hs_direction s = Outbound \<and> hs_phase s = AwaitingPeerVersion then [version_message_of v] else [])"

definition validate_peer_version :: "handshake_state \<Rightarrow> version_message \<Rightarrow> net_error + unit" where
  "validate_peer_version s v =
     (if vm_nonce v = local_nonce (hs_config s) then Inl SelfConnection else Inr ())"

text \<open>
  \<open>on_message\<close> changes the phase before it asks for the local version, so the state it leaves behind
  with an error is part of the result.
\<close>

definition on_message ::
  "message \<Rightarrow> version_message option \<Rightarrow> handshake_state \<Rightarrow> (net_error + message list) \<times> handshake_state" where
  "on_message m local_version s =
     (case (hs_phase s, payload m) of
        (AwaitingVersion, VersionPayload v) \<Rightarrow>
          (case validate_peer_version s v of
             Inl e \<Rightarrow> (Inl e, s)
           | Inr _ \<Rightarrow>
               let s1 = s\<lparr>hs_peer_version := Some v, hs_phase := AwaitingVerack\<rparr> in
               (case local_version of
                  None \<Rightarrow> (Inl (HandshakeViolation ''missing local version for inbound handshake''), s1)
                | Some l \<Rightarrow> (Inr [version_message_of l, verack_message], s1)))
      | (AwaitingPeerVersion, VersionPayload v) \<Rightarrow>
          (case validate_peer_version s v of
             Inl e \<Rightarrow> (Inl e, s)
           | Inr _ \<Rightarrow> (Inr [verack_message], s\<lparr>hs_peer_version := Some v, hs_phase := AwaitingVerack\<rparr>))
      | (AwaitingVerack, VerackPayload) \<Rightarrow> (Inr [], s\<lparr>hs_phase := Established\<rparr>)
      | (Established, _) \<Rightarrow> (Inr [], s)
      | _ \<Rightarrow> (Inl (HandshakeViolation ''unexpected handshake message''), s))"


section \<open>Both sides of a connection\<close>

text \<open>
  The two machines of one connection with the messages under way in each direction, the local versions
  they announce, and the error with which either side gives up.  A step delivers the oldest message of a
  direction, as the loop of \<open>run_peer\<close> does; the outbound side passes no local version.
\<close>

record link =
  out_side :: handshake_state
  in_side :: handshake_state
  to_in :: "message list"
  to_out :: "message list"
  link_error :: "net_error option"

definition new_link :: "handshake_config \<Rightarrow> handshake_config \<Rightarrow> version_message \<Rightarrow> link" where
  "new_link co ci vo =
     \<lparr>out_side = new_handshake Outbound co, in_side = new_handshake Inbound ci,
      to_in = initial_outbound_messages (new_handshake Outbound co) vo, to_out = [], link_error = None\<rparr>"

inductive link_step :: "version_message \<Rightarrow> link \<Rightarrow> link \<Rightarrow> bool" for vi where
  in_ok: "link_error l = None \<Longrightarrow> to_in l = m # ms \<Longrightarrow> on_message m (Some vi) (in_side l) = (Inr rs, s) \<Longrightarrow>
    link_step vi l (l\<lparr>in_side := s, to_in := ms, to_out := to_out l @ rs\<rparr>)"
| in_error: "link_error l = None \<Longrightarrow> to_in l = m # ms \<Longrightarrow> on_message m (Some vi) (in_side l) = (Inl e, s) \<Longrightarrow>
    link_step vi l (l\<lparr>in_side := s, to_in := ms, link_error := Some e\<rparr>)"
| out_ok: "link_error l = None \<Longrightarrow> to_out l = m # ms \<Longrightarrow> on_message m None (out_side l) = (Inr rs, s) \<Longrightarrow>
    link_step vi l (l\<lparr>out_side := s, to_out := ms, to_in := to_in l @ rs\<rparr>)"
| out_error: "link_error l = None \<Longrightarrow> to_out l = m # ms \<Longrightarrow> on_message m None (out_side l) = (Inl e, s) \<Longrightarrow>
    link_step vi l (l\<lparr>out_side := s, to_out := ms, link_error := Some e\<rparr>)"

inductive_cases link_stepE: "link_step vi l l'"

text \<open>The five stages of the exchange: how far each side is after \<open>n\<close> deliveries.\<close>

definition side :: "connection_direction \<Rightarrow> handshake_config \<Rightarrow> handshake_phase \<Rightarrow> version_message option \<Rightarrow> handshake_state" where
  "side dir cfg ph v = \<lparr>hs_direction = dir, hs_config = cfg, hs_phase = ph, hs_peer_version = v\<rparr>"

definition link_state ::
  "handshake_config \<Rightarrow> handshake_config \<Rightarrow> handshake_phase \<Rightarrow> version_message option \<Rightarrow> handshake_phase \<Rightarrow> version_message option \<Rightarrow>
     message list \<Rightarrow> message list \<Rightarrow> link" where
  "link_state co ci po vpo pin vpi tin tout =
     \<lparr>out_side = side Outbound co po vpo, in_side = side Inbound ci pin vpi, to_in = tin, to_out = tout, link_error = None\<rparr>"

fun stage :: "handshake_config \<Rightarrow> handshake_config \<Rightarrow> version_message \<Rightarrow> version_message \<Rightarrow> nat \<Rightarrow> link set" where
  "stage co ci vo vi n =
     (if n = 0 then {link_state co ci AwaitingPeerVersion None AwaitingVersion None [version_message_of vo] []}
      else if n = 1 then
        {link_state co ci AwaitingPeerVersion None AwaitingVerack (Some vo) [] [version_message_of vi, verack_message]}
      else if n = 2 then
        {link_state co ci AwaitingVerack (Some vi) AwaitingVerack (Some vo) [verack_message] [verack_message]}
      else if n = 3 then
        {link_state co ci Established (Some vi) AwaitingVerack (Some vo) [verack_message] [],
         link_state co ci AwaitingVerack (Some vi) Established (Some vo) [] [verack_message]}
      else if n = 4 then {link_state co ci Established (Some vi) Established (Some vo) [] []}
      else {})"

declare stage.simps [simp del]

lemmas link_defs = link_state_def side_def on_message_def validate_peer_version_def version_message_of_def verack_message_def

lemma stage_0: "new_link co ci vo \<in> stage co ci vo vi 0"
  by (simp add: stage.simps new_link_def new_handshake_def initial_outbound_messages_def link_defs)

lemma stage_step:
  assumes "vm_nonce vo \<noteq> local_nonce ci" and "vm_nonce vi \<noteq> local_nonce co" and "l \<in> stage co ci vo vi n" and "link_step vi l l'"
  shows "l' \<in> stage co ci vo vi (Suc n)"
proof -
  consider "n = 0" | "n = 1" | "n = 2" | "n = 3" | "n = 4"
    using assms(3) by (auto simp: stage.simps split: if_splits)
  then show ?thesis
    using assms by cases (auto simp: stage.simps link_defs elim!: link_stepE)
qed

lemma stage_moves:
  assumes "vm_nonce vo \<noteq> local_nonce ci" and "vm_nonce vi \<noteq> local_nonce co" and "l \<in> stage co ci vo vi n" and "n < 4"
  shows "\<exists>l'. link_step vi l l'"
proof -
  have "\<exists>m ms. to_in l = m # ms \<or> to_out l = m # ms" and "link_error l = None"
    using assms(3,4) by (auto simp: stage.simps link_state_def split: if_splits)
  then show ?thesis
    by (metis link_step.intros surj_pair sum.exhaust)
qed

lemma stage_run:
  assumes "vm_nonce vo \<noteq> local_nonce ci" and "vm_nonce vi \<noteq> local_nonce co" and "(link_step vi ^^ n) (new_link co ci vo) l"
  shows "l \<in> stage co ci vo vi n"
  using assms(3)
proof (induction n arbitrary: l)
  case 0
  then show ?case using stage_0 [of co ci vo vi] by simp
next
  case (Suc n)
  then obtain l0 where "l0 \<in> stage co ci vo vi n" "link_step vi l0 l" by (auto elim!: relpowp_Suc_E)
  then show ?case using stage_step [OF assms(1,2)] by blast
qed

definition link_complete :: "version_message \<Rightarrow> version_message \<Rightarrow> link \<Rightarrow> bool" where
  "link_complete vo vi l \<longleftrightarrow>
     link_error l = None \<and> to_in l = [] \<and> to_out l = [] \<and>
     hs_phase (out_side l) = Established \<and> hs_peer_version (out_side l) = Some vi \<and>
     hs_phase (in_side l) = Established \<and> hs_peer_version (in_side l) = Some vo"

text \<open>
  C21. Handshake liveness: when the two sides of a connection have different nonces, then in whatever
  order their messages are delivered neither side ever fails, the exchange can go on until the fourth
  delivery, and exactly then both sides are established, each with the version the other one sent, and
  nothing is left under way.
\<close>

theorem handshake_completes:
  assumes "vm_nonce vo \<noteq> local_nonce ci" and "vm_nonce vi \<noteq> local_nonce co" and "(link_step vi ^^ n) (new_link co ci vo) l"
  shows "link_error l = None \<and> n \<le> 4 \<and> (n = 4 \<longleftrightarrow> link_complete vo vi l) \<and> (n < 4 \<longleftrightarrow> (\<exists>l'. link_step vi l l'))"
proof -
  note st = stage_run [OF assms]
  have "link_error l = None \<and> n \<le> 4 \<and> (n = 4 \<longleftrightarrow> link_complete vo vi l)"
    using st by (auto simp: stage.simps link_complete_def link_state_def side_def split: if_splits)
  moreover have "\<not> link_step vi l l'" if "n = 4" for l'
    using stage_step [OF assms(1,2) st, of l'] that by (auto simp: stage.simps)
  ultimately show ?thesis using stage_moves [OF assms(1,2) st] by (auto simp: order_le_less)
qed

theorem handshake_completes_witness:
  "\<exists>l. (link_step (default_version_message 10 0 0) ^^ 4)
         (new_link (default_config toy_env 20) (default_config toy_env 10) (default_version_message 20 0 0)) l \<and>
       link_complete (default_version_message 20 0 0) (default_version_message 10 0 0) l"
proof -
  let ?vi = "default_version_message 10 0 0" and ?vo = "default_version_message 20 0 0"
  let ?l0 = "new_link (default_config toy_env 20) (default_config toy_env 10) ?vo"
  note complete = handshake_completes [of ?vo "default_config toy_env 10" ?vi "default_config toy_env 20"]
  have "n \<le> 4 \<Longrightarrow> \<exists>l. (link_step ?vi ^^ n) ?l0 l" for n
  proof (induction n)
    case (Suc n)
    then obtain l where l: "(link_step ?vi ^^ n) ?l0 l" by auto
    then obtain l' where "link_step ?vi l l'" using complete [of n l] Suc.prems
      by (auto simp: default_version_message_def default_config_def)
    then show ?case using l by auto
  qed auto
  then obtain l where "(link_step ?vi ^^ 4) ?l0 l" by blast
  then show ?thesis using complete [of 4 l] by (auto simp: default_version_message_def default_config_def)
qed

end
