(* ===== verification/InboundCapacity.thy ===== *)
theory InboundCapacity
  imports NetTypes
begin

text \<open>
  \<open>crates/bitrst-net/src/inbound_capacity.rs\<close>: the slots for inbound peers, an atomic counter that many
  tasks use at once.  Each atomic operation is one definition; the tasks interleave at these
  operations, and \<open>compare_exchange_weak\<close> may fail although the counter has the expected value.
\<close>

section \<open>The atomic operations\<close>

record inbound_capacity =
  active :: nat
  slot_max :: nat

definition new_capacity :: "nat \<Rightarrow> inbound_capacity" where
  "new_capacity mx = \<lparr>active = 0, slot_max = mx\<rparr>"

definition reserved :: "inbound_capacity \<Rightarrow> nat" where
  "reserved c = active c"

text \<open>Where a task is in \<open>try_acquire\<close>: outside, after the load, refused, or with a guard it holds.\<close>

datatype slot = Outside | Loaded nat | Refused | Holding

definition acquire_load :: "inbound_capacity \<Rightarrow> slot" where
  "acquire_load c = (let current = active c in if current \<ge> slot_max c then Refused else Loaded current)"

definition acquire_exchange :: "bool \<Rightarrow> nat \<Rightarrow> inbound_capacity \<Rightarrow> slot \<times> inbound_capacity" where
  "acquire_exchange spurious current c =
     (if active c = current \<and> \<not> spurious then (Holding, c\<lparr>active := current + 1\<rparr>) else (Outside, c))"

definition release :: "inbound_capacity \<Rightarrow> inbound_capacity" where
  "release c = c\<lparr>active := active c - 1\<rparr>"

section \<open>Interleavings\<close>

text \<open>
  A failed exchange goes round the loop, back to the load; a refused task and one whose guard has been
  dropped may ask again.
\<close>

type_synonym tasks = "nat \<Rightarrow> slot"

inductive capacity_step :: "inbound_capacity \<times> tasks \<Rightarrow> inbound_capacity \<times> tasks \<Rightarrow> bool" where
  load: "ts t = Outside \<or> ts t = Refused \<Longrightarrow> capacity_step (c, ts) (c, ts(t := acquire_load c))"
| exchange: "ts t = Loaded n \<Longrightarrow> acquire_exchange spurious n c = (s, c') \<Longrightarrow> capacity_step (c, ts) (c', ts(t := s))"
| guard_drop: "ts t = Holding \<Longrightarrow> capacity_step (c, ts) (release c, ts(t := Outside))"

inductive_cases capacity_stepE: "capacity_step (c, ts) st"

definition holders :: "tasks \<Rightarrow> nat set" where
  "holders ts = {t. ts t = Holding}"

definition slots_ok :: "nat \<Rightarrow> inbound_capacity \<times> tasks \<Rightarrow> bool" where
  "slots_ok mx st \<longleftrightarrow>
     (case st of (c, ts) \<Rightarrow>
        slot_max c = mx \<and> finite (holders ts) \<and> card (holders ts) = active c \<and> active c \<le> mx \<and>
        (\<forall>t n. ts t = Loaded n \<longrightarrow> n < mx))"

lemma holders_update: "holders (ts(t := s)) = (if s = Holding then insert t (holders ts) else holders ts - {t})"
  by (auto simp: holders_def)

lemma slots_ok_step:
  assumes "slots_ok mx st" and "capacity_step st st'"
  shows "slots_ok mx st'"
  using assms(2,1)
proof cases
  case (load ts t c)
  then show ?thesis using assms(1)
    by (auto simp: slots_ok_def holders_update acquire_load_def Let_def) (auto simp: holders_def)
next
  case (exchange ts t n spurious c s c')
  moreover have "t \<notin> holders ts" using exchange(3) by (simp add: holders_def)
  ultimately show ?thesis using assms(1)
    by (auto simp: slots_ok_def holders_update acquire_exchange_def Suc_leI split: if_splits)
next
  case (guard_drop ts t c)
  moreover have "t \<in> holders ts" using guard_drop(3) by (simp add: holders_def)
  ultimately show ?thesis using assms(1) by (auto simp: slots_ok_def holders_update release_def)
qed

lemma slots_ok_run: "capacity_step\<^sup>*\<^sup>* st st' \<Longrightarrow> slots_ok mx st \<Longrightarrow> slots_ok mx st'"
  by (induction rule: rtranclp_induct) (use slots_ok_step in blast)+

lemma slots_ok_new: "slots_ok mx (new_capacity mx, \<lambda>_. Outside)"
  by (simp add: slots_ok_def new_capacity_def holders_def)

text \<open>
  C23. Inbound capacity: under any interleaving of any number of tasks, lost races and spurious failures of
  the exchange included, the counter is the number of guards held and never exceeds the maximum; and
  while a slot is free, a task that is not disturbed between its two steps gets one, a task being refused
  only when the counter it read was at the maximum.
\<close>

theorem inbound_slots_bounded:
  assumes "capacity_step\<^sup>*\<^sup>* (new_capacity mx, \<lambda>_. Outside) (c, ts)"
  shows "card (holders ts) = reserved c \<and> reserved c \<le> mx \<and>
    (reserved c < mx \<longleftrightarrow> acquire_load c = Loaded (reserved c)) \<and>
    (\<exists>c'. acquire_exchange False (reserved c) c = (Holding, c') \<and> reserved c' = reserved c + 1)"
  using slots_ok_run [OF assms slots_ok_new]
  by (auto simp: slots_ok_def reserved_def acquire_load_def acquire_exchange_def Let_def)

theorem inbound_slots_bounded_witness:
  "\<exists>c ts. capacity_step\<^sup>*\<^sup>* (new_capacity 1, \<lambda>_. Outside) (c, ts) \<and> ts 7 = Holding \<and> reserved c = 1 \<and> acquire_load c = Refused"
proof -
  let ?c = "new_capacity 1" and ?idle = "\<lambda>_ :: nat. Outside"
  have "capacity_step (?c, ?idle) (?c, ?idle(7 := Loaded 0))"
    using capacity_step.load [of ?idle 7 ?c] by (simp add: acquire_load_def new_capacity_def)
  moreover have "capacity_step (?c, ?idle(7 := Loaded 0)) (?c\<lparr>active := 1\<rparr>, ?idle(7 := Holding))"
    using capacity_step.exchange [of "?idle(7 := Loaded 0)" 7 0 False ?c Holding "?c\<lparr>active := 1\<rparr>"]
    by (simp add: acquire_exchange_def new_capacity_def)
  ultimately have run: "capacity_step\<^sup>*\<^sup>* (?c, ?idle) (?c\<lparr>active := 1\<rparr>, ?idle(7 := Holding))" by simp
  from inbound_slots_bounded [OF this] have "reserved (?c\<lparr>active := 1\<rparr>) \<le> 1" by simp
  then show ?thesis using run by (intro exI [of _ "?c\<lparr>active := 1\<rparr>"] exI [of _ "?idle(7 := Holding)"])
      (simp add: reserved_def acquire_load_def new_capacity_def)
qed

end
