(* ===== verification/Handles.thy ===== *)
theory Handles
  imports Mempool
begin

text \<open>
  \<open>chain_handle.rs\<close> and \<open>mempool_handle.rs\<close> of \<open>crates/bitrst-core/src\<close>: the chain and the memory pool behind
  an \<open>RwLock\<close> each.  A lock is its content and whether a writer has panicked while it held it, after
  which every operation reports a poisoned lock.  The only panic of the model is \<open>IndexPanic\<close> of
  \<open>connect_block\<close>; the constructor \<open>PoolOutOfFuel\<close> stands for a pool operation that does not end and
  is shown not to occur.
\<close>

section \<open>The lock\<close>

record 's rwlock =
  lock_state :: 's
  lock_poisoned :: bool

definition new_lock :: "'s \<Rightarrow> 's rwlock" where
  "new_lock s = \<lparr>lock_state = s, lock_poisoned = False\<rparr>"

definition read_lock :: "'e \<Rightarrow> 's rwlock \<Rightarrow> 'e + 's" where
  "read_lock e l = (if lock_poisoned l then Inl e else Inr (lock_state l))"

text \<open>A write access runs an operation on the content; \<open>panics\<close> tells which of its results is an unwinding.\<close>

definition write_lock :: "'e \<Rightarrow> ('e + 'a \<Rightarrow> bool) \<Rightarrow> ('s \<Rightarrow> ('e + 'a) \<times> 's) \<Rightarrow> 's rwlock \<Rightarrow> ('e + 'a) \<times> 's rwlock" where
  "write_lock e panics f l =
     (case read_lock e l of
        Inl e \<Rightarrow> (Inl e, l)
      | Inr s \<Rightarrow> (case f s of (r, s') \<Rightarrow> (r, \<lparr>lock_state = s', lock_poisoned = panics r\<rparr>)))"

definition no_panic :: "'r \<Rightarrow> bool" where
  "no_panic r = False"

section \<open>The chain handle\<close>

type_synonym chain_handle = "chain rwlock"

definition ch_read :: "chain_handle \<Rightarrow> chain_error + chain" where
  "ch_read = read_lock LockPoisoned"

definition ch_write ::
  "(chain \<Rightarrow> (chain_error + 'a) \<times> chain) \<Rightarrow> chain_handle \<Rightarrow> (chain_error + 'a) \<times> chain_handle" where
  "ch_write = write_lock LockPoisoned (\<lambda>r. r = Inl IndexPanic)"

definition ch_new_genesis :: "env \<Rightarrow> block \<Rightarrow> u32 \<Rightarrow> chain_error + chain_handle" where
  "ch_new_genesis E gb nt = and_then (new_genesis E gb nt) (\<lambda>c. Inr (new_lock c))"

definition ch_tip_hash :: "env \<Rightarrow> chain_handle \<Rightarrow> chain_error + hash32" where
  "ch_tip_hash E h = and_then (ch_read h) (\<lambda>c. Inr (tip_hash E c))"

definition ch_height :: "chain_handle \<Rightarrow> chain_error + u32" where
  "ch_height h = and_then (ch_read h) (\<lambda>c. Inr (height c))"

definition ch_connect_block :: "env \<Rightarrow> block \<Rightarrow> chain_handle \<Rightarrow> (chain_error + connect_result) \<times> chain_handle" where
  "ch_connect_block E b = ch_write (connect_block E b)"

definition ch_set_network_time :: "u32 \<Rightarrow> chain_handle \<Rightarrow> (chain_error + unit) \<times> chain_handle" where
  "ch_set_network_time nt = ch_write (set_network_time nt)"

definition ch_event_cursor :: "chain_handle \<Rightarrow> chain_error + chain_event_cursor" where
  "ch_event_cursor h = and_then (ch_read h) (\<lambda>c. Inr (event_cursor c))"

text \<open>\<open>collect_events\<close> takes the write lock, but changes only the cursor of its caller.\<close>

definition ch_collect_events ::
  "chain_handle \<Rightarrow> chain_event_cursor \<Rightarrow> chain_error + chain_event list \<times> chain_event_cursor" where
  "ch_collect_events h cur = and_then (ch_read h) (\<lambda>c. map_err EventCursorFailed (collect_events c cur))"

definition ch_take_events :: "chain_handle \<Rightarrow> (chain_error + chain_event list) \<times> chain_handle" where
  "ch_take_events =
     ch_write (\<lambda>c. case take_events c of Inl e \<Rightarrow> (Inl (EventCursorFailed e), c) | Inr (evs, c') \<Rightarrow> (Inr evs, c'))"

definition ch_has_block :: "hash32 \<Rightarrow> chain_handle \<Rightarrow> chain_error + bool" where
  "ch_has_block bh h = and_then (ch_read h) (\<lambda>c. Inr (has_block_hash c bh))"

definition ch_get_block :: "hash32 \<Rightarrow> chain_handle \<Rightarrow> chain_error + block option" where
  "ch_get_block bh h = and_then (ch_read h) (\<lambda>c. Inr (block_by_hash c bh))"

definition with_chain :: "chain_handle \<Rightarrow> (chain \<Rightarrow> 'r) \<Rightarrow> chain_error + 'r" where
  "with_chain h f = and_then (ch_read h) (\<lambda>c. Inr (f c))"

section \<open>The memory pool handle\<close>

datatype mempool_handle_error =
    PoolLockPoisoned
  | Admission mempool_error
  | Resync chain_event_cursor_error
  | PoolOutOfFuel

type_synonym mempool_handle = "mempool rwlock"

definition mh_with_limits :: "mempool_limits \<Rightarrow> mempool_handle" where
  "mh_with_limits lim = new_lock (new_mempool lim)"

definition mh_new :: mempool_handle where
  "mh_new = mh_with_limits default_limits"

definition mh_from_mempool :: "mempool \<Rightarrow> mempool_handle" where
  "mh_from_mempool p = new_lock p"

definition mh_read :: "mempool_handle \<Rightarrow> mempool_handle_error + mempool" where
  "mh_read = read_lock PoolLockPoisoned"

definition mh_write ::
  "(mempool \<Rightarrow> (mempool_handle_error + 'a) \<times> mempool) \<Rightarrow> mempool_handle \<Rightarrow> (mempool_handle_error + 'a) \<times> mempool_handle" where
  "mh_write = write_lock PoolLockPoisoned no_panic"

definition mh_len :: "mempool_handle \<Rightarrow> mempool_handle_error + nat" where
  "mh_len h = and_then (mh_read h) (\<lambda>p. Inr (mempool_len p))"

definition mh_is_empty :: "mempool_handle \<Rightarrow> mempool_handle_error + bool" where
  "mh_is_empty h = and_then (mh_read h) (\<lambda>p. Inr (mempool_is_empty p))"

definition mh_txids :: "mempool_handle \<Rightarrow> mempool_handle_error + hash32 list" where
  "mh_txids h = and_then (mh_read h) (\<lambda>p. Inr (txids p))"

definition mh_contains :: "hash32 \<Rightarrow> mempool_handle \<Rightarrow> mempool_handle_error + bool" where
  "mh_contains tid h = and_then (mh_read h) (\<lambda>p. Inr (mempool_contains tid p))"

definition mh_get_transaction :: "hash32 \<Rightarrow> mempool_handle \<Rightarrow> mempool_handle_error + transaction option" where
  "mh_get_transaction tid h = and_then (mh_read h) (\<lambda>p. Inr (get_transaction tid p))"

definition mh_accept_tx ::
  "env \<Rightarrow> transaction \<Rightarrow> utxo_set \<Rightarrow> mempool_handle \<Rightarrow> (mempool_handle_error + accepted_tx) \<times> mempool_handle" where
  "mh_accept_tx E tx chain_utxo = mh_write (\<lambda>p. apfst (map_err Admission) (accept_tx E tx chain_utxo p))"

definition mh_apply_chain_events ::
  "env \<Rightarrow> chain_event list \<Rightarrow> chain \<Rightarrow> mempool_handle \<Rightarrow> (mempool_handle_error + unit) \<times> mempool_handle" where
  "mh_apply_chain_events E events c =
     mh_write (\<lambda>p. case apply_chain_events E events c p of None \<Rightarrow> (Inl PoolOutOfFuel, p) | Some p' \<Rightarrow> (Inr (), p'))"

definition mh_resync_to_active_chain ::
  "env \<Rightarrow> chain \<Rightarrow> u64 \<Rightarrow> mempool_handle \<Rightarrow> (mempool_handle_error + unit) \<times> mempool_handle" where
  "mh_resync_to_active_chain E c since =
     mh_write (\<lambda>p. case resync_to_active_chain E c since p of
        (_, None) \<Rightarrow> (Inl PoolOutOfFuel, p)
      | (r, Some p') \<Rightarrow> (map_err Resync r, p'))"

definition mh_serve_transaction ::
  "env \<Rightarrow> hash32 \<Rightarrow> utxo_set \<Rightarrow> mempool_handle \<Rightarrow> (mempool_handle_error + transaction option) \<times> mempool_handle" where
  "mh_serve_transaction E tid chain_utxo = mh_write (\<lambda>p. apfst Inr (serve_transaction E tid chain_utxo p))"

section \<open>What an access keeps\<close>

text \<open>
  The contract of a lock with the operations behind it: an invariant of the content that every
  operation keeps is kept by every write access, whatever it returns and also when it panics.
\<close>

locale guarded =
  fixes err :: 'e and panics :: "'e + 'a \<Rightarrow> bool" and access :: "('s \<Rightarrow> ('e + 'a) \<times> 's) \<Rightarrow> 's rwlock \<Rightarrow> ('e + 'a) \<times> 's rwlock"
  assumes access_def: "access f l = write_lock err panics f l"
begin

lemma access_cases:
  assumes "access f l = (r, l')"
  obtains "lock_poisoned l" "r = Inl err" "l' = l"
  | s' where "\<not> lock_poisoned l" "f (lock_state l) = (r, s')" "l' = \<lparr>lock_state = s', lock_poisoned = panics r\<rparr>"
  using assms by (auto simp: access_def write_lock_def read_lock_def split: if_splits prod.splits)

lemma access_keeps:
  assumes "access f l = (r, l')" and "P (lock_state l)" and "\<And>s r s'. P s \<Longrightarrow> f s = (r, s') \<Longrightarrow> P s'"
  shows "P (lock_state l')"
  using assms(2,3) by (rule_tac access_cases [OF assms(1)]) auto

lemma access_poisoned: "lock_poisoned l \<Longrightarrow> access f l = (Inl err, l)"
  by (simp add: access_def write_lock_def read_lock_def)

end

interpretation chain_lock: guarded LockPoisoned "\<lambda>r. r = Inl IndexPanic" ch_write
  by unfold_locales (simp add: ch_write_def)

interpretation pool_lock: guarded PoolLockPoisoned no_panic mh_write
  by unfold_locales (simp add: mh_write_def)

end
