(* ===== verification/Relay.thy ===== *)
theory Relay
  imports Handles NetTypes
begin

text \<open>
  \<open>crates/bitrst-net/src/relay.rs\<close>: what a node does with a message of an established peer, and the
  trackers of the requests it has made.  An \<open>Instant\<close> is a number of nanoseconds.  A panic inside
  \<open>connect_block\<close> leaves \<open>handle_block\<close> as the error \<open>IndexPanic\<close>.
\<close>

section \<open>Request trackers\<close>

record pending_request =
  requested_at :: nat

type_synonym pending_requests = "(hash32 \<times> pending_request) list"

definition live :: "nat \<Rightarrow> nat \<Rightarrow> pending_request \<Rightarrow> bool" where
  "live ttl now req \<longleftrightarrow> now - requested_at req < ttl"

definition NANOS_PER_SEC :: nat where
  "NANOS_PER_SEC = 1000000000"

record block_request_tracker =
  bt_pending :: pending_requests
  bt_max_pending :: nat
  bt_request_ttl :: nat

definition new_block_tracker :: "nat \<Rightarrow> nat \<Rightarrow> block_request_tracker" where
  "new_block_tracker mx ttl = \<lparr>bt_pending = [], bt_max_pending = mx, bt_request_ttl = ttl\<rparr>"

definition default_block_tracker :: "env \<Rightarrow> block_request_tracker" where
  "default_block_tracker E = new_block_tracker MAX_PENDING_BLOCK_REQUESTS (BLOCK_REQUEST_TTL E * NANOS_PER_SEC)"

definition bt_expire_before :: "nat \<Rightarrow> block_request_tracker \<Rightarrow> nat \<times> block_request_tracker" where
  "bt_expire_before now t =
     (let t' = t\<lparr>bt_pending := filter (\<lambda>(_, req). live (bt_request_ttl t) now req) (bt_pending t)\<rparr>
      in (length (bt_pending t'), t'))"

definition bt_mark_requested :: "hash32 \<Rightarrow> nat \<Rightarrow> block_request_tracker \<Rightarrow> bool \<times> block_request_tracker" where
  "bt_mark_requested h now t =
     (let t1 = snd (bt_expire_before now t) in
      if map_of (bt_pending t1) h \<noteq> None then (False, t1)
      else if length (bt_pending t1) \<ge> bt_max_pending t1 then (False, t1)
      else (True, t1\<lparr>bt_pending := AList.update h \<lparr>requested_at = now\<rparr> (bt_pending t1)\<rparr>))"

definition bt_clear :: "hash32 \<Rightarrow> block_request_tracker \<Rightarrow> block_request_tracker" where
  "bt_clear h t = t\<lparr>bt_pending := AList.delete h (bt_pending t)\<rparr>"

definition bt_pending_count :: "block_request_tracker \<Rightarrow> nat" where
  "bt_pending_count t = length (bt_pending t)"

record tx_request_tracker =
  tt_pending :: pending_requests
  tt_max_pending :: nat
  tt_request_ttl :: nat

definition new_tx_tracker :: "nat \<Rightarrow> nat \<Rightarrow> tx_request_tracker" where
  "new_tx_tracker mx ttl = \<lparr>tt_pending = [], tt_max_pending = mx, tt_request_ttl = ttl\<rparr>"

definition default_tx_tracker :: "env \<Rightarrow> tx_request_tracker" where
  "default_tx_tracker E = new_tx_tracker MAX_PENDING_BLOCK_REQUESTS (BLOCK_REQUEST_TTL E * NANOS_PER_SEC)"

definition tt_expire_before :: "nat \<Rightarrow> tx_request_tracker \<Rightarrow> nat \<times> tx_request_tracker" where
  "tt_expire_before now t =
     (let t' = t\<lparr>tt_pending := filter (\<lambda>(_, req). live (tt_request_ttl t) now req) (tt_pending t)\<rparr>
      in (length (tt_pending t'), t'))"

definition tt_mark_requested :: "hash32 \<Rightarrow> nat \<Rightarrow> tx_request_tracker \<Rightarrow> bool \<times> tx_request_tracker" where
  "tt_mark_requested h now t =
     (let t1 = snd (tt_expire_before now t) in
      if map_of (tt_pending t1) h \<noteq> None then (False, t1)
      else if length (tt_pending t1) \<ge> tt_max_pending t1 then (False, t1)
      else (True, t1\<lparr>tt_pending := AList.update h \<lparr>requested_at = now\<rparr> (tt_pending t1)\<rparr>))"

definition tt_clear :: "hash32 \<Rightarrow> tx_request_tracker \<Rightarrow> tx_request_tracker" where
  "tt_clear h t = t\<lparr>tt_pending := AList.delete h (tt_pending t)\<rparr>"

section \<open>State and results\<close>

record peer_relay_state =
  block_requests :: block_request_tracker
  tx_requests :: tx_request_tracker
  chain_events :: chain_event_cursor

definition with_event_cursor :: "env \<Rightarrow> chain_event_cursor \<Rightarrow> peer_relay_state" where
  "with_event_cursor E cur =
     \<lparr>block_requests = default_block_tracker E, tx_requests = default_tx_tracker E, chain_events = cur\<rparr>"

datatype relay_action =
    NoAction
  | Reply "message list"
  | Announce "inventory_vector list"

datatype relay_error =
    RelayChain chain_error
  | RelayMempool mempool_handle_error

text \<open>The two handles every task of a node shares.\<close>

record node =
  node_chain :: chain_handle
  node_mempool :: mempool_handle

section \<open>Synchronisation of the pool\<close>

definition sync_mempool ::
  "env \<Rightarrow> node \<Rightarrow> peer_relay_state \<Rightarrow> (relay_error + unit) \<times> node \<times> peer_relay_state" where
  "sync_mempool E n rs =
     (case ch_collect_events (node_chain n) (chain_events rs) of
        Inr (events, cur) \<Rightarrow>
          let rs1 = rs\<lparr>chain_events := cur\<rparr> in
          if events = [] then (Inr (), n, rs1)
          else
            (case with_chain (node_chain n) (\<lambda>c. mh_apply_chain_events E events c (node_mempool n)) of
               Inr (r, mh) \<Rightarrow> (map_err RelayMempool r, n\<lparr>node_mempool := mh\<rparr>, rs1)
             | Inl e \<Rightarrow> (Inl (RelayChain e), n, rs1))
      | Inl (EventCursorFailed _) \<Rightarrow>
          let since_seq = last_seq (chain_events rs) in
          (case ch_event_cursor (node_chain n) of
             Inl e \<Rightarrow> (Inl (RelayChain e), n, rs)
           | Inr cur \<Rightarrow>
               let rs1 = rs\<lparr>chain_events := cur\<rparr> in
               (case with_chain (node_chain n) (\<lambda>c. mh_resync_to_active_chain E c since_seq (node_mempool n)) of
                  Inr (r, mh) \<Rightarrow> (map_err RelayMempool r, n\<lparr>node_mempool := mh\<rparr>, rs1)
                | Inl e \<Rightarrow> (Inl (RelayChain e), n, rs1)))
      | Inl e \<Rightarrow> (Inl (RelayChain e), n, rs))"

section \<open>Message handlers\<close>

definition handle_tx ::
  "env \<Rightarrow> node \<Rightarrow> peer_relay_state \<Rightarrow> transaction \<Rightarrow> (relay_error + relay_action) \<times> node \<times> peer_relay_state" where
  "handle_tx E n rs tx =
     (let rs1 = rs\<lparr>tx_requests := tt_clear (txid E tx) (tx_requests rs)\<rparr> in
      case with_chain (node_chain n) (\<lambda>c. mh_accept_tx E tx (utxo c) (node_mempool n)) of
        Inl e \<Rightarrow> (Inl (RelayChain e), n, rs1)
      | Inr (r, mh) \<Rightarrow>
          (case r of
             Inr acc \<Rightarrow> Inr (Announce [\<lparr>inv_type = InvTransaction, inv_hash = accepted_txid acc\<rparr>])
           | Inl (Admission _) \<Rightarrow> Inr NoAction
           | Inl e \<Rightarrow> Inl (RelayMempool e), n\<lparr>node_mempool := mh\<rparr>, rs1))"

definition request_missing_block ::
  "chain_handle \<Rightarrow> peer_relay_state \<Rightarrow> hash32 \<Rightarrow> nat \<Rightarrow> (chain_error + relay_action) \<times> peer_relay_state" where
  "request_missing_block ch rs h now =
     (case ch_has_block h ch of
        Inl e \<Rightarrow> (Inl e, rs)
      | Inr True \<Rightarrow> (Inr NoAction, rs)
      | Inr False \<Rightarrow>
          (case bt_mark_requested h now (block_requests rs) of
             (False, t) \<Rightarrow> (Inr NoAction, rs\<lparr>block_requests := t\<rparr>)
           | (True, t) \<Rightarrow>
               (Inr (Reply [getdata_message [\<lparr>inv_type = InvBlock, inv_hash = h\<rparr>]]), rs\<lparr>block_requests := t\<rparr>)))"

definition handle_block ::
  "env \<Rightarrow> node \<Rightarrow> peer_relay_state \<Rightarrow> block \<Rightarrow> nat \<Rightarrow> (relay_error + relay_action) \<times> node \<times> peer_relay_state" where
  "handle_block E n rs b now =
     (let h = hash_block E b; parent_hash = prev_blockhash (header b) in
      case ch_connect_block E b (node_chain n) of
        (r, ch) \<Rightarrow>
          let n1 = n\<lparr>node_chain := ch\<rparr>;
              clear_rs = (\<lambda>h rs. rs\<lparr>block_requests := bt_clear h (block_requests rs)\<rparr>);
              announce = (case sync_mempool E n1 (clear_rs h rs) of
                 (Inl e, n2, rs2) \<Rightarrow> (Inl e, n2, rs2)
               | (Inr _, n2, rs2) \<Rightarrow> (Inr (Announce [\<lparr>inv_type = InvBlock, inv_hash = h\<rparr>]), n2, rs2))
          in
          (case r of
             Inr (Connected _ _) \<Rightarrow> announce
           | Inr (Reorganized _ _) \<Rightarrow> announce
           | Inr (Orphaned _) \<Rightarrow>
               (case request_missing_block ch rs parent_hash now of
                  (r', rs1) \<Rightarrow> (map_err RelayChain r', n1, rs1))
           | Inr (SideChain _ _) \<Rightarrow> (Inr NoAction, n1, rs)
           | Inl BlockAlreadyKnown \<Rightarrow> (Inr NoAction, n1, rs)
           | Inl IndexPanic \<Rightarrow> (Inl (RelayChain IndexPanic), n1, rs)
           | Inl e \<Rightarrow> (Inl (RelayChain e), n1, clear_rs parent_hash (clear_rs h rs))))"

text \<open>The loop of \<open>handle_inv\<close>; \<open>requests\<close> are the items kept so far.\<close>

fun inv_loop ::
  "node \<Rightarrow> nat \<Rightarrow> inventory_vector list \<Rightarrow> inventory_vector list \<Rightarrow> peer_relay_state \<Rightarrow>
     (relay_error + inventory_vector list) \<times> peer_relay_state" where
  "inv_loop n now [] requests rs = (Inr requests, rs)"
| "inv_loop n now (item # invs) requests rs =
     (case inv_type item of
        InvBlock \<Rightarrow>
          (case ch_has_block (inv_hash item) (node_chain n) of
             Inl e \<Rightarrow> (Inl (RelayChain e), rs)
           | Inr True \<Rightarrow> inv_loop n now invs requests rs
           | Inr False \<Rightarrow>
               (case bt_mark_requested (inv_hash item) now (block_requests rs) of
                  (False, t) \<Rightarrow> inv_loop n now invs requests (rs\<lparr>block_requests := t\<rparr>)
                | (True, t) \<Rightarrow> inv_loop n now invs (requests @ [item]) (rs\<lparr>block_requests := t\<rparr>)))
      | InvTransaction \<Rightarrow>
          (case mh_contains (inv_hash item) (node_mempool n) of
             Inl e \<Rightarrow> (Inl (RelayMempool e), rs)
           | Inr True \<Rightarrow> inv_loop n now invs requests rs
           | Inr False \<Rightarrow>
               (case tt_mark_requested (inv_hash item) now (tx_requests rs) of
                  (False, t) \<Rightarrow> inv_loop n now invs requests (rs\<lparr>tx_requests := t\<rparr>)
                | (True, t) \<Rightarrow> inv_loop n now invs (requests @ [item]) (rs\<lparr>tx_requests := t\<rparr>)))
      | InvFilteredBlock \<Rightarrow> inv_loop n now invs requests rs)"

definition handle_inv ::
  "node \<Rightarrow> peer_relay_state \<Rightarrow> inventory_vector list \<Rightarrow> nat \<Rightarrow> (relay_error + relay_action) \<times> peer_relay_state" where
  "handle_inv n rs invs now =
     (case inv_loop n now invs [] rs of
        (Inl e, rs1) \<Rightarrow> (Inl e, rs1)
      | (Inr requests, rs1) \<Rightarrow>
          (Inr (if requests = [] then NoAction else Reply [getdata_message requests]), rs1))"

text \<open>The loop of \<open>handle_getdata\<close>: the replies, and the node with the stale transactions dropped.\<close>

fun getdata_loop :: "env \<Rightarrow> inventory_vector list \<Rightarrow> message list \<Rightarrow> node \<Rightarrow> message list \<times> node" where
  "getdata_loop E [] replies n = (replies, n)"
| "getdata_loop E (item # invs) replies n =
     (case inv_type item of
        InvBlock \<Rightarrow>
          (case ch_get_block (inv_hash item) (node_chain n) of
             Inr (Some b) \<Rightarrow> getdata_loop E invs (replies @ [block_message b]) n
           | _ \<Rightarrow> getdata_loop E invs replies n)
      | InvTransaction \<Rightarrow>
          (case with_chain (node_chain n) (\<lambda>c. mh_serve_transaction E (inv_hash item) (utxo c) (node_mempool n)) of
             Inr (r, mh) \<Rightarrow>
               getdata_loop E invs (case r of Inr (Some tx) \<Rightarrow> replies @ [tx_message tx] | _ \<Rightarrow> replies)
                 (n\<lparr>node_mempool := mh\<rparr>)
           | Inl _ \<Rightarrow> getdata_loop E invs replies n)
      | InvFilteredBlock \<Rightarrow> getdata_loop E invs replies n)"

definition handle_getdata :: "env \<Rightarrow> node \<Rightarrow> inventory_vector list \<Rightarrow> relay_action \<times> node" where
  "handle_getdata E n invs =
     (case getdata_loop E invs [] n of
        (replies, n') \<Rightarrow> (if replies = [] then NoAction else Reply replies, n'))"

definition handle_peer_message ::
  "env \<Rightarrow> node \<Rightarrow> peer_relay_state \<Rightarrow> message \<Rightarrow> nat \<Rightarrow> (relay_error + relay_action) \<times> node \<times> peer_relay_state" where
  "handle_peer_message E n rs m now =
     (case payload m of
        BlockPayload b \<Rightarrow> handle_block E n rs b now
      | InvPayload invs \<Rightarrow> (case handle_inv n rs invs now of (r, rs1) \<Rightarrow> (r, n, rs1))
      | GetDataPayload invs \<Rightarrow> (case handle_getdata E n invs of (a, n1) \<Rightarrow> (Inr a, n1, rs))
      | TxPayload tx \<Rightarrow> handle_tx E n rs tx
      | VersionPayload _ \<Rightarrow> (Inr NoAction, n, rs)
      | VerackPayload \<Rightarrow> (Inr NoAction, n, rs))"

end
