(* ===== verification/Peer.thy ===== *)
theory Peer
  imports Handshake Relay
begin

text \<open>
  \<open>crates/bitrst-net/src/peer.rs\<close>: the task of one connection.  What it awaits - reads, the deadline of the
  handshake, commands - is a list of inputs in the order in which they complete; whether the queue to
  the writer task and the queue of events accept an item is given by the environment.  A task that has
  used up its inputs is still running.  A panic of the relay, which runs on the blocking pool, is the
  failure to join it.
\<close>

section \<open>Types\<close>

text \<open>A \<open>SocketAddr\<close> is the octets of its address and its port.\<close>

type_synonym socket_addr = "bytes \<times> u16"

record peer_context =
  pc_addr :: socket_addr
  pc_direction :: connection_direction
  pc_network :: p2p_network
  pc_handshake :: handshake_config
  pc_start_height :: i32
  pc_inbound_guard :: bool

definition new_context ::
  "socket_addr \<Rightarrow> connection_direction \<Rightarrow> p2p_network \<Rightarrow> handshake_config \<Rightarrow> i32 \<Rightarrow> peer_context" where
  "new_context addr dir net cfg hgt =
     \<lparr>pc_addr = addr, pc_direction = dir, pc_network = net, pc_handshake = cfg, pc_start_height = hgt,
      pc_inbound_guard = False\<rparr>"

definition with_inbound_guard :: "peer_context \<Rightarrow> peer_context" where
  "with_inbound_guard ctx = ctx\<lparr>pc_inbound_guard := True\<rparr>"

datatype peer_event =
    PeerReady socket_addr
  | PeerAnnounce socket_addr "inventory_vector list"
  | PeerDisconnected socket_addr net_error
  | RegistrationRejected socket_addr net_error

datatype peer_command = Send message | Shutdown

section \<open>The environment of a task\<close>

datatype emit_outcome = Delivered | ReceiverGone | ShutdownNotified

record peer_io =
  writer_stopped :: "nat \<Rightarrow> bool"
  emit_outcomes :: "nat \<Rightarrow> emit_outcome"

record peer_task =
  pt_context :: peer_context
  pt_handshake :: handshake_state
  pt_local_version :: version_message
  pt_relay :: peer_relay_state
  pt_sent :: "message list"
  pt_emitted :: "peer_event list"

text \<open>\<open>writer.send\<close>, and the loops that send several messages.\<close>

definition queue_message :: "peer_io \<Rightarrow> message \<Rightarrow> peer_task \<Rightarrow> (net_error + unit) \<times> peer_task" where
  "queue_message io m t =
     (if writer_stopped io (length (pt_sent t)) then (Inl OutboundQueueFull, t)
      else (Inr (), t\<lparr>pt_sent := pt_sent t @ [m]\<rparr>))"

fun queue_all :: "peer_io \<Rightarrow> message list \<Rightarrow> peer_task \<Rightarrow> (net_error + unit) \<times> peer_task" where
  "queue_all io [] t = (Inr (), t)"
| "queue_all io (m # ms) t =
     (case queue_message io m t of
        (Inl e, t1) \<Rightarrow> (Inl e, t1)
      | (Inr _, t1) \<Rightarrow> queue_all io ms t1)"

definition emit_event :: "peer_io \<Rightarrow> peer_event \<Rightarrow> peer_task \<Rightarrow> (net_error + unit) \<times> peer_task" where
  "emit_event io ev t =
     (case emit_outcomes io (length (pt_emitted t)) of
        Delivered \<Rightarrow> (Inr (), t\<lparr>pt_emitted := pt_emitted t @ [ev]\<rparr>)
      | ReceiverGone \<Rightarrow> (Inl EventQueueFull, t)
      | ShutdownNotified \<Rightarrow> (Inl ConnectionClosed, t))"

definition relay_error_to_net :: "relay_error \<Rightarrow> net_error" where
  "relay_error_to_net e = (case e of RelayChain ce \<Rightarrow> NetChain ce | RelayMempool _ \<Rightarrow> Io ''mempool relay'')"

section \<open>The task\<close>

definition start_peer :: "env \<Rightarrow> peer_context \<Rightarrow> i64 \<Rightarrow> chain_handle \<Rightarrow> net_error + peer_task" where
  "start_peer E ctx now ch =
     and_then (map_err NetChain (ch_event_cursor ch)) (\<lambda>cur.
       Inr \<lparr>pt_context = ctx, pt_handshake = new_handshake (pc_direction ctx) (pc_handshake ctx),
            pt_local_version = default_version_message (local_nonce (pc_handshake ctx)) now (pc_start_height ctx),
            pt_relay = with_event_cursor E cur, pt_sent = [], pt_emitted = []\<rparr>)"

definition greet :: "peer_io \<Rightarrow> peer_task \<Rightarrow> (net_error + unit) \<times> peer_task" where
  "greet io t =
     (if pc_direction (pt_context t) = Outbound
      then queue_all io (initial_outbound_messages (pt_handshake t) (pt_local_version t)) t
      else (Inr (), t))"

datatype handshake_read = Received "net_error + message" | DeadlineElapsed

text \<open>The loop until the handshake is established; \<open>Inr False\<close> when it still waits for a message.\<close>

fun handshake_loop :: "peer_io \<Rightarrow> handshake_read list \<Rightarrow> peer_task \<Rightarrow> (net_error + bool) \<times> peer_task" where
  "handshake_loop io [] t = (Inr (hs_phase (pt_handshake t) = Established), t)"
| "handshake_loop io (r # rs) t =
     (if hs_phase (pt_handshake t) = Established then (Inr True, t)
      else
        (case r of
           DeadlineElapsed \<Rightarrow> (Inl (HandshakeTimeout (handshake_timeout (pc_handshake (pt_context t)))), t)
         | Received (Inl e) \<Rightarrow> (Inl e, t)
         | Received (Inr m) \<Rightarrow>
             (case on_message m (if pc_direction (pt_context t) = Inbound then Some (pt_local_version t) else None)
                     (pt_handshake t) of
                (Inl e, hs) \<Rightarrow> (Inl e, t\<lparr>pt_handshake := hs\<rparr>)
              | (Inr replies, hs) \<Rightarrow>
                  (case queue_all io replies (t\<lparr>pt_handshake := hs\<rparr>) of
                     (Inl e, t1) \<Rightarrow> (Inl e, t1)
                   | (Inr _, t1) \<Rightarrow> handshake_loop io rs t1))))"

datatype peer_input =
    Commanded "peer_command option"
  | Incoming "net_error + message" nat

text \<open>One turn of the main loop; \<open>Inr True\<close> when it leaves the loop.\<close>

definition peer_turn ::
  "env \<Rightarrow> peer_io \<Rightarrow> peer_input \<Rightarrow> node \<Rightarrow> peer_task \<Rightarrow> (net_error + bool) \<times> node \<times> peer_task" where
  "peer_turn E io i n t =
     (case i of
        Commanded (Some (Send m)) \<Rightarrow>
          (case queue_message io m t of (r, t1) \<Rightarrow> (and_then r (\<lambda>_. Inr False), n, t1))
      | Commanded (Some Shutdown) \<Rightarrow> (Inr True, n, t)
      | Commanded None \<Rightarrow> (Inr True, n, t)
      | Incoming (Inl e) _ \<Rightarrow> (Inl e, n, t)
      | Incoming (Inr m) now \<Rightarrow>
          (case payload m of
             VersionPayload _ \<Rightarrow> (Inl (HandshakeViolation ''version/verack after handshake''), n, t)
           | VerackPayload \<Rightarrow> (Inl (HandshakeViolation ''version/verack after handshake''), n, t)
           | _ \<Rightarrow>
               (case handle_peer_message E n (pt_relay t) m now of
                  (r, n1, rs) \<Rightarrow>
                    if r = Inl (RelayChain IndexPanic) then (Inl TaskJoinFailed, n1, t)
                    else
                      let t1 = t\<lparr>pt_relay := rs\<rparr> in
                      (case r of
                         Inl e \<Rightarrow> (Inl (relay_error_to_net e), n1, t1)
                       | Inr NoAction \<Rightarrow> (Inr False, n1, t1)
                       | Inr (Reply ms) \<Rightarrow> (case queue_all io ms t1 of (r, t2) \<Rightarrow> (and_then r (\<lambda>_. Inr False), n1, t2))
                       | Inr (Announce invs) \<Rightarrow>
                           (case emit_event io (PeerAnnounce (pc_addr (pt_context t)) invs) t1 of
                              (r, t2) \<Rightarrow> (and_then r (\<lambda>_. Inr False), n1, t2))))))"

text \<open>Other tasks change the node between the turns: \<open>others\<close> is what they do before each.\<close>

fun peer_loop ::
  "env \<Rightarrow> peer_io \<Rightarrow> ((node \<Rightarrow> node) \<times> peer_input) list \<Rightarrow> node \<Rightarrow> peer_task \<Rightarrow> (net_error + bool) \<times> node \<times> peer_task" where
  "peer_loop E io [] n t = (Inr False, n, t)"
| "peer_loop E io ((others, i) # ins) n t =
     (case peer_turn E io i (others n) t of
        (Inr False, n1, t1) \<Rightarrow> peer_loop E io ins n1 t1
      | (r, n1, t1) \<Rightarrow> (r, n1, t1))"

definition run_peer ::
  "env \<Rightarrow> peer_io \<Rightarrow> peer_context \<Rightarrow> i64 \<Rightarrow> handshake_read list \<Rightarrow> ((node \<Rightarrow> node) \<times> peer_input) list \<Rightarrow> node \<Rightarrow>
     (net_error + bool) \<times> node \<times> message list \<times> peer_event list" where
  "run_peer E io ctx now reads ins n =
     (case start_peer E ctx now (node_chain n) of
        Inl e \<Rightarrow> (Inl e, n, [], [])
      | Inr t \<Rightarrow>
          (case greet io t of
             (Inl e, t1) \<Rightarrow> (Inl e, n, pt_sent t1, pt_emitted t1)
           | (Inr _, t1) \<Rightarrow>
               (case handshake_loop io reads t1 of
                  (Inl e, t2) \<Rightarrow> (Inl e, n, pt_sent t2, pt_emitted t2)
                | (Inr False, t2) \<Rightarrow> (Inr False, n, pt_sent t2, pt_emitted t2)
                | (Inr True, t2) \<Rightarrow>
                    (case emit_event io (PeerReady (pc_addr ctx)) t2 of
                       (Inl e, t3) \<Rightarrow> (Inl e, n, pt_sent t3, pt_emitted t3)
                     | (Inr _, t3) \<Rightarrow>
                         (case peer_loop E io ins n t3 of
                            (r, n1, t4) \<Rightarrow> (r, n1, pt_sent t4, pt_emitted t4))))))"

text \<open>The task \<open>spawn_peer\<close> starts: the events it emits, with the one that reports its failure.\<close>

definition peer_events ::
  "peer_io \<Rightarrow> socket_addr \<Rightarrow> (net_error + bool) \<times> node \<times> message list \<times> peer_event list \<Rightarrow> peer_event list" where
  "peer_events io addr run =
     (case run of
        (Inl e, _, _, evs) \<Rightarrow>
          (if emit_outcomes io (length evs) = Delivered then evs @ [PeerDisconnected addr e] else evs)
      | (Inr _, _, _, evs) \<Rightarrow> evs)"

end
