(* ===== verification/RelayTheorems.thy ===== *)
theory RelayTheorems
  imports Relay MempoolTheorems "HOL-Library.Sublist"
begin

text \<open>
  The relay over a shared node: the trackers as instances of one contract, what an inventory makes a node
  ask for, and the invariant of the node under every interleaving of the handles' operations.
\<close>

section \<open>The contract of a request tracker\<close>

lemma live_new [simp]: "live life later \<lparr>requested_at = now\<rparr> \<longleftrightarrow> later - now < life"
  by (simp add: live_def)

locale request_tracker =
  fixes pending :: "'t \<Rightarrow> pending_requests" and max_pending ttl :: "'t \<Rightarrow> nat"
    and mark :: "hash32 \<Rightarrow> nat \<Rightarrow> 't \<Rightarrow> bool \<times> 't" and forget :: "hash32 \<Rightarrow> 't \<Rightarrow> 't"
  assumes mark_limits: "mark h now t = (b, t') \<Longrightarrow> max_pending t' = max_pending t \<and> ttl t' = ttl t"
    and mark_pending: "mark h now t = (b, t') \<Longrightarrow>
      (let kept = filter (\<lambda>(_, req). live (ttl t) now req) (pending t)
       in b = (map_of kept h = None \<and> length kept < max_pending t) \<and>
          pending t' = (if b then AList.update h \<lparr>requested_at = now\<rparr> kept else kept))"
    and forget_limits: "max_pending (forget h t) = max_pending t \<and> ttl (forget h t) = ttl t"
    and forget_pending: "pending (forget h t) = AList.delete h (pending t)"
begin

definition waiting :: "nat \<Rightarrow> 't \<Rightarrow> hash32 \<Rightarrow> bool" where
  "waiting now t h \<longleftrightarrow> (\<exists>req. (h, req) \<in> set (pending t) \<and> live (ttl t) now req)"

definition waiting_count :: "nat \<Rightarrow> 't \<Rightarrow> nat" where
  "waiting_count now t = length (filter (\<lambda>(_, req). live (ttl t) now req) (pending t))"

definition tracker_ok :: "nat \<Rightarrow> nat \<Rightarrow> 't \<Rightarrow> bool" where
  "tracker_ok mx life t \<longleftrightarrow>
     max_pending t = mx \<and> ttl t = life \<and> distinct (map fst (pending t)) \<and> length (pending t) \<le> mx"

lemma kept_None_iff:
  "map_of (filter (\<lambda>(_, req). live (ttl t) now req) (pending t)) h = None \<longleftrightarrow> \<not> waiting now t h"
  by (force simp: map_of_eq_None_iff waiting_def)

lemma mark_spec:
  assumes "mark h now t = (b, t')"
  shows "b \<longleftrightarrow> \<not> waiting now t h \<and> waiting_count now t < max_pending t"
    and "0 < ttl t \<Longrightarrow> waiting now t' g \<longleftrightarrow> waiting now t g \<or> b \<and> g = h"
    and "0 < ttl t \<Longrightarrow> waiting_count now t' = waiting_count now t + (if b then 1 else 0)"
proof -
  define kept where "kept = filter (\<lambda>(_, req). live (ttl t) now req) (pending t)"
  have m: "b = (map_of kept h = None \<and> length kept < max_pending t)"
      "pending t' = (if b then AList.update h \<lparr>requested_at = now\<rparr> kept else kept)" "ttl t' = ttl t"
    using mark_pending [OF assms] mark_limits [OF assms] by (simp_all add: Let_def kept_def)
  show b: "b \<longleftrightarrow> \<not> waiting now t h \<and> waiting_count now t < max_pending t"
    using m(1) kept_None_iff by (simp add: waiting_count_def kept_def)
  have p': "pending t' = kept @ (if b then [(h, \<lparr>requested_at = now\<rparr>)] else [])"
    using m(1,2) by (auto simp: update_fresh map_of_eq_None_iff)
  have twice: "filter (\<lambda>(_, req). live (ttl t) now req) kept = kept" by (simp add: kept_def)
  show "waiting now t' g \<longleftrightarrow> waiting now t g \<or> b \<and> g = h" if "0 < ttl t"
    using that by (auto simp: waiting_def p' m(3) kept_def)
  show "waiting_count now t' = waiting_count now t + (if b then 1 else 0)" if "0 < ttl t"
    using that twice by (simp add: waiting_count_def p' m(3)) (simp add: kept_def)
qed

lemma mark_ok: "mark h now t = (b, t') \<Longrightarrow> tracker_ok mx life t \<Longrightarrow> tracker_ok mx life t'"
proof -
  assume mark: "mark h now t = (b, t')" and ok: "tracker_ok mx life t"
  define kept where "kept = filter (\<lambda>(_, req). live (ttl t) now req) (pending t)"
  have "distinct (map fst kept)" "length kept \<le> length (pending t)"
    using ok by (simp_all add: kept_def tracker_ok_def distinct_map_filter)
  then show ?thesis
    using mark_pending [OF mark] mark_limits [OF mark] ok
    by (auto simp: tracker_ok_def Let_def distinct_update update_fresh map_of_eq_None_iff simp flip: kept_def)
qed

lemma forget_ok: "tracker_ok mx life t \<Longrightarrow> tracker_ok mx life (forget h t)"
  using forget_limits [of h t] length_delete_le [of h "pending t"]
  by (auto simp: tracker_ok_def forget_pending distinct_delete)

lemma mark_time:
  assumes "mark h now t = (True, t')" and "later - now < ttl t"
  shows "waiting later t' h"
proof -
  have "(h, \<lparr>requested_at = now\<rparr>) \<in> set (pending t')"
    using mark_pending [OF assms(1)] by (auto simp: Let_def update_fresh map_of_eq_None_iff)
  then show ?thesis using assms(2) mark_limits [OF assms(1)] by (auto simp: waiting_def intro!: exI)
qed

lemma mark_keeps_waiting:
  assumes "mark g now t = (b, t')" and "waiting later t h" and "now \<le> later"
  shows "waiting later t' h"
proof -
  obtain req where req: "(h, req) \<in> set (pending t)" "live (ttl t) later req" using assms(2) by (auto simp: waiting_def)
  then have "live (ttl t) now req" using assms(3) by (auto simp: live_def)
  then show ?thesis
    using mark_pending [OF assms(1)] mark_limits [OF assms(1)] req
    by (auto simp: Let_def waiting_def update_fresh map_of_eq_None_iff)
qed

end

interpretation block_tracker: request_tracker bt_pending bt_max_pending bt_request_ttl bt_mark_requested bt_clear
  by unfold_locales (auto simp: bt_mark_requested_def bt_expire_before_def bt_clear_def Let_def not_le split: if_splits)

interpretation tx_tracker: request_tracker tt_pending tt_max_pending tt_request_ttl tt_mark_requested tt_clear
  by unfold_locales (auto simp: tt_mark_requested_def tt_expire_before_def tt_clear_def Let_def not_le split: if_splits)

section \<open>What an inventory makes a node ask for\<close>

definition request_life :: "env \<Rightarrow> nat" where
  "request_life E = BLOCK_REQUEST_TTL E * NANOS_PER_SEC"

lemma request_life_pos: "0 < request_life E"
  by (simp add: request_life_def BLOCK_REQUEST_TTL_def NANOS_PER_SEC_def)

definition relay_ok :: "env \<Rightarrow> peer_relay_state \<Rightarrow> bool" where
  "relay_ok E rs \<longleftrightarrow>
     block_tracker.tracker_ok MAX_PENDING_BLOCK_REQUESTS (request_life E) (block_requests rs) \<and>
     tx_tracker.tracker_ok MAX_PENDING_BLOCK_REQUESTS (request_life E) (tx_requests rs)"

lemma relay_ok_new: "relay_ok E (with_event_cursor E cur)"
  by (simp add: relay_ok_def with_event_cursor_def default_block_tracker_def default_tx_tracker_def new_block_tracker_def
      new_tx_tracker_def block_tracker.tracker_ok_def tx_tracker.tracker_ok_def request_life_def)

definition awaited :: "nat \<Rightarrow> peer_relay_state \<Rightarrow> inventory_vector \<Rightarrow> bool" where
  "awaited now rs i =
     (case inv_type i of
        InvBlock \<Rightarrow> block_tracker.waiting now (block_requests rs) (inv_hash i)
      | InvTransaction \<Rightarrow> tx_tracker.waiting now (tx_requests rs) (inv_hash i)
      | InvFilteredBlock \<Rightarrow> False)"

definition room :: "nat \<Rightarrow> peer_relay_state \<Rightarrow> inventory_vector \<Rightarrow> bool" where
  "room now rs i =
     (case inv_type i of
        InvBlock \<Rightarrow> block_tracker.waiting_count now (block_requests rs) < MAX_PENDING_BLOCK_REQUESTS
      | InvTransaction \<Rightarrow> tx_tracker.waiting_count now (tx_requests rs) < MAX_PENDING_BLOCK_REQUESTS
      | InvFilteredBlock \<Rightarrow> False)"

definition unknown_item :: "node \<Rightarrow> inventory_vector \<Rightarrow> bool" where
  "unknown_item n i =
     (case inv_type i of
        InvBlock \<Rightarrow> \<not> has_block_hash (lock_state (node_chain n)) (inv_hash i)
      | InvTransaction \<Rightarrow> \<not> mempool_contains (inv_hash i) (lock_state (node_mempool n))
      | InvFilteredBlock \<Rightarrow> False)"

definition ask :: "nat \<Rightarrow> inventory_vector \<Rightarrow> peer_relay_state \<Rightarrow> bool \<times> peer_relay_state" where
  "ask now i rs =
     (case inv_type i of
        InvBlock \<Rightarrow> apsnd (\<lambda>t. rs\<lparr>block_requests := t\<rparr>) (bt_mark_requested (inv_hash i) now (block_requests rs))
      | InvTransaction \<Rightarrow> apsnd (\<lambda>t. rs\<lparr>tx_requests := t\<rparr>) (tt_mark_requested (inv_hash i) now (tx_requests rs))
      | InvFilteredBlock \<Rightarrow> (False, rs))"

lemma ask_spec:
  assumes ok: "relay_ok E rs" and ask: "ask now i rs = (b, rs1)"
  shows "relay_ok E rs1" and "b \<longleftrightarrow> \<not> awaited now rs i \<and> room now rs i"
    and "awaited now rs1 j \<longleftrightarrow> awaited now rs j \<or> b \<and> j = i" and "room now rs1 j \<Longrightarrow> room now rs j"
    and "now \<le> later \<Longrightarrow> awaited later rs j \<Longrightarrow> awaited later rs1 j"
    and "b \<Longrightarrow> later - now < request_life E \<Longrightarrow> awaited later rs1 i"
proof -
  have lim: "bt_max_pending (block_requests rs) = MAX_PENDING_BLOCK_REQUESTS" "bt_request_ttl (block_requests rs) = request_life E"
      "tt_max_pending (tx_requests rs) = MAX_PENDING_BLOCK_REQUESTS" "tt_request_ttl (tx_requests rs) = request_life E"
    using ok by (simp_all add: relay_ok_def block_tracker.tracker_ok_def tx_tracker.tracker_ok_def)
  have eq: "j = i \<longleftrightarrow> inv_type j = inv_type i \<and> inv_hash j = inv_hash i" by (cases i; cases j) simp
  consider t where "inv_type i = InvBlock" "bt_mark_requested (inv_hash i) now (block_requests rs) = (b, t)"
      "rs1 = rs\<lparr>block_requests := t\<rparr>"
    | t where "inv_type i = InvTransaction" "tt_mark_requested (inv_hash i) now (tx_requests rs) = (b, t)"
      "rs1 = rs\<lparr>tx_requests := t\<rparr>"
    | "inv_type i = InvFilteredBlock" "\<not> b" "rs1 = rs"
    using ask by (cases "inv_type i") (auto simp: ask_def apsnd_def map_prod_def split: prod.splits)
  then have "relay_ok E rs1 \<and> (b \<longleftrightarrow> \<not> awaited now rs i \<and> room now rs i) \<and>
      (awaited now rs1 j \<longleftrightarrow> awaited now rs j \<or> b \<and> j = i) \<and> (room now rs1 j \<longrightarrow> room now rs j) \<and>
      (now \<le> later \<longrightarrow> awaited later rs j \<longrightarrow> awaited later rs1 j) \<and>
      (b \<longrightarrow> later - now < request_life E \<longrightarrow> awaited later rs1 i)"
  proof cases
    case (1 t)
    note m = block_tracker.mark_spec [OF 1(2)] block_tracker.mark_ok [OF 1(2)] block_tracker.mark_keeps_waiting [OF 1(2)]
    have "b \<Longrightarrow> later - now < request_life E \<Longrightarrow> block_tracker.waiting later t (inv_hash i)"
      using block_tracker.mark_time [of "inv_hash i" now "block_requests rs" t later] 1(2) lim by simp
    then show ?thesis using 1 m ok lim request_life_pos [of E] unfolding eq
      by (cases "inv_type j") (auto simp: relay_ok_def awaited_def room_def)
  next
    case (2 t)
    note m = tx_tracker.mark_spec [OF 2(2)] tx_tracker.mark_ok [OF 2(2)] tx_tracker.mark_keeps_waiting [OF 2(2)]
    have "b \<Longrightarrow> later - now < request_life E \<Longrightarrow> tx_tracker.waiting later t (inv_hash i)"
      using tx_tracker.mark_time [of "inv_hash i" now "tx_requests rs" t later] 2(2) lim by simp
    then show ?thesis using 2 m ok lim request_life_pos [of E] unfolding eq
      by (cases "inv_type j") (auto simp: relay_ok_def awaited_def room_def)
  next
    case 3
    then show ?thesis using ok by (simp add: room_def)
  qed
  then show "relay_ok E rs1" "b \<longleftrightarrow> \<not> awaited now rs i \<and> room now rs i"
    "awaited now rs1 j \<longleftrightarrow> awaited now rs j \<or> b \<and> j = i" "room now rs1 j \<Longrightarrow> room now rs j"
    "now \<le> later \<Longrightarrow> awaited later rs j \<Longrightarrow> awaited later rs1 j"
    "b \<Longrightarrow> later - now < request_life E \<Longrightarrow> awaited later rs1 i"
    by blast+
qed

lemma inv_loop_Cons:
  assumes "\<not> lock_poisoned (node_chain n)" and "\<not> lock_poisoned (node_mempool n)"
  shows "inv_loop n now (i # invs) acc rs =
    (if unknown_item n i then (case ask now i rs of (b, rs1) \<Rightarrow> inv_loop n now invs (if b then acc @ [i] else acc) rs1)
     else inv_loop n now invs acc rs)"
  using assms
  by (auto simp: unknown_item_def ask_def ch_has_block_def ch_read_def mh_contains_def mh_read_def read_lock_def
      split: inv_type.split prod.split bool.split)

text \<open>What going through \<open>invs\<close> asks for, \<open>reqs\<close>, and leaves in the trackers.\<close>

definition asked ::
  "env \<Rightarrow> node \<Rightarrow> nat \<Rightarrow> peer_relay_state \<Rightarrow> inventory_vector list \<Rightarrow> inventory_vector list \<Rightarrow> peer_relay_state \<Rightarrow> bool" where
  "asked E n now rs invs reqs rs' \<longleftrightarrow>
     relay_ok E rs' \<and> subseq reqs invs \<and> distinct reqs \<and> (\<forall>i\<in>set reqs. unknown_item n i \<and> \<not> awaited now rs i) \<and>
     (\<forall>i\<in>set invs. unknown_item n i \<and> \<not> awaited now rs i \<longrightarrow> i \<in> set reqs \<or> \<not> room now rs' i) \<and>
     (\<forall>i. room now rs' i \<longrightarrow> room now rs i) \<and>
     (\<forall>i later. now \<le> later \<and> awaited later rs i \<longrightarrow> awaited later rs' i) \<and>
     (\<forall>i\<in>set reqs. \<forall>later. now \<le> later \<and> later - now < request_life E \<longrightarrow> awaited later rs' i)"

lemma asked_skip: "asked E n now rs invs reqs rs' \<Longrightarrow> \<not> unknown_item n i \<Longrightarrow> asked E n now rs (i # invs) reqs rs'"
  unfolding asked_def set_simps ball_simps(5,7) by (elim conjE, intro conjI) (assumption | simp add: list_emb_Cons | blast)+

lemma asked_Cons:
  assumes ok: "relay_ok E rs" and ask: "ask now i rs = (b, rs1)" and "unknown_item n i" and later: "asked E n now rs1 invs reqs rs'"
  shows "asked E n now rs (i # invs) (if b then i # reqs else reqs) rs'"
proof -
  note b = ask_spec(2) [OF ok ask] and aw = ask_spec(3) [OF ok ask] and rm = ask_spec(4) [OF ok ask]
    and keep = ask_spec(5) [OF ok ask] and new = ask_spec(6) [OF ok ask]
  have l: "relay_ok E rs'" "subseq reqs invs" "distinct reqs" "\<And>j. j \<in> set reqs \<Longrightarrow> unknown_item n j \<and> \<not> awaited now rs1 j"
    "\<And>j. j \<in> set invs \<Longrightarrow> unknown_item n j \<Longrightarrow> \<not> awaited now rs1 j \<Longrightarrow> j \<in> set reqs \<or> \<not> room now rs' j"
    "\<And>j. room now rs' j \<Longrightarrow> room now rs1 j" "\<And>j t. now \<le> t \<Longrightarrow> awaited t rs1 j \<Longrightarrow> awaited t rs' j"
    "\<And>j t. j \<in> set reqs \<Longrightarrow> now \<le> t \<Longrightarrow> t - now < request_life E \<Longrightarrow> awaited t rs' j"
    using later by (auto simp: asked_def)
  have "j \<in> set (if b then i # reqs else reqs) \<or> \<not> room now rs' j"
    if "j \<in> set (i # invs)" "unknown_item n j" "\<not> awaited now rs j" for j
  proof (cases "j = i")
    case True
    then show ?thesis using that(3) b l(6) rm by auto
  next
    case False
    then have "j \<in> set invs" "\<not> awaited now rs1 j" using that aw by auto
    then show ?thesis using l(5) that(2) by auto
  qed
  moreover have "\<not> awaited now rs j" "unknown_item n j" if "j \<in> set (if b then i # reqs else reqs)" for j
    using that b aw l(4) \<open>unknown_item n i\<close> by (auto split: if_splits)
  moreover have "distinct (if b then i # reqs else reqs)" using l(3,4) aw by auto
  moreover have "awaited t rs' j"
    if "j \<in> set (if b then i # reqs else reqs)" "now \<le> t" "t - now < request_life E" for j t
    using that new l(7,8) by (auto split: if_splits)
  moreover have "subseq (if b then i # reqs else reqs) (i # invs)" using l(2) by auto
  ultimately show ?thesis unfolding asked_def using l(1) l(6) l(7) rm keep by blast
qed

lemma inv_loop_spec:
  assumes "\<not> lock_poisoned (node_chain n)" and "\<not> lock_poisoned (node_mempool n)"
    and "relay_ok E rs" and "inv_loop n now invs acc rs = (r, rs')"
  shows "\<exists>reqs. r = Inr (acc @ reqs) \<and> asked E n now rs invs reqs rs'"
  using assms(3,4)
proof (induction invs arbitrary: acc rs)
  case Nil
  then show ?case by (intro exI [of _ "[]"]) (simp add: asked_def)
next
  case (Cons i invs)
  show ?case
  proof (cases "unknown_item n i")
    case False
    then have "inv_loop n now invs acc rs = (r, rs')" using Cons.prems(2) by (simp add: inv_loop_Cons [OF assms(1,2)] del: inv_loop.simps)
    from Cons.IH [OF Cons.prems(1) this] show ?thesis using asked_skip False by blast
  next
    case True
    obtain b rs1 where ask: "ask now i rs = (b, rs1)" by fastforce
    have rest: "inv_loop n now invs (if b then acc @ [i] else acc) rs1 = (r, rs')"
      using Cons.prems(2) True by (simp add: inv_loop_Cons [OF assms(1,2)] ask del: inv_loop.simps)
    from Cons.IH [OF ask_spec(1) [OF Cons.prems(1) ask] rest] obtain reqs where
      reqs: "r = Inr ((if b then acc @ [i] else acc) @ reqs)" "asked E n now rs1 invs reqs rs'" by blast
    have "r = Inr (acc @ (if b then i # reqs else reqs))" using reqs(1) by simp
    then show ?thesis using asked_Cons [OF Cons.prems(1) ask True reqs(2)] by blast
  qed
qed

text \<open>
  C19. Inventories: an established node asks for exactly the items of an inventory it does not have and is
  not already waiting for, once each and in their order, as long as its trackers have room - at most
  256 requests of a kind wait at once - and it asks for none of them again until the time to live of
  the request has run out, whatever other inventories it receives.
\<close>

theorem inventory_requests:
  assumes "\<not> lock_poisoned (node_chain n)" and "\<not> lock_poisoned (node_mempool n)"
    and "relay_ok E rs" and "handle_inv n rs invs now = (r, rs')"
  shows "\<exists>reqs. r = Inr (if reqs = [] then NoAction else Reply [getdata_message reqs]) \<and> relay_ok E rs' \<and>
    subseq reqs invs \<and> distinct reqs \<and> (\<forall>i\<in>set reqs. unknown_item n i \<and> \<not> awaited now rs i) \<and>
    (\<forall>i\<in>set invs. unknown_item n i \<and> \<not> awaited now rs i \<longrightarrow> i \<in> set reqs \<or> \<not> room now rs' i) \<and>
    (\<forall>i\<in>set reqs. \<forall>later. now \<le> later \<and> later - now < request_life E \<longrightarrow> awaited later rs' i)"
proof -
  obtain r' rs1 where loop: "inv_loop n now invs [] rs = (r', rs1)" by fastforce
  obtain reqs where reqs: "r' = Inr reqs" "asked E n now rs invs reqs rs1"
    using inv_loop_spec [OF assms(1-3) loop] by auto
  have "r = Inr (if reqs = [] then NoAction else Reply [getdata_message reqs])" "rs' = rs1"
    using assms(4) by (simp_all add: handle_inv_def loop reqs(1))
  then show ?thesis using reqs(2) unfolding asked_def by blast
qed

theorem inventory_requests_witness:
  "\<exists>c r rs' reqs. new_genesis sample_env sample_genesis 10 = Inr c \<and>
     handle_inv \<lparr>node_chain = new_lock c, node_mempool = mh_new\<rparr> (with_event_cursor sample_env (event_cursor c))
       [\<lparr>inv_type = InvBlock, inv_hash = sample_hash 2\<rparr>, \<lparr>inv_type = InvBlock, inv_hash = sample_hash 2\<rparr>] 5 = (r, rs') \<and>
     r = Inr (if reqs = [] then NoAction else Reply [getdata_message reqs]) \<and> distinct reqs \<and> relay_ok sample_env rs'"
proof -
  obtain c where c: "new_genesis sample_env sample_genesis 10 = Inr c" using sample_genesis_chain by blast
  let ?n = "\<lparr>node_chain = new_lock c, node_mempool = mh_new\<rparr>" and ?rs = "with_event_cursor sample_env (event_cursor c)"
  let ?invs = "[\<lparr>inv_type = InvBlock, inv_hash = sample_hash 2\<rparr>, \<lparr>inv_type = InvBlock, inv_hash = sample_hash 2\<rparr>]"
  obtain r rs' where run: "handle_inv ?n ?rs ?invs 5 = (r, rs')" by fastforce
  have "\<not> lock_poisoned (node_chain ?n)" "\<not> lock_poisoned (node_mempool ?n)"
    by (simp_all add: new_lock_def mh_new_def mh_with_limits_def)
  from inventory_requests [OF this relay_ok_new run] c run show ?thesis by blast
qed

end
