(* ===== verification/NodeTheorems.thy ===== *)
theory NodeTheorems
  imports RelayTheorems
begin

text \<open>
  The chain and the memory pool of a node under its peers: what holds in every state the operations of the
  two handles can produce, in whatever order the tasks of the node perform them, and what handling a
  message does to it.
\<close>

section \<open>Reachable nodes\<close>

text \<open>
  One rule for each operation that takes a write lock.  The chain or unspent set a pool operation is
  given is arbitrary: the task that reads it may have been overtaken.
\<close>

inductive node_reach :: "env \<Rightarrow> block \<Rightarrow> mempool_limits \<Rightarrow> node \<Rightarrow> bool" for E gb lim where
  start: "ch_new_genesis E gb nt = Inr ch \<Longrightarrow> node_reach E gb lim \<lparr>node_chain = ch, node_mempool = mh_with_limits lim\<rparr>"
| connect: "node_reach E gb lim n \<Longrightarrow> ch_connect_block E b (node_chain n) = (r, ch) \<Longrightarrow> node_reach E gb lim (n\<lparr>node_chain := ch\<rparr>)"
| clock: "node_reach E gb lim n \<Longrightarrow> ch_set_network_time nt (node_chain n) = (r, ch) \<Longrightarrow> node_reach E gb lim (n\<lparr>node_chain := ch\<rparr>)"
| take: "node_reach E gb lim n \<Longrightarrow> ch_take_events (node_chain n) = (r, ch) \<Longrightarrow> node_reach E gb lim (n\<lparr>node_chain := ch\<rparr>)"
| accept: "node_reach E gb lim n \<Longrightarrow> mh_accept_tx E tx u (node_mempool n) = (r, mh) \<Longrightarrow> node_reach E gb lim (n\<lparr>node_mempool := mh\<rparr>)"
| sync: "node_reach E gb lim n \<Longrightarrow> mh_apply_chain_events E evs c (node_mempool n) = (r, mh) \<Longrightarrow> node_reach E gb lim (n\<lparr>node_mempool := mh\<rparr>)"
| resync: "node_reach E gb lim n \<Longrightarrow> mh_resync_to_active_chain E c since (node_mempool n) = (r, mh) \<Longrightarrow>
    node_reach E gb lim (n\<lparr>node_mempool := mh\<rparr>)"
| serve: "node_reach E gb lim n \<Longrightarrow> mh_serve_transaction E tid u (node_mempool n) = (r, mh) \<Longrightarrow> node_reach E gb lim (n\<lparr>node_mempool := mh\<rparr>)"

definition node_ok :: "env \<Rightarrow> block \<Rightarrow> mempool_limits \<Rightarrow> node \<Rightarrow> bool" where
  "node_ok E gb lim n \<longleftrightarrow>
     chain_reach E gb (lock_state (node_chain n)) \<and> pool_reach E lim (lock_state (node_mempool n)) \<and>
     \<not> lock_poisoned (node_mempool n)"

lemma pool_access_ok:
  assumes "mh_write f mh = (r, mh')" and "pool_reach E lim (lock_state mh)" and "\<not> lock_poisoned mh"
    and "\<And>p r p'. pool_reach E lim p \<Longrightarrow> f p = (r, p') \<Longrightarrow> pool_reach E lim p' \<and> Q r"
  shows "pool_reach E lim (lock_state mh') \<and> \<not> lock_poisoned mh' \<and> Q r"
  by (rule pool_lock.access_cases [OF assms(1)]) (use assms(2-4) in \<open>auto simp: no_panic_def\<close>)

lemma apply_events_reach:
  assumes "pool_reach E lim p"
  shows "\<exists>p'. apply_chain_events E evs c p = Some p' \<and> pool_reach E lim p'"
proof -
  obtain con dis where ev: "event_blocks c evs = (con, dis)" by fastforce
  obtain p' where "apply_chain_events E evs c p = Some p'"
    using good_synchronize [OF pool_reach_good [OF assms], of "utxo c" con dis] by (auto simp: apply_chain_events_def ev)
  then show ?thesis using reach_events [OF assms] by blast
qed

lemma resync_reach:
  assumes "pool_reach E lim p"
  shows "\<exists>r p'. resync_to_active_chain E c since p = (r, Some p') \<and> pool_reach E lim p'"
  using good_resync [OF pool_reach_good [OF assms], of c since] reach_resync [OF assms] by blast

text \<open>Every pool operation of a handle keeps the pool reachable and ends.\<close>

lemma pool_operations:
  assumes "pool_reach E lim (lock_state mh)" and "\<not> lock_poisoned mh"
  shows "mh_accept_tx E tx u mh = (r1, mh') \<Longrightarrow> pool_reach E lim (lock_state mh') \<and> \<not> lock_poisoned mh' \<and> r1 \<noteq> Inl PoolOutOfFuel"
    and "mh_apply_chain_events E evs c mh = (r2, mh') \<Longrightarrow>
      pool_reach E lim (lock_state mh') \<and> \<not> lock_poisoned mh' \<and> r2 \<noteq> Inl PoolOutOfFuel"
    and "mh_resync_to_active_chain E c since mh = (r2, mh') \<Longrightarrow>
      pool_reach E lim (lock_state mh') \<and> \<not> lock_poisoned mh' \<and> r2 \<noteq> Inl PoolOutOfFuel"
    and "mh_serve_transaction E tid u mh = (r3, mh') \<Longrightarrow>
      pool_reach E lim (lock_state mh') \<and> \<not> lock_poisoned mh' \<and> r3 \<noteq> Inl PoolOutOfFuel"
proof -
  show "pool_reach E lim (lock_state mh') \<and> \<not> lock_poisoned mh' \<and> r1 \<noteq> Inl PoolOutOfFuel"
    if "mh_accept_tx E tx u mh = (r1, mh')"
    using that unfolding mh_accept_tx_def
  proof (rule pool_access_ok [OF _ assms])
    fix p r p' assume "pool_reach E lim p" "apfst (map_err Admission) (accept_tx E tx u p) = (r, p')"
    then show "pool_reach E lim p' \<and> r \<noteq> Inl PoolOutOfFuel"
      by (cases "accept_tx E tx u p"; cases "fst (accept_tx E tx u p)") (auto intro: reach_accept)
  qed
  show "pool_reach E lim (lock_state mh') \<and> \<not> lock_poisoned mh' \<and> r2 \<noteq> Inl PoolOutOfFuel"
    if "mh_apply_chain_events E evs c mh = (r2, mh')"
    using that unfolding mh_apply_chain_events_def
  proof (rule pool_access_ok [OF _ assms])
    fix p r p' assume p: "pool_reach E lim p"
      and run: "(case apply_chain_events E evs c p of None \<Rightarrow> (Inl PoolOutOfFuel, p) | Some p' \<Rightarrow> (Inr (), p')) = (r, p')"
    obtain p0 where "apply_chain_events E evs c p = Some p0" "pool_reach E lim p0" using apply_events_reach [OF p] by blast
    then show "pool_reach E lim p' \<and> r \<noteq> Inl PoolOutOfFuel" using run by auto
  qed
  show "pool_reach E lim (lock_state mh') \<and> \<not> lock_poisoned mh' \<and> r2 \<noteq> Inl PoolOutOfFuel"
    if "mh_resync_to_active_chain E c since mh = (r2, mh')"
    using that unfolding mh_resync_to_active_chain_def
  proof (rule pool_access_ok [OF _ assms])
    fix p r p' assume p: "pool_reach E lim p"
      and run: "(case resync_to_active_chain E c since p of (_, None) \<Rightarrow> (Inl PoolOutOfFuel, p) | (r, Some p') \<Rightarrow> (map_err Resync r, p')) = (r, p')"
    obtain r0 p0 where "resync_to_active_chain E c since p = (r0, Some p0)" "pool_reach E lim p0" using resync_reach [OF p] by blast
    then show "pool_reach E lim p' \<and> r \<noteq> Inl PoolOutOfFuel" using run by (cases r0) auto
  qed
  show "pool_reach E lim (lock_state mh') \<and> \<not> lock_poisoned mh' \<and> r3 \<noteq> Inl PoolOutOfFuel"
    if "mh_serve_transaction E tid u mh = (r3, mh')"
    using that unfolding mh_serve_transaction_def
  proof (rule pool_access_ok [OF _ assms])
    fix p p' and r :: "mempool_handle_error + transaction option"
    assume "pool_reach E lim p" "apfst Inr (serve_transaction E tid u p) = (r, p')"
    then show "pool_reach E lim p' \<and> r \<noteq> Inl PoolOutOfFuel"
      by (cases "serve_transaction E tid u p") (auto intro: reach_serve)
  qed
qed

lemma chain_operations:
  assumes "chain_reach E gb (lock_state ch)"
  shows "ch_connect_block E b ch = (r1, ch') \<Longrightarrow> chain_reach E gb (lock_state ch')"
    and "ch_set_network_time nt ch = (r2, ch') \<Longrightarrow> chain_reach E gb (lock_state ch')"
    and "ch_take_events ch = (r3, ch') \<Longrightarrow> chain_reach E gb (lock_state ch')"
  by (auto simp: ch_connect_block_def ch_set_network_time_def ch_take_events_def
      elim!: chain_lock.access_keeps intro: assms reach_connect reach_clock reach_take split: sum.splits prod.splits)

lemma node_reach_ok: "node_reach E gb lim n \<Longrightarrow> node_ok E gb lim n"
proof (induction rule: node_reach.induct)
  case (start nt ch)
  then show ?case
    by (auto simp: node_ok_def ch_new_genesis_def new_genesis_def mh_with_limits_def new_lock_def and_then_Inr_iff
        intro: reach_genesis reach_new)
qed (auto simp: node_ok_def dest: chain_operations pool_operations)

section \<open>Handling a message\<close>

text \<open>
  What every handler keeps: the node stays reachable, the trackers within their bounds, no loop runs out
  of turns, and the chain's lock is poisoned exactly by a panic of \<open>connect_block\<close>.
\<close>

definition handled ::
  "env \<Rightarrow> block \<Rightarrow> mempool_limits \<Rightarrow> node \<Rightarrow> (relay_error + 'a) \<Rightarrow> node \<Rightarrow> peer_relay_state \<Rightarrow> bool" where
  "handled E gb lim n r n' rs' \<longleftrightarrow>
     node_reach E gb lim n' \<and> relay_ok E rs' \<and> r \<noteq> Inl (RelayChain OutOfFuel) \<and> r \<noteq> Inl (RelayMempool PoolOutOfFuel) \<and>
     lock_poisoned (node_chain n') = (lock_poisoned (node_chain n) \<or> r = Inl (RelayChain IndexPanic))"

lemma with_chain_cases:
  assumes "with_chain ch f = r"
  obtains "lock_poisoned ch" "r = Inl LockPoisoned" | "\<not> lock_poisoned ch" "r = Inr (f (lock_state ch))"
  using assms by (cases "lock_poisoned ch") (auto simp: with_chain_def ch_read_def read_lock_def)

lemma node_pool:
  assumes "node_reach E gb lim n"
  shows "pool_reach E lim (lock_state (node_mempool n))" "\<not> lock_poisoned (node_mempool n)"
    "chain_reach E gb (lock_state (node_chain n))"
  using node_reach_ok [OF assms] by (simp_all add: node_ok_def)

lemma relay_ok_cursor [simp]: "relay_ok E (rs\<lparr>chain_events := cur\<rparr>) = relay_ok E rs"
  by (simp add: relay_ok_def)

lemma sync_mempool_handled:
  assumes "node_reach E gb lim n" and "relay_ok E rs" and "sync_mempool E n rs = (r, n', rs')"
  shows "handled E gb lim n r n' rs' \<and> node_chain n' = node_chain n"
proof (cases "lock_poisoned (node_chain n)")
  case True
  then show ?thesis using assms
    by (auto simp: sync_mempool_def ch_collect_events_def ch_read_def read_lock_def handled_def)
next
  case False
  let ?c = "lock_state (node_chain n)" and ?mh = "node_mempool n"
  have open_ch: "ch_read (node_chain n) = Inr ?c" using False by (simp add: ch_read_def read_lock_def)
  define r1 mh1 where "r1 = (\<lambda>evs. fst (mh_apply_chain_events E evs ?c ?mh))" and "mh1 = (\<lambda>evs. snd (mh_apply_chain_events E evs ?c ?mh))"
  define r2 mh2 where "r2 = (\<lambda>since. fst (mh_resync_to_active_chain E ?c since ?mh))"
    and "mh2 = (\<lambda>since. snd (mh_resync_to_active_chain E ?c since ?mh))"
  have ev: "mh_apply_chain_events E evs ?c ?mh = (r1 evs, mh1 evs)" for evs by (simp add: r1_def mh1_def)
  have re: "mh_resync_to_active_chain E ?c since ?mh = (r2 since, mh2 since)" for since by (simp add: r2_def mh2_def)
  have "handled E gb lim n (map_err RelayMempool (r1 evs)) (n\<lparr>node_mempool := mh1 evs\<rparr>) (rs\<lparr>chain_events := cur\<rparr>)" for evs cur
    using assms(1,2) False pool_operations(2) [OF node_pool(1,2) [OF assms(1)] ev, of evs] node_reach.sync [OF assms(1) ev, of evs]
    by (cases "r1 evs") (auto simp: handled_def)
  moreover have "handled E gb lim n (map_err RelayMempool (r2 since)) (n\<lparr>node_mempool := mh2 since\<rparr>) (rs\<lparr>chain_events := cur\<rparr>)" for since cur
    using assms(1,2) False pool_operations(3) [OF node_pool(1,2) [OF assms(1)] re, of since] node_reach.resync [OF assms(1) re, of since]
    by (cases "r2 since") (auto simp: handled_def)
  moreover have "handled E gb lim n (Inr ()) n (rs\<lparr>chain_events := cur\<rparr>)" for cur
    using assms(1,2) False by (simp add: handled_def)
  ultimately show ?thesis
    using assms(3)
    by (cases "collect_events ?c (chain_events rs)")
      (auto simp: sync_mempool_def ch_collect_events_def ch_event_cursor_def with_chain_def open_ch ev re Let_def split: if_splits)
qed


lemma handle_tx_handled:
  assumes "node_reach E gb lim n" and "relay_ok E rs" and "handle_tx E n rs tx = (r, n', rs')"
  shows "handled E gb lim n r n' rs'"
proof -
  obtain r1 mh where acc: "mh_accept_tx E tx (utxo (lock_state (node_chain n))) (node_mempool n) = (r1, mh)" by fastforce
  have rs: "relay_ok E (rs\<lparr>tx_requests := tt_clear (txid E tx) (tx_requests rs)\<rparr>)"
    using assms(2) by (simp add: relay_ok_def tx_tracker.forget_ok)
  show ?thesis
    using assms rs node_reach.accept [OF assms(1) acc] pool_operations(1) [OF node_pool(1,2) [OF assms(1)] acc]
    by (auto simp: handle_tx_def Let_def with_chain_def ch_read_def read_lock_def acc handled_def
        split: if_splits sum.splits mempool_handle_error.splits)
qed

lemma request_missing_ok:
  assumes "relay_ok E rs" and "request_missing_block ch rs h now = (r, rs')"
  shows "relay_ok E rs' \<and> (r = Inl LockPoisoned \<or> (\<exists>a. r = Inr a))"
proof -
  obtain b t where m: "bt_mark_requested h now (block_requests rs) = (b, t)" by fastforce
  have "relay_ok E (rs\<lparr>block_requests := t\<rparr>)"
    using assms(1) block_tracker.mark_ok [OF m] by (simp add: relay_ok_def)
  then show ?thesis
    using assms by (auto simp: request_missing_block_def ch_has_block_def ch_read_def read_lock_def m split: if_splits bool.splits)
qed

lemma connect_poisons:
  assumes "ch_connect_block E b ch = (r, ch')"
  shows "lock_poisoned ch' = (lock_poisoned ch \<or> r = Inl IndexPanic) \<and> (lock_poisoned ch \<longrightarrow> r = Inl LockPoisoned)"
  using assms unfolding ch_connect_block_def by (rule chain_lock.access_cases) auto

lemma connect_no_fuel:
  assumes "chain_reach E gb (lock_state ch)" and "ch_connect_block E b ch = (r, ch')"
  shows "r \<noteq> Inl OutOfFuel"
  using assms(2) unfolding ch_connect_block_def
  by (rule chain_lock.access_cases) (use connect_block_ok [OF chain_reach_ok [OF assms(1)]] in auto)

lemma handle_block_handled:
  assumes "node_reach E gb lim n" and "relay_ok E rs" and "handle_block E n rs b now = (r, n', rs')"
  shows "handled E gb lim n r n' rs'"
proof -
  obtain rc ch where run: "ch_connect_block E b (node_chain n) = (rc, ch)" by fastforce
  define n1 where "n1 = n\<lparr>node_chain := ch\<rparr>"
  have n1: "node_reach E gb lim n1" using node_reach.connect [OF assms(1) run] by (simp add: n1_def)
  have clear: "relay_ok E (rs\<lparr>block_requests := bt_clear h (block_requests rs)\<rparr>)" if "relay_ok E rs" for rs h
    using that by (simp add: relay_ok_def block_tracker.forget_ok)
  have both: "relay_ok E (rs\<lparr>block_requests := bt_clear g (bt_clear h (block_requests rs))\<rparr>)" for g h
    using assms(2) by (simp add: relay_ok_def block_tracker.forget_ok)
  note poison = connect_poisons [OF run] and fuel = connect_no_fuel [OF node_pool(3) [OF assms(1)] run]
  have same: "node_chain n1 = ch" by (simp add: n1_def)
  let ?rs1 = "rs\<lparr>block_requests := bt_clear (hash_block E b) (block_requests rs)\<rparr>"
  obtain rm rs2 where miss: "request_missing_block (node_chain n1) rs (prev_blockhash (header b)) now = (rm, rs2)" by fastforce
  note miss_ok = request_missing_ok [OF assms(2) miss]
  obtain s n2 rs3 where sy: "sync_mempool E n1 ?rs1 = (s, n2, rs3)" by (metis prod_cases3)
  note sync_ok = sync_mempool_handled [OF n1 clear [OF assms(2)] sy]
  show ?thesis
  proof (cases rc)
    case (Inr res)
    then show ?thesis
      using assms(2,3) poison sync_ok miss miss_ok n1 same
      by (cases res; cases s) (auto simp: handle_block_def Let_def run handled_def sy simp flip: n1_def)
  next
    case (Inl e)
    then show ?thesis
      using assms(2,3) poison fuel n1 both same
      by (cases e) (auto simp: handle_block_def Let_def run handled_def simp flip: n1_def)
  qed
qed

lemma getdata_handled:
  assumes "node_reach E gb lim n" and "getdata_loop E invs acc n = (replies, n')"
  shows "node_reach E gb lim n' \<and> node_chain n' = node_chain n"
  using assms
proof (induction invs arbitrary: acc n)
  case (Cons i invs)
  obtain r mh where sv: "mh_serve_transaction E (inv_hash i) (utxo (lock_state (node_chain n))) (node_mempool n) = (r, mh)"
    by fastforce
  have "\<exists>acc1 n1. getdata_loop E (i # invs) acc n = getdata_loop E invs acc1 n1 \<and> (n1 = n \<or> n1 = n\<lparr>node_mempool := mh\<rparr>)"
    by (auto simp: with_chain_def ch_read_def read_lock_def sv split: inv_type.split sum.split option.split)
  then obtain acc1 n1 where "getdata_loop E invs acc1 n1 = (replies, n')" "n1 = n \<or> n1 = n\<lparr>node_mempool := mh\<rparr>"
    using Cons.prems(2) by auto
  then show ?case using Cons.IH [of n1 acc1] Cons.prems(1) node_reach.serve [OF Cons.prems(1) sv] by auto
qed simp

lemma inv_loop_ok:
  "relay_ok E rs \<Longrightarrow> inv_loop n now invs acc rs = (r, rs') \<Longrightarrow>
     relay_ok E rs' \<and> (r = Inl (RelayChain LockPoisoned) \<or> r = Inl (RelayMempool PoolLockPoisoned) \<or> (\<exists>reqs. r = Inr reqs))"
proof (induction invs arbitrary: acc rs)
  case (Cons i invs)
  obtain b rs1 where ask: "ask now i rs = (b, rs1)" by fastforce
  have "r = Inl (RelayChain LockPoisoned) \<and> rs' = rs \<or> r = Inl (RelayMempool PoolLockPoisoned) \<and> rs' = rs \<or>
      inv_loop n now invs acc rs = (r, rs') \<or> (\<exists>acc1. inv_loop n now invs acc1 rs1 = (r, rs'))"
    using Cons.prems(2) ask
    by (cases "lock_poisoned (node_chain n)"; cases "lock_poisoned (node_mempool n)")
      (auto simp: ask_def ch_has_block_def ch_read_def mh_contains_def mh_read_def read_lock_def
        split: inv_type.splits prod.splits bool.splits)
  then show ?case using Cons.IH Cons.prems(1) ask_spec(1) [OF Cons.prems(1) ask] by auto
qed auto

lemma message_handled:
  assumes "node_reach E gb lim n" and "relay_ok E rs" and "handle_peer_message E n rs m now = (r, n', rs')"
  shows "handled E gb lim n r n' rs'"
proof (cases "payload m")
  case (InvPayload invs)
  obtain r1 rs1 where loop: "inv_loop n now invs [] rs = (r1, rs1)" by fastforce
  have inv: "handle_inv n rs invs now = (r, rs')" "n' = n"
    using assms(3) InvPayload by (auto simp: handle_peer_message_def split: prod.splits)
  show ?thesis
    using inv inv_loop_ok [OF assms(2) loop] assms(1) node_pool(2) [OF assms(1)]
    by (cases r1) (auto simp: handle_inv_def loop handled_def)
next
  case (GetDataPayload invs)
  obtain replies n1 where loop: "getdata_loop E invs [] n = (replies, n1)" by fastforce
  show ?thesis
    using getdata_handled [OF assms(1) loop] assms(2,3) GetDataPayload
    by (auto simp: handle_peer_message_def handle_getdata_def loop handled_def)
qed (use assms handle_block_handled [OF assms(1,2)] handle_tx_handled [OF assms(1,2)] in
    \<open>auto simp: handle_peer_message_def handled_def\<close>)

text \<open>
  C16. A message never breaks the node: from every state the operations of the handles can produce,
  handling any message leaves such a state - the chain reachable from its genesis, the pool reachable from
  the empty one - with the trackers within their bounds; it always ends, without running out of the
  turns its loops are given; and the chain becomes unusable (its lock poisoned) only when
  \<open>connect_block\<close> panics on the message.
\<close>

theorem message_keeps_node:
  assumes "node_reach E gb lim n" and "relay_ok E rs" and "handle_peer_message E n rs m now = (r, n', rs')"
  shows "node_reach E gb lim n' \<and> relay_ok E rs' \<and>
    chain_reach E gb (lock_state (node_chain n')) \<and> pool_reach E lim (lock_state (node_mempool n')) \<and>
    r \<noteq> Inl (RelayChain OutOfFuel) \<and> r \<noteq> Inl (RelayMempool PoolOutOfFuel) \<and>
    lock_poisoned (node_chain n') = (lock_poisoned (node_chain n) \<or> r = Inl (RelayChain IndexPanic)) \<and>
    \<not> lock_poisoned (node_mempool n')"
  using message_handled [OF assms] node_pool by (auto simp: handled_def)

section \<open>The pool follows the chain\<close>












section \<open>A concrete node\<close>

definition sample_node :: "chain \<Rightarrow> node" where
  "sample_node c = \<lparr>node_chain = new_lock c, node_mempool = mh_new\<rparr>"

lemma sample_node_reach:
  "new_genesis sample_env sample_genesis 10 = Inr c \<Longrightarrow> node_reach sample_env sample_genesis default_limits (sample_node c)"
  using node_reach.start [of sample_env sample_genesis 10 "new_lock c"] by (simp add: sample_node_def mh_new_def ch_new_genesis_def)



theorem message_keeps_node_witness:
  "\<exists>c r n' rs'. new_genesis sample_env sample_genesis 10 = Inr c \<and>
     handle_peer_message sample_env (sample_node c) (with_event_cursor sample_env (event_cursor c)) (block_message sample_child) 5 =
       (r, n', rs') \<and>
     node_reach sample_env sample_genesis default_limits n' \<and> \<not> lock_poisoned (node_mempool n')"
proof -
  obtain c where c: "new_genesis sample_env sample_genesis 10 = Inr c" using sample_genesis_chain by blast
  obtain r n' rs' where "handle_peer_message sample_env (sample_node c) (with_event_cursor sample_env (event_cursor c))
      (block_message sample_child) 5 = (r, n', rs')" by (metis prod_cases3)
  with message_keeps_node [OF sample_node_reach [OF c] relay_ok_new this] c show ?thesis by blast
qed

end
