(* ===== verification/PeerTheorems.thy ===== *)
theory PeerTheorems
  imports Peer NodeTheorems
begin

text \<open>The properties of a connection's task: what makes a peer ready, and what the task keeps of the node.\<close>

section \<open>Sending\<close>

definition all_works :: peer_io where
  "all_works = \<lparr>writer_stopped = (\<lambda>_. False), emit_outcomes = (\<lambda>_. Delivered)\<rparr>"

lemma queue_all_works: "queue_all all_works ms t = (Inr (), t\<lparr>pt_sent := pt_sent t @ ms\<rparr>)"
  by (induction ms arbitrary: t) (simp_all add: queue_message_def all_works_def)

lemma queue_all_Inr: "queue_all io ms t = (Inr u, t') \<Longrightarrow> t' = t\<lparr>pt_sent := pt_sent t @ ms\<rparr>"
proof (induction ms arbitrary: t)
  case (Cons m ms)
  then have "queue_all io ms (t\<lparr>pt_sent := pt_sent t @ [m]\<rparr>) = (Inr u, t')"
    by (auto simp: queue_message_def split: if_splits)
  from Cons.IH [OF this] show ?case by simp
qed simp

lemma queue_all_grows:
  "queue_all io ms t = (r, t') \<Longrightarrow> (\<exists>more_sent. pt_sent t' = pt_sent t @ more_sent) \<and> pt_emitted t' = pt_emitted t \<and>
     pt_context t' = pt_context t \<and> pt_relay t' = pt_relay t"
proof (induction ms arbitrary: t)
  case (Cons m ms)
  show ?case
  proof (cases "writer_stopped io (length (pt_sent t))")
    case False
    then have "queue_all io ms (t\<lparr>pt_sent := pt_sent t @ [m]\<rparr>) = (r, t')"
      using Cons.prems by (simp add: queue_message_def)
    from Cons.IH [OF this] show ?thesis by auto
  qed (use Cons.prems in \<open>simp add: queue_message_def\<close>)
qed simp

section \<open>The handshake of a task\<close>

definition proves_identity :: "u64 \<Rightarrow> handshake_read list \<Rightarrow> version_message \<Rightarrow> bool" where
  "proves_identity nonce0 reads v \<longleftrightarrow>
     (\<exists>m1 m2 later. reads = Received (Inr m1) # Received (Inr m2) # later \<and> payload m1 = VersionPayload v \<and>
        vm_nonce v \<noteq> nonce0 \<and> payload m2 = VerackPayload)"

definition fresh_task :: "peer_task \<Rightarrow> bool" where
  "fresh_task t \<longleftrightarrow>
     pt_handshake t = new_handshake (pc_direction (pt_context t)) (pc_handshake (pt_context t)) \<and>
     pt_sent t = (case pc_direction (pt_context t) of Outbound \<Rightarrow> [version_message_of (pt_local_version t)] | Inbound \<Rightarrow> [])"

text \<open>After the version: a verack, and nothing else, establishes the connection.\<close>

lemma await_verack:
  assumes "hs_phase (pt_handshake t) = AwaitingVerack"
  shows "handshake_loop io reads t = (Inr True, t') \<longleftrightarrow>
    (\<exists>m later. reads = Received (Inr m) # later \<and> payload m = VerackPayload) \<and>
    t' = t\<lparr>pt_handshake := (pt_handshake t)\<lparr>hs_phase := Established\<rparr>\<rparr>"
proof (cases reads)
  case (Cons r rs)
  show ?thesis
  proof (cases r)
    case (Received x)
    show ?thesis
    proof (cases x)
      case (Inr m)
      then show ?thesis using assms Received Cons
        by (cases "payload m"; cases rs) (auto simp: on_message_def)
    qed (use assms Received Cons in simp)
  qed (use assms Cons in simp)
qed (use assms in simp)

lemma handshake_first:
  assumes "fresh_task t" and "handshake_loop io (r # rs) t = (Inr True, t')"
  obtains m v t1 where "r = Received (Inr m)" "payload m = VersionPayload v"
    "vm_nonce v \<noteq> local_nonce (pc_handshake (pt_context t))"
    "handshake_loop io rs t1 = (Inr True, t')" "hs_phase (pt_handshake t1) = AwaitingVerack"
    "pt_sent t1 = [version_message_of (pt_local_version t), verack_message]" "pt_emitted t1 = pt_emitted t"
    "pt_context t1 = pt_context t" "pt_relay t1 = pt_relay t"
proof (cases r)
  case (Received x)
  have ph: "hs_phase (pt_handshake t) \<noteq> Established"
    using assms(1) by (simp add: fresh_task_def new_handshake_def split: connection_direction.splits)
  show thesis
  proof (cases x)
    case (Inr m)
    let ?out = "on_message m (if pc_direction (pt_context t) = Inbound then Some (pt_local_version t) else None) (pt_handshake t)"
    obtain replies hs t1 where step: "?out = (Inr replies, hs)" "queue_all io replies (t\<lparr>pt_handshake := hs\<rparr>) = (Inr (), t1)"
        "handshake_loop io rs t1 = (Inr True, t')"
      using assms(2) ph Received Inr by (auto split: prod.splits sum.splits)
    obtain v where v: "payload m = VersionPayload v" "vm_nonce v \<noteq> local_nonce (pc_handshake (pt_context t))"
        "hs_phase hs = AwaitingVerack"
        "pt_sent t @ replies = [version_message_of (pt_local_version t), verack_message]"
      using step(1) assms(1)
      by (cases "payload m")
        (auto simp: fresh_task_def new_handshake_def on_message_def validate_peer_version_def Let_def
          split: connection_direction.splits if_splits)
    show thesis using that [OF _ v(1,2) step(3)] queue_all_Inr [OF step(2)] v(3,4) Received Inr by simp
  qed (use assms(2) ph Received in simp)
qed (use assms in \<open>auto simp: fresh_task_def new_handshake_def split: connection_direction.splits\<close>)

lemma handshake_established:
  assumes "fresh_task t" and "handshake_loop io reads t = (Inr True, t')"
  shows "(\<exists>v. proves_identity (local_nonce (pc_handshake (pt_context t))) reads v) \<and>
    pt_sent t' = [version_message_of (pt_local_version t), verack_message] \<and> pt_emitted t' = pt_emitted t \<and>
    pt_context t' = pt_context t \<and> pt_relay t' = pt_relay t"
proof (cases reads)
  case Nil
  then show ?thesis using assms
    by (simp add: fresh_task_def new_handshake_def split: connection_direction.splits)
next
  case (Cons r rs)
  show ?thesis
  proof (rule handshake_first [OF assms(1) assms(2) [unfolded Cons]], goal_cases)
    case (1 m v t1)
    then show ?thesis using Cons await_verack [OF 1(5), of io rs t'] by (auto simp: proves_identity_def)
  qed
qed

lemma handshake_works:
  assumes "fresh_task t" and "proves_identity (local_nonce (pc_handshake (pt_context t))) reads v"
  shows "\<exists>t'. handshake_loop all_works reads t = (Inr True, t') \<and> pt_emitted t' = pt_emitted t"
proof -
  obtain m1 m2 later where r: "reads = Received (Inr m1) # Received (Inr m2) # later" "payload m1 = VersionPayload v"
      "vm_nonce v \<noteq> local_nonce (pc_handshake (pt_context t))" "payload m2 = VerackPayload"
    using assms(2) by (auto simp: proves_identity_def)
  define rest2 where "rest2 = Received (Inr m2) # later"
  have "\<exists>t1. handshake_loop all_works reads t = handshake_loop all_works rest2 t1 \<and>
      hs_phase (pt_handshake t1) = AwaitingVerack \<and> pt_emitted t1 = pt_emitted t"
    using assms(1) r(2,3) unfolding r(1) rest2_def [symmetric]
    by (auto simp: fresh_task_def new_handshake_def on_message_def validate_peer_version_def Let_def queue_all_works
        simp del: queue_all.simps split: connection_direction.splits)
  then show ?thesis using r(4) await_verack [of _ all_works rest2] by (fastforce simp: rest2_def)
qed

lemma greet_fresh:
  assumes "start_peer E ctx now ch = Inr t" and "greet io t = (Inr u, t1)"
  shows "fresh_task t1 \<and> pt_context t1 = ctx \<and> pt_emitted t1 = [] \<and>
    pt_local_version t1 = default_version_message (local_nonce (pc_handshake ctx)) now (pc_start_height ctx)"
proof -
  have t: "pt_context t = ctx" "pt_emitted t = []" "pt_sent t = []" "pt_handshake t = new_handshake (pc_direction ctx) (pc_handshake ctx)"
    "pt_local_version t = default_version_message (local_nonce (pc_handshake ctx)) now (pc_start_height ctx)"
    using assms(1) by (auto simp: start_peer_def and_then_Inr_iff)
  show ?thesis
  proof (cases "pc_direction ctx")
    case Outbound
    then have "queue_all io [version_message_of (pt_local_version t)] t = (Inr u, t1)"
      using assms(2) t by (simp add: greet_def initial_outbound_messages_def new_handshake_def del: queue_all.simps)
    from queue_all_Inr [OF this] show ?thesis using t Outbound by (simp add: fresh_task_def)
  next
    case Inbound
    then have "t1 = t" using assms(2) t by (simp add: greet_def)
    then show ?thesis using t Inbound by (simp add: fresh_task_def)
  qed
qed

section \<open>The main loop\<close>

text \<open>What the turns of the main loop keep: they only announce, and only add to what has been sent.\<close>

definition continues :: "peer_task \<Rightarrow> peer_task \<Rightarrow> bool" where
  "continues t t' \<longleftrightarrow>
     pt_context t' = pt_context t \<and> (\<exists>ms. pt_sent t' = pt_sent t @ ms) \<and>
     (\<exists>invss. pt_emitted t' = pt_emitted t @ map (PeerAnnounce (pc_addr (pt_context t))) invss)"

lemma continues_refl [simp]: "continues t t"
  by (auto simp: continues_def intro: exI [of _ "[]"])

lemma continues_relay [simp]: "continues t (t\<lparr>pt_relay := rs\<rparr>)" "continues (t\<lparr>pt_relay := rs\<rparr>) t' = continues t t'"
  by (auto simp: continues_def intro: exI [of _ "[]"])

lemma continues_trans: "continues t t1 \<Longrightarrow> continues t1 t2 \<Longrightarrow> continues t t2"
  by (force simp: continues_def simp flip: map_append)

lemma queue_message_continues: "queue_message io m t = (r, t') \<Longrightarrow> continues t t' \<and> pt_relay t' = pt_relay t"
  by (auto simp: queue_message_def continues_def split: if_splits intro: exI [of _ "[]"])

lemma queue_all_continues: "queue_all io ms t = (r, t') \<Longrightarrow> continues t t' \<and> pt_relay t' = pt_relay t"
  using queue_all_grows [of io ms t r t'] by (auto simp: continues_def intro: exI [of _ "[]"])

lemma emit_announce_continues:
  "emit_event io (PeerAnnounce (pc_addr (pt_context t)) invs) t = (r, t') \<Longrightarrow> continues t t' \<and> pt_relay t' = pt_relay t"
  by (auto simp: emit_event_def continues_def split: emit_outcome.splits intro: exI [of _ "[]"] exI [of _ "[invs]"])

lemma peer_turn_keeps:
  assumes "node_reach E gb lim n" and "relay_ok E (pt_relay t)" and "peer_turn E io i n t = (r, n', t')"
  shows "node_reach E gb lim n' \<and> relay_ok E (pt_relay t') \<and> continues t t'"
proof (cases i)
  case (Commanded c)
  then show ?thesis using assms queue_message_continues [of io _ t]
    by (auto simp: peer_turn_def split: option.splits peer_command.splits prod.splits)
next
  case (Incoming x now)
  show ?thesis
  proof (cases x)
    case (Inl e)
    then show ?thesis using assms Incoming by (simp add: peer_turn_def)
  next
    case (Inr m)
    obtain r1 n1 rs where h: "handle_peer_message E n (pt_relay t) m now = (r1, n1, rs)" by (metis prod_cases3)
    have ok: "node_reach E gb lim n1" "relay_ok E rs"
      using message_handled [OF assms(1,2) h] by (simp_all add: handled_def)
    have same: "continues t (t\<lparr>pt_relay := rs\<rparr>)" by (auto simp: continues_def intro: exI [of _ "[]"])
    have "t' = t \<and> n' \<in> {n, n1} \<or> n' = n1 \<and> pt_relay t' = rs \<and> continues (t\<lparr>pt_relay := rs\<rparr>) t'"
      using assms(3) Incoming Inr h queue_all_continues [of io _ "t\<lparr>pt_relay := rs\<rparr>"]
        emit_announce_continues [of io "t\<lparr>pt_relay := rs\<rparr>"]
      by (auto simp: peer_turn_def Let_def split: message_payload.splits sum.splits relay_action.splits prod.splits if_splits)
    then show ?thesis using assms(1,2) ok same continues_trans [of t _ t'] by auto
  qed
qed

lemma peer_loop_keeps:
  assumes "node_reach E gb lim n" and "relay_ok E (pt_relay t)" and "peer_loop E io ins n t = (r, n', t')"
    and "\<forall>(others, i)\<in>set ins. \<forall>n. node_reach E gb lim n \<longrightarrow> node_reach E gb lim (others n)"
  shows "node_reach E gb lim n' \<and> continues t t'"
  using assms
proof (induction ins arbitrary: n t)
  case (Cons x ins)
  obtain others i where x: "x = (others, i)" by (cases x)
  obtain r1 n1 t1 where turn: "peer_turn E io i (others n) t = (r1, n1, t1)" by (metis prod_cases3)
  have "node_reach E gb lim (others n)" using Cons.prems(1,4) by (auto simp: x)
  note keeps = peer_turn_keeps [OF this Cons.prems(2) turn]
  show ?case
  proof (cases "r1 = Inr False")
    case True
    then have "peer_loop E io ins n1 t1 = (r, n', t')" using Cons.prems(3) turn by (simp add: x)
    then show ?thesis using Cons.IH [of n1 t1] keeps Cons.prems(4) continues_trans by auto
  next
    case False
    then show ?thesis using Cons.prems(3) turn keeps by (auto simp: x split: sum.splits bool.splits)
  qed
qed simp

lemma peer_turn_continues: "peer_turn E io i n t = (r, n', t') \<Longrightarrow> continues t t'"
proof -
  assume turn: "peer_turn E io i n t = (r, n', t')"
  show ?thesis
    using turn queue_message_continues [of io _ t] queue_all_continues [of io _ "t\<lparr>pt_relay := _\<rparr>"]
      emit_announce_continues [of io "t\<lparr>pt_relay := _\<rparr>"]
    by (auto simp: peer_turn_def Let_def
        split: message_payload.splits sum.splits relay_action.splits prod.splits if_splits
          peer_input.splits option.splits peer_command.splits)
qed

lemma peer_loop_continues: "peer_loop E io ins n t = (r, n', t') \<Longrightarrow> continues t t'"
proof (induction ins arbitrary: n t)
  case (Cons x ins)
  obtain others i where x: "x = (others, i)" by (cases x)
  obtain r1 n1 t1 where turn: "peer_turn E io i (others n) t = (r1, n1, t1)" by (metis prod_cases3)
  show ?case
    using Cons.prems Cons.IH [of n1 t1] peer_turn_continues [OF turn] turn continues_trans [of t t1 t']
    by (auto simp: x split: sum.splits bool.splits)
qed simp

lemma handshake_loop_emits: "handshake_loop io reads t = (r, t') \<Longrightarrow> pt_emitted t' = pt_emitted t"
proof (induction reads arbitrary: t)
  case (Cons x reads)
  show ?case
  proof (cases "hs_phase (pt_handshake t) = Established \<or> (\<nexists>m. x = Received (Inr m))")
    case True
    then show ?thesis using Cons.prems by (cases x) (auto split: if_splits sum.splits)
  next
    case False
    then obtain m where m: "x = Received (Inr m)" by blast
    obtain o1 hs where om: "on_message m (if pc_direction (pt_context t) = Inbound then Some (pt_local_version t) else None)
        (pt_handshake t) = (o1, hs)" by fastforce
    show ?thesis
    proof (cases o1)
      case (Inr replies)
      obtain q t1 where q: "queue_all io replies (t\<lparr>pt_handshake := hs\<rparr>) = (q, t1)" by fastforce
      show ?thesis using Cons False m om Inr q queue_all_grows [OF q] by (auto split: sum.splits)
    qed (use Cons.prems False m om in auto)
  qed
qed simp

section \<open>Ready peers\<close>

text \<open>
  C20. Who becomes ready: a connection's task reports its peer ready only after the peer has sent exactly a
  version with a nonce other than the task's own and then a verack; the first event is that report, every
  later one an announcement of this peer; the task has then sent its version and a verack before
  anything else; and when queues accept what it sends, such a peer does become ready.
\<close>

theorem ready_after_handshake:
  assumes "run_peer E io ctx now reads ins n = (r, n', sent, evs)"
  shows "(evs \<noteq> [] \<longrightarrow>
      (\<exists>v. proves_identity (local_nonce (pc_handshake ctx)) reads v) \<and>
      (\<exists>invss. evs = PeerReady (pc_addr ctx) # map (PeerAnnounce (pc_addr ctx)) invss) \<and>
      (\<exists>ms. sent = [version_message_of (default_version_message (local_nonce (pc_handshake ctx)) now (pc_start_height ctx)),
         verack_message] @ ms)) \<and>
    (io = all_works \<and> \<not> lock_poisoned (node_chain n) \<and> (\<exists>v. proves_identity (local_nonce (pc_handshake ctx)) reads v) \<longrightarrow> evs \<noteq> [])"
proof (cases "start_peer E ctx now (node_chain n)")
  case (Inl e)
  then show ?thesis using assms
    by (auto simp: run_peer_def start_peer_def and_then_Inl_iff ch_event_cursor_def ch_read_def read_lock_def split: if_splits)
next
  case (Inr t)
  obtain g t1 where g: "greet io t = (g, t1)" by fastforce
  show ?thesis
  proof (cases g)
    case (Inl e)
    have "pt_emitted t1 = []" using g Inr queue_all_grows [of io]
      by (auto simp: greet_def start_peer_def and_then_Inr_iff split: if_splits)
    moreover have "io \<noteq> all_works" using g Inl by (auto simp: greet_def queue_all_works split: if_splits)
    ultimately show ?thesis using assms Inr g Inl by (auto simp: run_peer_def)
  next
    case ok: (Inr u)
    note fresh = greet_fresh [OF Inr g [unfolded ok]]
    obtain h t2 where hs: "handshake_loop io reads t1 = (h, t2)" by fastforce
    show ?thesis
    proof (cases "h = Inr True")
      case True
      note est = handshake_established [OF conjunct1 [OF fresh] hs [unfolded True]]
      obtain m t3 where em: "emit_event io (PeerReady (pc_addr ctx)) t2 = (m, t3)" by fastforce
      obtain r4 n4 t4 where loop: "peer_loop E io ins n t3 = (r4, n4, t4)" by (metis prod_cases3)
      have t3: "m = Inr () \<Longrightarrow> t3 = t2\<lparr>pt_emitted := [PeerReady (pc_addr ctx)]\<rparr>" "m \<noteq> Inr () \<Longrightarrow> t3 = t2"
        "io = all_works \<Longrightarrow> m = Inr ()"
        using em est fresh by (auto simp: emit_event_def all_works_def split: emit_outcome.splits)
      have evs: "evs = (if m = Inr () then pt_emitted t4 else [])" "m = Inr () \<Longrightarrow> sent = pt_sent t4"
        using assms Inr g ok hs True em loop t3 est fresh by (auto simp: run_peer_def split: sum.splits)
      show ?thesis using evs t3 est fresh peer_loop_continues [OF loop] by (auto simp: continues_def)
    next
      case False
      then have "evs = pt_emitted t2" using assms Inr g ok hs by (auto simp: run_peer_def split: sum.splits bool.splits)
      moreover have "pt_emitted t2 = []" using handshake_loop_emits [OF hs] fresh by simp
      moreover have "io = all_works \<Longrightarrow> \<not> (\<exists>v. proves_identity (local_nonce (pc_handshake ctx)) reads v)"
        using handshake_works [OF conjunct1 [OF fresh]] fresh hs False by fastforce
      ultimately show ?thesis by blast
    qed
  qed
qed

definition sample_reads :: "handshake_read list" where
  "sample_reads = [Received (Inr (version_message_of (default_version_message 20 0 0))), Received (Inr verack_message)]"

definition sample_context :: peer_context where
  "sample_context = new_context ([127, 0, 0, 1], 8333) Inbound P2PTestnet (default_config sample_env 10) 0"

theorem ready_after_handshake_witness:
  "\<exists>c r n' sent evs invss. new_genesis sample_env sample_genesis 10 = Inr c \<and>
     run_peer sample_env all_works sample_context 0 sample_reads [] (sample_node c) = (r, n', sent, evs) \<and>
     evs = PeerReady ([127, 0, 0, 1], 8333) # map (PeerAnnounce ([127, 0, 0, 1], 8333)) invss"
proof -
  obtain c where c: "new_genesis sample_env sample_genesis 10 = Inr c" using sample_genesis_chain by blast
  obtain r n' sent evs where run: "run_peer sample_env all_works sample_context 0 sample_reads [] (sample_node c) = (r, n', sent, evs)"
    by (metis prod_cases4)
  have "proves_identity (local_nonce (pc_handshake sample_context)) sample_reads (default_version_message 20 0 0)"
    by (simp add: proves_identity_def sample_reads_def sample_context_def new_context_def default_config_def
        version_message_of_def verack_message_def default_version_message_def)
  moreover have "\<not> lock_poisoned (node_chain (sample_node c))" by (simp add: sample_node_def new_lock_def)
  ultimately have "\<exists>invss. evs = PeerReady (pc_addr sample_context) # map (PeerAnnounce (pc_addr sample_context)) invss"
    using ready_after_handshake [OF run] by blast
  then show ?thesis using c run by (auto simp: sample_context_def new_context_def)
qed

text \<open>A whole task keeps the node, whatever its peer sends and whatever the other tasks do in between.\<close>

theorem run_peer_keeps_node:
  assumes "node_reach E gb lim n" and "run_peer E io ctx now reads ins n = (r, n', sent, evs)"
    and "\<forall>(others, i)\<in>set ins. \<forall>n. node_reach E gb lim n \<longrightarrow> node_reach E gb lim (others n)"
  shows "node_reach E gb lim n'"
proof (cases "n' = n")
  case False
  then obtain t t1 u t2 v t3 t4 where run: "start_peer E ctx now (node_chain n) = Inr t" "greet io t = (Inr u, t1)"
      "handshake_loop io reads t1 = (Inr True, t2)" "emit_event io (PeerReady (pc_addr ctx)) t2 = (Inr v, t3)"
      "peer_loop E io ins n t3 = (r, n', t4)"
    using assms(2) by (auto simp: run_peer_def split: sum.splits prod.splits bool.splits)
  have "relay_ok E (pt_relay t)" using run(1) by (auto simp: start_peer_def and_then_Inr_iff relay_ok_new)
  moreover have "pt_relay t1 = pt_relay t"
    using run(2) queue_all_grows by (auto simp: greet_def split: if_splits)
  moreover have "pt_relay t3 = pt_relay t1"
    using handshake_established [OF conjunct1 [OF greet_fresh [OF run(1,2)]] run(3)] run(4)
    by (auto simp: emit_event_def split: emit_outcome.splits)
  ultimately show ?thesis using peer_loop_keeps [OF assms(1) _ run(5) assms(3)] by simp
qed (use assms in simp)

end
