(* ===== verification/Peers.thy ===== *)
theory Peers
  imports Peer InboundCapacity
begin

text \<open>
  \<open>peers.rs\<close> and \<open>seeds.rs\<close> of \<open>crates/bitrst-net/src\<close> and the poll loop of \<open>src/cli/node.rs\<close>: the table of
  peers, the events their tasks report and the relay of announcements.  A task is a number; whether a
  connection succeeds or is accepted, a command channel is closed or a task can be joined is given by the environment.
  Iteration over the hash map of peers follows insertion order, one of the orders the code may see.
\<close>

section \<open>Seeds\<close>

datatype seed_strategy =
    Fixed "socket_addr list"
  | Localhost u16 u16
  | Builtin

definition loopback :: "u16 \<Rightarrow> socket_addr" where
  "loopback port = ([127, 0, 0, 1], port)"

definition builtin_seeds :: "p2p_network \<Rightarrow> socket_addr list" where
  "builtin_seeds net =
     (case net of
        P2PMainnet \<Rightarrow> [loopback 8333, loopback 18333]
      | P2PTestnet \<Rightarrow> [loopback 18333, loopback 18334])"

definition addresses :: "seed_strategy \<Rightarrow> p2p_network \<Rightarrow> socket_addr list" where
  "addresses s net =
     (case s of
        Fixed addrs \<Rightarrow> addrs
      | Localhost base_port cnt \<Rightarrow> map (\<lambda>offset. loopback (base_port + of_nat offset)) [0..<unat cnt]
      | Builtin \<Rightarrow> builtin_seeds net)"

definition localhost_seeds :: "u16 \<Rightarrow> seed_strategy" where
  "localhost_seeds base_port = Localhost base_port 4"

section \<open>State\<close>

record manager_config =
  mc_network :: p2p_network
  mc_listen_addr :: socket_addr
  max_inbound :: nat
  max_outbound :: nat
  mc_seeds :: seed_strategy

definition localhost_test :: "u16 \<Rightarrow> manager_config" where
  "localhost_test port =
     \<lparr>mc_network = P2PTestnet, mc_listen_addr = loopback port, max_inbound = DEFAULT_MAX_INBOUND,
      max_outbound = DEFAULT_MAX_OUTBOUND, mc_seeds = localhost_seeds (saturating_add port 1)\<rparr>"

datatype peer_lifecycle = Handshaking | Ready

record peer_entry =
  pe_task :: nat
  pe_direction :: connection_direction
  pe_state :: peer_lifecycle

record peer_registration =
  reg_addr :: socket_addr
  reg_direction :: connection_direction
  reg_task :: nat

record peer_manager =
  pm_config :: manager_config
  outbound_count :: nat
  pm_peers :: "(socket_addr \<times> peer_entry) list"
  shutting_down :: bool
  event_queue :: "peer_event list"
  register_queue :: "peer_registration list"
  pm_capacity :: inbound_capacity

definition new_manager :: "manager_config \<Rightarrow> peer_manager" where
  "new_manager cfg =
     \<lparr>pm_config = cfg, outbound_count = 0, pm_peers = [], shutting_down = False, event_queue = [], register_queue = [],
      pm_capacity = new_capacity (max_inbound cfg)\<rparr>"

definition peer_count :: "peer_manager \<Rightarrow> nat" where
  "peer_count m = length (pm_peers m)"

definition ready_peer_count :: "peer_manager \<Rightarrow> nat" where
  "ready_peer_count m = length (filter (\<lambda>(_, entry). pe_state entry = Ready) (pm_peers m))"

definition inbound_reserved :: "peer_manager \<Rightarrow> nat" where
  "inbound_reserved m = reserved (pm_capacity m)"

section \<open>Outbound connections\<close>

definition insert_peer :: "socket_addr \<Rightarrow> connection_direction \<Rightarrow> nat \<Rightarrow> peer_manager \<Rightarrow> peer_manager" where
  "insert_peer addr dir task m =
     m\<lparr>pm_peers := AList.update addr \<lparr>pe_task = task, pe_direction = dir, pe_state = Handshaking\<rparr> (pm_peers m)\<rparr>"

text \<open>\<open>connects\<close> is the outcome of \<open>TcpStream::connect\<close>, \<open>task\<close> the task \<open>spawn_peer\<close> starts.\<close>

definition connect_seed :: "bool \<Rightarrow> nat \<Rightarrow> socket_addr \<Rightarrow> peer_manager \<Rightarrow> (net_error + unit) \<times> peer_manager" where
  "connect_seed connects task addr m =
     (if outbound_count m \<ge> max_outbound (pm_config m) then (Inl ConnectionLimitReached, m)
      else if map_of (pm_peers m) addr \<noteq> None then (Inr (), m)
      else if \<not> connects then (Inl (Io ''connect''), m)
      else
        let m1 = insert_peer addr Outbound task m
        in (Inr (), m1\<lparr>outbound_count := outbound_count m1 + 1\<rparr>))"

record seed_connect_report =
  report_connected :: "socket_addr option"
  report_failures :: "(socket_addr \<times> net_error) list"

fun connect_seeds_loop ::
  "(socket_addr \<Rightarrow> bool) \<Rightarrow> nat \<Rightarrow> socket_addr list \<Rightarrow> (socket_addr \<times> net_error) list \<Rightarrow> peer_manager \<Rightarrow>
     seed_connect_report \<times> peer_manager" where
  "connect_seeds_loop connects task [] failures m = (\<lparr>report_connected = None, report_failures = failures\<rparr>, m)"
| "connect_seeds_loop connects task (addr # addrs) failures m =
     (case connect_seed (connects addr) task addr m of
        (Inr _, m1) \<Rightarrow> (\<lparr>report_connected = Some addr, report_failures = failures\<rparr>, m1)
      | (Inl e, m1) \<Rightarrow> connect_seeds_loop connects task addrs (failures @ [(addr, e)]) m1)"

definition connect_seeds_report ::
  "(socket_addr \<Rightarrow> bool) \<Rightarrow> nat \<Rightarrow> peer_manager \<Rightarrow> seed_connect_report \<times> peer_manager" where
  "connect_seeds_report connects task m =
     connect_seeds_loop connects task (addresses (mc_seeds (pm_config m)) (mc_network (pm_config m))) [] m"

text \<open>\<open>display\<close> stands for the formatting of an address and an error.\<close>

fun join_strings :: "bytes \<Rightarrow> bytes list \<Rightarrow> bytes" where
  "join_strings sep [] = []"
| "join_strings sep [x] = x"
| "join_strings sep (x # y # ys) = x @ sep @ join_strings sep (y # ys)"

definition format_seed_failures :: "(socket_addr \<times> net_error \<Rightarrow> bytes) \<Rightarrow> (socket_addr \<times> net_error) list \<Rightarrow> bytes" where
  "format_seed_failures display failures = join_strings (rust_str ''; '') (map display failures)"

definition into_result ::
  "(socket_addr \<times> net_error \<Rightarrow> bytes) \<Rightarrow> seed_connect_report \<Rightarrow> net_error + socket_addr" where
  "into_result display rep =
     (case report_connected rep of
        Some addr \<Rightarrow> Inr addr
      | None \<Rightarrow> Inl (SeedsExhausted (length (report_failures rep)) (format_seed_failures display (report_failures rep))))"

definition connect_seeds ::
  "(socket_addr \<times> net_error \<Rightarrow> bytes) \<Rightarrow> (socket_addr \<Rightarrow> bool) \<Rightarrow> nat \<Rightarrow> peer_manager \<Rightarrow> (net_error + socket_addr) \<times> peer_manager" where
  "connect_seeds display connects task m = apfst (into_result display) (connect_seeds_report connects task m)"

section \<open>Inbound connections\<close>

text \<open>
  An accepted connection from \<open>addr\<close>: a slot, the task and its registration.  Between tasks the slots are
  contended for as in \<open>InboundCapacity\<close>; the acceptor is their only taker.
\<close>

definition accept_stream :: "socket_addr \<Rightarrow> nat \<Rightarrow> peer_manager \<Rightarrow> peer_manager" where
  "accept_stream addr task m =
     (case acquire_load (pm_capacity m) of
        Loaded current \<Rightarrow>
          m\<lparr>pm_capacity := snd (acquire_exchange False current (pm_capacity m)),
            register_queue := register_queue m @ [\<lparr>reg_addr = addr, reg_direction = Inbound, reg_task = task\<rparr>]\<rparr>
      | _ \<Rightarrow> m)"

text \<open>
  The loop of \<open>spawn_acceptor\<close>, over what each of its waits returns: a change of the shutdown flag (or the end
  of its sender), a connection, or an error of \<open>accept\<close>.  While it waits, other tasks run (\<open>others\<close>); \<open>True\<close>
  says that the loop has ended.  The flag is \<open>shutting_down\<close>; the receiver of the registrations lives as
  long as the manager.
\<close>

datatype accept_input = FlagChanged bool | Accepted socket_addr nat | AcceptFailed

fun accept_loop :: "((peer_manager \<Rightarrow> peer_manager) \<times> accept_input) list \<Rightarrow> peer_manager \<Rightarrow> bool \<times> peer_manager" where
  "accept_loop [] m = (shutting_down m, m)"
| "accept_loop ((others, i) # ins) m =
     (if shutting_down m then (True, m)
      else
        let m1 = others m in
        (case i of
           FlagChanged alive \<Rightarrow> if alive \<and> shutting_down m1 then (True, m1) else accept_loop ins m1
         | AcceptFailed \<Rightarrow> (True, m1)
         | Accepted addr task \<Rightarrow> accept_loop ins (accept_stream addr task m1)))"

section \<open>Registrations and events\<close>

definition try_send_event :: "peer_event \<Rightarrow> peer_manager \<Rightarrow> peer_manager" where
  "try_send_event ev m =
     (if length (event_queue m) < MAX_PEER_EVENTS then m\<lparr>event_queue := event_queue m @ [ev]\<rparr> else m)"

definition process_registration :: "peer_registration \<Rightarrow> peer_manager \<Rightarrow> peer_manager" where
  "process_registration reg m =
     (if reg_direction reg = Outbound \<and> outbound_count m \<ge> max_outbound (pm_config m)
      then try_send_event (RegistrationRejected (reg_addr reg) ConnectionLimitReached) m
      else
        let m1 = (if reg_direction reg = Outbound then m\<lparr>outbound_count := outbound_count m + 1\<rparr> else m)
        in insert_peer (reg_addr reg) (reg_direction reg) (reg_task reg) m1)"

definition process_registrations :: "peer_manager \<Rightarrow> peer_manager" where
  "process_registrations m = foldl (\<lambda>m reg. process_registration reg m) (m\<lparr>register_queue := []\<rparr>) (register_queue m)"

text \<open>The loop of \<open>relay_inventory\<close>: its result and what has been handed to which task.\<close>

fun relay_loop ::
  "(nat \<Rightarrow> bool) \<Rightarrow> socket_addr option \<Rightarrow> message \<Rightarrow> (socket_addr \<times> peer_entry) list \<Rightarrow> (net_error + unit) \<times> (nat \<times> message) list" where
  "relay_loop closed origin msg [] = (Inr (), [])"
| "relay_loop closed origin msg ((addr, entry) # ps) =
     (if origin = Some addr \<or> pe_state entry \<noteq> Ready then relay_loop closed origin msg ps
      else if closed (pe_task entry) then (Inl ConnectionClosed, [])
      else (case relay_loop closed origin msg ps of (r, sent) \<Rightarrow> (r, (pe_task entry, msg) # sent)))"

definition relay_inventory ::
  "(nat \<Rightarrow> bool) \<Rightarrow> socket_addr option \<Rightarrow> inventory_vector list \<Rightarrow> peer_manager \<Rightarrow> (net_error + unit) \<times> (nat \<times> message) list" where
  "relay_inventory closed origin invs m =
     (if invs = [] then (Inr (), []) else relay_loop closed origin (inv_message invs) (pm_peers m))"

definition handle_event ::
  "(nat \<Rightarrow> bool) \<Rightarrow> peer_event \<Rightarrow> peer_manager \<Rightarrow> (net_error + unit) \<times> (nat \<times> message) list \<times> peer_manager" where
  "handle_event closed ev m =
     (case ev of
        PeerAnnounce addr invs \<Rightarrow>
          (case relay_inventory closed (Some addr) (filter (\<lambda>i. inv_type i = InvBlock \<or> inv_type i = InvTransaction) invs) m of
             (r, sent) \<Rightarrow> (r, sent, m))
      | PeerReady addr \<Rightarrow>
          (Inr (), [],
           (case map_of (pm_peers m) addr of
              None \<Rightarrow> m
            | Some entry \<Rightarrow> m\<lparr>pm_peers := AList.update addr (entry\<lparr>pe_state := Ready\<rparr>) (pm_peers m)\<rparr>))
      | PeerDisconnected addr _ \<Rightarrow>
          (Inr (), [],
           (case map_of (pm_peers m) addr of
              None \<Rightarrow> m
            | Some entry \<Rightarrow>
                let m1 = m\<lparr>pm_peers := AList.delete addr (pm_peers m)\<rparr> in
                if pe_direction entry = Outbound then m1\<lparr>outbound_count := outbound_count m1 - 1\<rparr> else m1))
      | RegistrationRejected _ _ \<Rightarrow> (Inr (), [], m))"

text \<open>The loop of \<open>poll\<close> takes the events one by one; \<open>closed k\<close> are the channels closed at the \<open>k\<close>-th.\<close>

fun poll_events ::
  "(nat \<Rightarrow> nat \<Rightarrow> bool) \<Rightarrow> nat \<Rightarrow> peer_event list \<Rightarrow> peer_manager \<Rightarrow> (net_error + unit) \<times> (nat \<times> message) list \<times> peer_manager" where
  "poll_events closed k [] m = (Inr (), [], m\<lparr>event_queue := []\<rparr>)"
| "poll_events closed k (ev # evs) m =
     (case handle_event (closed k) ev (m\<lparr>event_queue := evs\<rparr>) of
        (Inl e, sent, m1) \<Rightarrow> (Inl e, sent, m1)
      | (Inr _, sent, m1) \<Rightarrow>
          (case poll_events closed (k + 1) evs m1 of (r, later, m2) \<Rightarrow> (r, sent @ later, m2)))"

definition poll ::
  "(nat \<Rightarrow> nat \<Rightarrow> bool) \<Rightarrow> peer_manager \<Rightarrow> (net_error + unit) \<times> (nat \<times> message) list \<times> peer_manager" where
  "poll closed m = (let m1 = process_registrations m in poll_events closed 0 (event_queue m1) m1)"

definition process_events ::
  "(nat \<Rightarrow> nat \<Rightarrow> bool) \<Rightarrow> peer_manager \<Rightarrow> (net_error + unit) \<times> (nat \<times> message) list \<times> peer_manager" where
  "process_events closed m = poll closed m"

text \<open>
  \<open>drive_until\<close>: each turn is whether the deadline has passed, what the tasks of the node queue before the poll, and the
  channels closed during it; \<open>Inr False\<close> when the turns are used up and the loop goes on.
\<close>

fun drive_until ::
  "(peer_manager \<Rightarrow> bool) \<Rightarrow> (bool \<times> (peer_manager \<Rightarrow> peer_manager) \<times> (nat \<Rightarrow> nat \<Rightarrow> bool)) list \<Rightarrow> peer_manager \<Rightarrow>
     (net_error + bool) \<times> peer_manager" where
  "drive_until cond [] m = (Inr (cond m), m)"
| "drive_until cond ((past_deadline, fill_queues, closed) # turns) m =
     (if cond m then (Inr True, m)
      else if past_deadline then (Inr True, m)
      else
        (case poll closed (fill_queues m) of
           (Inl e, _, m1) \<Rightarrow> (Inl e, m1)
         | (Inr _, _, m1) \<Rightarrow> drive_until cond turns m1))"

section \<open>Shutdown\<close>

datatype join_outcome = Joined | JoinFailed | JoinTimeout

fun join_peers :: "(nat \<Rightarrow> join_outcome) \<Rightarrow> nat list \<Rightarrow> net_error + unit" where
  "join_peers joins [] = Inr ()"
| "join_peers joins (task # tasks) =
     (case joins task of
        JoinFailed \<Rightarrow> Inl TaskJoinFailed
      | _ \<Rightarrow> join_peers joins tasks)"

definition shutdown :: "(nat \<Rightarrow> join_outcome) \<Rightarrow> peer_manager \<Rightarrow> (net_error + unit) \<times> peer_manager" where
  "shutdown joins m =
     (if shutting_down m then (Inr (), m)
      else
        let tasks = map (pe_task \<circ> snd) (pm_peers m);
            m1 = m\<lparr>shutting_down := True, pm_peers := []\<rparr>
        in (case join_peers joins tasks of
              Inl e \<Rightarrow> (Inl e, m1)
            | Inr _ \<Rightarrow> (Inr (), m1\<lparr>outbound_count := 0\<rparr>)))"

text \<open>\<open>Drop\<close>: the tasks that are aborted, and what is left of the manager.\<close>

definition drop_manager :: "peer_manager \<Rightarrow> nat list \<times> peer_manager" where
  "drop_manager m =
     (if shutting_down m then ([], m)
      else (map (pe_task \<circ> snd) (pm_peers m), m\<lparr>shutting_down := True, pm_peers := []\<rparr>))"

section \<open>The poll loop of the node\<close>

text \<open>
  \<open>run_poll_loop\<close>: before each input the tasks of the node have queued events and registrations (\<open>fill_queues\<close>);
  \<open>Inr False\<close> when the inputs are used up and the loop goes on.
\<close>

datatype loop_input = ShutdownSignal | Tick "nat \<Rightarrow> nat \<Rightarrow> bool"

fun run_poll_loop ::
  "((peer_manager \<Rightarrow> peer_manager) \<times> loop_input) list \<Rightarrow> peer_manager \<Rightarrow> (net_error + bool) \<times> peer_manager" where
  "run_poll_loop [] m = (Inr False, m)"
| "run_poll_loop ((fill_queues, i) # ins) m =
     (case i of
        ShutdownSignal \<Rightarrow> (Inr True, fill_queues m)
      | Tick closed \<Rightarrow>
          (case poll closed (fill_queues m) of
             (Inl e, _, m1) \<Rightarrow> (Inl e, m1)
           | (Inr _, _, m1) \<Rightarrow> run_poll_loop ins m1))"

end
