(* ===== verification/PeersTheorems.thy ===== *)
theory PeersTheorems
  imports Peers
begin

text \<open>
  The bookkeeping of the peer manager over every sequence of its operations and of what its tasks report,
  and what a relay to a peer whose task has ended does to the node.
\<close>

section \<open>Counting entries\<close>

lemma count_delete:
  "distinct (map fst al) \<Longrightarrow>
     length (filter P (AList.delete k al)) + (case map_of al k of None \<Rightarrow> 0 | Some v \<Rightarrow> if P (k, v) then 1 else 0) =
       length (filter P al)"
proof (induction al)
  case (Cons x al)
  obtain j w where x: "x = (j, w)" by (cases x)
  have "j = k \<Longrightarrow> map_of al k = None \<and> AList.delete k al = al"
    using Cons.prems by (simp add: x map_of_eq_None_iff delete_id)
  then show ?case using Cons by (auto simp: x)
qed simp

lemma count_update:
  "distinct (map fst al) \<Longrightarrow>
     length (filter P (AList.update k v al)) + (case map_of al k of None \<Rightarrow> 0 | Some w \<Rightarrow> if P (k, w) then 1 else 0) =
       length (filter P al) + (if P (k, v) then 1 else 0)"
proof (induction al)
  case (Cons x al)
  then show ?case by (cases x) (auto split: option.splits if_splits)
qed simp

section \<open>Reachable managers\<close>

inductive manager_reach :: "manager_config \<Rightarrow> peer_manager \<Rightarrow> bool" for cfg where
  new: "manager_reach cfg (new_manager cfg)"
| seed: "manager_reach cfg m \<Longrightarrow> connect_seed connects task addr m = (r, m') \<Longrightarrow> manager_reach cfg m'"
| accept: "manager_reach cfg m \<Longrightarrow> manager_reach cfg (accept_stream addr task m)"
| register: "manager_reach cfg m \<Longrightarrow> manager_reach cfg (m\<lparr>register_queue := register_queue m @ [reg]\<rparr>)"
| report: "manager_reach cfg m \<Longrightarrow> manager_reach cfg (m\<lparr>event_queue := event_queue m @ [ev]\<rparr>)"
| slot_release: "manager_reach cfg m \<Longrightarrow> manager_reach cfg (m\<lparr>pm_capacity := release (pm_capacity m)\<rparr>)"
| poll: "manager_reach cfg m \<Longrightarrow> poll closed m = (r, sent, m') \<Longrightarrow> manager_reach cfg m'"
| shutdown: "manager_reach cfg m \<Longrightarrow> shutdown joins m = (r, m') \<Longrightarrow> manager_reach cfg m'"

definition outbound_peers :: "peer_manager \<Rightarrow> nat" where
  "outbound_peers m = length (filter (\<lambda>(_, entry). pe_direction entry = Outbound) (pm_peers m))"

definition table_ok :: "manager_config \<Rightarrow> peer_manager \<Rightarrow> bool" where
  "table_ok cfg m \<longleftrightarrow>
     pm_config m = cfg \<and> distinct (map fst (pm_peers m)) \<and>
     outbound_peers m \<le> outbound_count m \<and> outbound_count m \<le> max_outbound cfg"

text \<open>What is not part of the table does not matter.\<close>

lemma table_ok_fields [simp]:
  "table_ok cfg (m\<lparr>event_queue := q\<rparr>) = table_ok cfg m"
  "table_ok cfg (m\<lparr>register_queue := rq\<rparr>) = table_ok cfg m"
  "table_ok cfg (m\<lparr>pm_capacity := c\<rparr>) = table_ok cfg m"
  by (simp_all add: table_ok_def outbound_peers_def)

lemma insert_peer_ok:
  assumes "distinct (map fst (pm_peers m))"
  shows "distinct (map fst (pm_peers (insert_peer addr dir task m)))"
    and "outbound_peers (insert_peer addr dir task m) \<le> outbound_peers m + (if dir = Outbound then 1 else 0)"
    and "outbound_count (insert_peer addr dir task m) = outbound_count m" "pm_config (insert_peer addr dir task m) = pm_config m"
  using assms count_update [OF assms, of "\<lambda>(_, entry). pe_direction entry = Outbound" addr
      "\<lparr>pe_task = task, pe_direction = dir, pe_state = Handshaking\<rparr>"]
  by (simp_all add: insert_peer_def outbound_peers_def distinct_update split: option.splits if_splits)

lemma connect_seed_ok:
  assumes "table_ok cfg m" and "connect_seed connects task addr m = (r, m')"
  shows "table_ok cfg m'"
  using assms insert_peer_ok [of m addr Outbound task]
  by (auto simp: connect_seed_def table_ok_def Let_def outbound_peers_def split: if_splits)

lemma process_registration_ok: "table_ok cfg m \<Longrightarrow> table_ok cfg (process_registration reg m)"
  using insert_peer_ok [of m "reg_addr reg" "reg_direction reg" "reg_task reg"]
    insert_peer_ok [of "m\<lparr>outbound_count := outbound_count m + 1\<rparr>" "reg_addr reg" "reg_direction reg" "reg_task reg"]
  by (auto simp: process_registration_def table_ok_def Let_def try_send_event_def outbound_peers_def split: if_splits)

lemma process_registrations_ok: "table_ok cfg m \<Longrightarrow> table_ok cfg (process_registrations m)"
proof -
  have "table_ok cfg (foldl (\<lambda>m reg. process_registration reg m) m regs)" if "table_ok cfg m" for m regs
    using that by (induction regs arbitrary: m) (simp_all add: process_registration_ok)
  then show "table_ok cfg m \<Longrightarrow> ?thesis" by (simp add: process_registrations_def)
qed

lemma handle_event_ok:
  assumes ok: "table_ok cfg m" and ev: "handle_event closed ev m = (r, sent, m')"
  shows "table_ok cfg m'"
proof -
  have d: "distinct (map fst (pm_peers m))" using ok by (simp add: table_ok_def)
  let ?out = "\<lambda>(_ :: socket_addr, entry). pe_direction entry = Outbound"
  show ?thesis
  proof (cases ev)
    case (PeerReady addr)
    show ?thesis
    proof (cases "map_of (pm_peers m) addr")
      case (Some entry)
      have "length (filter ?out (AList.update addr (entry\<lparr>pe_state := Ready\<rparr>) (pm_peers m))) = outbound_peers m"
        using count_update [OF d, of ?out addr "entry\<lparr>pe_state := Ready\<rparr>"] Some
        by (simp add: outbound_peers_def split: if_splits)
      then show ?thesis using ok ev PeerReady Some
        by (auto simp: handle_event_def table_ok_def outbound_peers_def distinct_update)
    qed (use ok ev PeerReady in \<open>auto simp: handle_event_def\<close>)
  next
    case (PeerDisconnected addr e)
    show ?thesis
    proof (cases "map_of (pm_peers m) addr")
      case (Some entry)
      have "length (filter ?out (AList.delete addr (pm_peers m))) + (if pe_direction entry = Outbound then 1 else 0) = outbound_peers m"
        using count_delete [OF d, of ?out addr] Some by (simp add: outbound_peers_def)
      then show ?thesis using ok ev PeerDisconnected Some
        by (auto simp: handle_event_def table_ok_def outbound_peers_def distinct_delete Let_def split: if_splits)
    qed (use ok ev PeerDisconnected in \<open>auto simp: handle_event_def\<close>)
  qed (use ok ev in \<open>auto simp: handle_event_def split: prod.splits\<close>)
qed

lemma poll_events_ok: "table_ok cfg m \<Longrightarrow> poll_events closed k evs m = (r, sent, m') \<Longrightarrow> table_ok cfg m'"
proof (induction evs arbitrary: k m r sent)
  case (Cons ev evs)
  obtain r1 s1 m1 where h: "handle_event (closed k) ev (m\<lparr>event_queue := evs\<rparr>) = (r1, s1, m1)" by (metis prod_cases3)
  have "table_ok cfg m1" using handle_event_ok [OF _ h] Cons.prems(1) by simp
  then show ?case using Cons.prems(2) Cons.IH [of m1] h by (auto split: sum.splits prod.splits)
qed auto

lemma shutdown_ok: "table_ok cfg m \<Longrightarrow> shutdown joins m = (r, m') \<Longrightarrow> table_ok cfg m'"
  by (auto simp: shutdown_def table_ok_def outbound_peers_def Let_def split: if_splits sum.splits)

text \<open>
  C22. Outbound limit: after any sequence of connections, registrations, reports of tasks, polls and
  shutdowns the table has one entry for an address, and its outbound entries are at most the outbound
  counter, which never exceeds the configured maximum - also when tasks report in any order, twice, or
  for addresses the table does not have.
\<close>

theorem outbound_connections_bounded:
  assumes "manager_reach cfg m"
  shows "distinct (map fst (pm_peers m)) \<and> outbound_peers m \<le> outbound_count m \<and> outbound_count m \<le> max_outbound cfg"
proof -
  have "table_ok cfg m" using assms
  proof induction
    case new
    then show ?case by (simp add: new_manager_def table_ok_def outbound_peers_def)
  next
    case (seed m connects task addr r m')
    then show ?case using connect_seed_ok by blast
  next
    case (accept m addr task)
    then show ?case by (simp add: accept_stream_def split: slot.split)
  next
    case (poll m closed r sent m')
    have "poll_events closed 0 (event_queue (process_registrations m)) (process_registrations m) = (r, sent, m')"
      using poll.hyps(2) by (simp add: poll_def Let_def)
    from poll_events_ok [OF process_registrations_ok [OF poll.IH] this] show ?case .
  next
    case (shutdown m joins r m')
    then show ?case using shutdown_ok by blast
  qed simp_all
  then show ?thesis by (simp add: table_ok_def)
qed

definition one_outbound :: manager_config where
  "one_outbound = (localhost_test 18333)\<lparr>max_outbound := 1\<rparr>"

theorem outbound_connections_bounded_witness:
  "\<exists>m. connect_seed True 7 (loopback 9) (new_manager one_outbound) = (Inr (), m) \<and>
     outbound_peers m \<le> outbound_count m \<and> outbound_count m \<le> 1 \<and>
     connect_seed True 8 (loopback 10) m = (Inl ConnectionLimitReached, m)"
proof -
  obtain m where m: "connect_seed True 7 (loopback 9) (new_manager one_outbound) = (Inr (), m)" "outbound_count m = 1"
      "pm_config m = one_outbound"
    by (simp add: connect_seed_def new_manager_def one_outbound_def localhost_test_def insert_peer_def Let_def)
  have "manager_reach one_outbound m" using manager_reach.seed [OF manager_reach.new m(1)] .
  from outbound_connections_bounded [OF this] m show ?thesis
    by (intro exI [of _ m]) (simp add: connect_seed_def one_outbound_def)
qed

section \<open>Relaying announcements\<close>

definition relay_targets :: "socket_addr \<Rightarrow> peer_manager \<Rightarrow> nat list" where
  "relay_targets origin m =
     map (\<lambda>(_, entry). pe_task entry) (filter (\<lambda>(addr, entry). addr \<noteq> origin \<and> pe_state entry = Ready) (pm_peers m))"

lemma relay_loop_targets:
  "relay_loop closed (Some origin) msg ps =
     (let targets = map (\<lambda>(_, entry). pe_task entry) (filter (\<lambda>(addr, entry). addr \<noteq> origin \<and> pe_state entry = Ready) ps)
      in (if list_ex closed targets then Inl ConnectionClosed else Inr (),
          map (\<lambda>task. (task, msg)) (takeWhile (\<lambda>task. \<not> closed task) targets)))"
  by (induction ps) (auto simp: Let_def)

definition relayed :: "inventory_vector list \<Rightarrow> inventory_vector list" where
  "relayed invs = filter (\<lambda>i. inv_type i = InvBlock \<or> inv_type i = InvTransaction) invs"

lemma handle_announce:
  "handle_event closed (PeerAnnounce origin invs) m =
     (if relayed invs = [] then (Inr (), [], m)
      else (if list_ex closed (relay_targets origin m) then Inl ConnectionClosed else Inr (),
            map (\<lambda>task. (task, inv_message (relayed invs))) (takeWhile (\<lambda>task. \<not> closed task) (relay_targets origin m)), m))"
  by (simp add: handle_event_def relay_inventory_def relayed_def [symmetric] relay_loop_targets Let_def relay_targets_def)

text \<open>
  C18. A closed channel stops the node (a flaw): when the next event is an announcement of a block or a
  transaction, it is handed to the ready peers other than its origin in their order, up to the first whose
  task has ended - its disconnection may still be waiting in the queue behind - and then the poll
  loop, and with it the node, ends with \<open>ConnectionClosed\<close>: the other peers get nothing and the events behind
  are not handled.  With no such peer the announcement reaches all of them and the loop goes on
  with the events behind it.
\<close>

theorem closed_peer_stops_node:
  assumes "register_queue (fill_queues m) = []" and "event_queue (fill_queues m) = PeerAnnounce origin invs # evs"
    and "relayed invs \<noteq> []"
  shows "(list_ex (closed 0) (relay_targets origin (fill_queues m)) \<longrightarrow>
      run_poll_loop ((fill_queues, Tick closed) # ins) m = (Inl ConnectionClosed, (fill_queues m)\<lparr>event_queue := evs\<rparr>) \<and>
      fst (snd (poll closed (fill_queues m))) =
        map (\<lambda>task. (task, inv_message (relayed invs))) (takeWhile (\<lambda>task. \<not> closed 0 task) (relay_targets origin (fill_queues m)))) \<and>
    (\<not> list_ex (closed 0) (relay_targets origin (fill_queues m)) \<longrightarrow>
      poll closed (fill_queues m) =
        (case poll_events closed 1 evs ((fill_queues m)\<lparr>event_queue := evs\<rparr>) of
           (r, later, m') \<Rightarrow> (r, map (\<lambda>task. (task, inv_message (relayed invs))) (relay_targets origin (fill_queues m)) @ later, m')))"
proof -
  have "process_registrations (fill_queues m) = fill_queues m"
    by (cases "fill_queues m") (use assms(1) in \<open>simp add: process_registrations_def\<close>)
  moreover have "relay_targets origin ((fill_queues m)\<lparr>event_queue := evs\<rparr>) = relay_targets origin (fill_queues m)"
    by (simp add: relay_targets_def)
  ultimately show ?thesis
    using assms(2,3) by (auto simp: poll_def Let_def handle_announce list_ex_iff takeWhile_eq_all_conv [THEN iffD2] split: prod.splits)
qed

definition sample_table :: peer_manager where
  "sample_table = (new_manager one_outbound)\<lparr>pm_peers :=
     [(loopback 1, \<lparr>pe_task = 1, pe_direction = Inbound, pe_state = Ready\<rparr>),
      (loopback 2, \<lparr>pe_task = 2, pe_direction = Inbound, pe_state = Ready\<rparr>),
      (loopback 3, \<lparr>pe_task = 3, pe_direction = Inbound, pe_state = Ready\<rparr>)],
     event_queue := [PeerAnnounce (loopback 3) [\<lparr>inv_type = InvBlock, inv_hash = replicate 32 0\<rparr>],
       PeerDisconnected (loopback 1) ConnectionClosed]\<rparr>"

theorem closed_peer_stops_node_witness:
  "fst (run_poll_loop [(\<lambda>m. m, Tick (\<lambda>_ task. task = 1))] sample_table) = Inl ConnectionClosed"
proof -
  have "register_queue sample_table = []"
    "event_queue sample_table = PeerAnnounce (loopback 3) [\<lparr>inv_type = InvBlock, inv_hash = replicate 32 0\<rparr>] #
       [PeerDisconnected (loopback 1) ConnectionClosed]"
    "relayed [\<lparr>inv_type = InvBlock, inv_hash = replicate 32 0\<rparr>] \<noteq> []"
    "list_ex (\<lambda>task. task = 1) (relay_targets (loopback 3) sample_table)"
    by (simp_all add: sample_table_def new_manager_def relayed_def relay_targets_def loopback_def)
  then show ?thesis
    using closed_peer_stops_node [of "\<lambda>m. m" sample_table "loopback 3" _ _ "\<lambda>_ task. task = 1" "[]"] by auto
qed

end
