(* ===== verification/Cli.thy ===== *)
theory Cli
  imports Handles Wallet Miner NetTypes
begin

text \<open>
  The commands of \<open>src/cli\<close> that work on a chain: \<open>args.rs\<close>, \<open>chain.rs\<close>, \<open>mine.rs\<close>, \<open>tip.rs\<close> and
  \<open>wallet/balance.rs\<close>.  The system clock and the file the output goes to are the environment's: the clock is an
  argument, writing succeeds, and a command returns what it prints.  An \<open>InvalidInput\<close> carries what
  its message is about in place of the formatted text.
\<close>

section \<open>Arguments and errors\<close>

datatype network_arg = MainnetArg | TestnetArg

definition wallet_network :: "network_arg \<Rightarrow> network" where
  "wallet_network n = (case n of MainnetArg \<Rightarrow> Mainnet | TestnetArg \<Rightarrow> Testnet)"

definition p2p_network_of :: "network_arg \<Rightarrow> p2p_network" where
  "p2p_network_of n = (case n of MainnetArg \<Rightarrow> P2PMainnet | TestnetArg \<Rightarrow> P2PTestnet)"

definition network_label :: "network_arg \<Rightarrow> string" where
  "network_label n = (case n of MainnetArg \<Rightarrow> ''mainnet'' | TestnetArg \<Rightarrow> ''testnet'')"

definition arg_p2pkh_version :: "network_arg \<Rightarrow> u8" where
  "arg_p2pkh_version n = (case n of MainnetArg \<Rightarrow> 0x00 | TestnetArg \<Rightarrow> 0x6f)"

datatype invalid_input =
    CountZero
  | InvalidBits u32
  | NoMerkleRoot
  | UnexpectedConnect u32 connect_result
  | KeyNotHex
  | KeyNot32Bytes
  | NoKeySource

datatype cli_error =
    CliInvalidNetworkTime
  | SystemTimeUnavailable
  | CliClap string
  | CliChain chain_error
  | CliMine mine_error
  | CliWallet wallet_error
  | CliNet net_error
  | InvalidInput invalid_input
  | InvalidAddress
  | AddressNetworkMismatch string
  | CliIo string

text \<open>\<open>clock\<close> is the number of seconds since the epoch, if the system can tell.\<close>

definition current_unix_time :: "u64 option \<Rightarrow> cli_error + u32" where
  "current_unix_time clock =
     (case clock of
        None \<Rightarrow> Inl SystemTimeUnavailable
      | Some secs \<Rightarrow> Inr (ucast (min secs (ucast (- 1 :: u32)))))"

definition resolve_network_time :: "u64 option \<Rightarrow> u32 option \<Rightarrow> cli_error + u32" where
  "resolve_network_time clock explicit =
     (case explicit of
        Some v \<Rightarrow> if v = 0 then Inl CliInvalidNetworkTime else Inr v
      | None \<Rightarrow> current_unix_time clock)"

section \<open>Chains that live in memory\<close>

definition GENESIS_TIME :: u32 where
  "GENESIS_TIME = 1231006505"

definition DEFAULT_BITS :: u32 where
  "DEFAULT_BITS = 0x1f00ffff"

definition DEFAULT_COINBASE_VALUE :: u64 where
  "DEFAULT_COINBASE_VALUE = 5000000000"

definition mine_header :: "env \<Rightarrow> block_header \<Rightarrow> u32 \<Rightarrow> (cli_error + unit) \<times> block_header" where
  "mine_header E hdr bts =
     (case from_bits bts of
        None \<Rightarrow> (Inl (InvalidInput (InvalidBits bts)), hdr)
      | Some tgt \<Rightarrow>
          (case mine E hdr tgt of
             (Inl e, hdr') \<Rightarrow> (Inl (CliMine e), hdr')
           | (Inr _, hdr') \<Rightarrow> (Inr (), hdr')))"

fun mine_header_loop :: "env \<Rightarrow> pow_target \<Rightarrow> nat \<Rightarrow> block_header \<Rightarrow> (cli_error + unit) \<times> block_header" where
  "mine_header_loop E tgt 0 hdr = (Inl (CliMine AttemptsExceeded), hdr)"
| "mine_header_loop E tgt (Suc n) hdr =
     (if meets tgt (hash_header E hdr) then (Inr (), hdr)
      else mine_header_loop E tgt n (hdr\<lparr>nonce := nonce hdr + 1\<rparr>))"

definition mine_header_bounded :: "env \<Rightarrow> block_header \<Rightarrow> u32 \<Rightarrow> nat \<Rightarrow> (cli_error + unit) \<times> block_header" where
  "mine_header_bounded E hdr bts max_attempts =
     (case from_bits bts of
        None \<Rightarrow> (Inl (InvalidInput (InvalidBits bts)), hdr)
      | Some tgt \<Rightarrow> mine_header_loop E tgt (min max_attempts MAX_NONCE_ATTEMPTS) hdr)"

definition mined_genesis :: "env \<Rightarrow> u32 \<Rightarrow> cli_error + block" where
  "mined_genesis E bts =
     (let hdr = \<lparr>version = 1, prev_blockhash = replicate 32 0, hdr_merkle_root = replicate 32 0, time = GENESIS_TIME,
                 bits = bts, nonce = 0\<rparr>;
          b = coinbase_block E hdr 0 DEFAULT_COINBASE_VALUE
      in (case mine_header E (header b) bts of
            (Inl e, _) \<Rightarrow> Inl e
          | (Inr _, hdr') \<Rightarrow> Inr (b\<lparr>header := hdr'\<rparr>)))"

definition ephemeral_chain :: "env \<Rightarrow> u32 \<Rightarrow> u32 \<Rightarrow> cli_error + chain_handle" where
  "ephemeral_chain E nt bts =
     and_then (mined_genesis E bts) (\<lambda>genesis.
     and_then (map_err CliChain (ch_new_genesis E genesis nt)) (\<lambda>h.
       case ch_take_events h of
         (Inl e, _) \<Rightarrow> Inl (CliChain e)
       | (Inr _, h') \<Rightarrow> Inr h'))"

section \<open>The command \<open>mine\<close>\<close>

record mine_args =
  arg_count :: u32
  arg_value :: u64
  arg_time :: "u32 option"
  arg_bits :: u32
  arg_network_time :: "u32 option"

record mined_block_info =
  info_height :: u32
  info_hash :: hash32
  info_nonce :: u32

definition build_coinbase_block ::
  "env \<Rightarrow> chain_handle \<Rightarrow> u32 \<Rightarrow> u32 \<Rightarrow> u64 \<Rightarrow> u32 \<Rightarrow> cli_error + block" where
  "build_coinbase_block E h hgt t v bts =
     and_then (map_err CliChain (ch_tip_hash E h)) (\<lambda>prev.
       let hdr = \<lparr>version = 1, prev_blockhash = prev, hdr_merkle_root = replicate 32 0, time = t, bits = bts, nonce = 0\<rparr>;
           b = coinbase_block E hdr hgt v
       in and_then (ok_or (InvalidInput NoMerkleRoot) (block_merkle_root E b)) (\<lambda>root.
            Inr (b\<lparr>header := (header b)\<lparr>hdr_merkle_root := root\<rparr>\<rparr>)))"

definition mine_time :: "u32 \<Rightarrow> u32 \<Rightarrow> u32" where
  "mine_time base_time index = saturating_add base_time (saturating_mul index 600)"

definition mine_base_time :: "mine_args \<Rightarrow> u32 \<Rightarrow> u32" where
  "mine_base_time args nt = (case arg_time args of Some t \<Rightarrow> t | None \<Rightarrow> max nt GENESIS_TIME)"

text \<open>One turn of the loop over the indices: the block that was mined and connected.\<close>

definition mine_one ::
  "env \<Rightarrow> mine_args \<Rightarrow> u32 \<Rightarrow> u32 \<Rightarrow> chain_handle \<Rightarrow> cli_error + mined_block_info \<times> chain_handle" where
  "mine_one E args base_time index h =
     (let hgt = index + 1 in
      and_then (build_coinbase_block E h hgt (mine_time base_time index) (arg_value args) (arg_bits args)) (\<lambda>b.
        case mine_header E (header b) (arg_bits args) of
          (Inl e, _) \<Rightarrow> Inl e
        | (Inr _, hdr) \<Rightarrow>
            (case ch_connect_block E (b\<lparr>header := hdr\<rparr>) h of
               (Inl e, _) \<Rightarrow> Inl (CliChain e)
             | (Inr (Connected connected connected_hash), h1) \<Rightarrow>
                 (case ch_take_events h1 of
                    (Inl e, _) \<Rightarrow> Inl (CliChain e)
                  | (Inr _, h2) \<Rightarrow>
                      Inr (\<lparr>info_height = connected, info_hash = connected_hash, info_nonce = nonce hdr\<rparr>, h2))
             | (Inr other, _) \<Rightarrow> Inl (InvalidInput (UnexpectedConnect hgt other)))))"

fun mine_blocks ::
  "env \<Rightarrow> mine_args \<Rightarrow> u32 \<Rightarrow> nat \<Rightarrow> u32 \<Rightarrow> chain_handle \<Rightarrow> mined_block_info list \<Rightarrow>
     cli_error + mined_block_info list \<times> chain_handle" where
  "mine_blocks E args base_time 0 index h mined = Inr (mined, h)"
| "mine_blocks E args base_time (Suc n) index h mined =
     and_then (mine_one E args base_time index h) (\<lambda>(info, h1).
       mine_blocks E args base_time n (index + 1) h1 (mined @ [info]))"

definition run_mine ::
  "env \<Rightarrow> u64 option \<Rightarrow> mine_args \<Rightarrow> cli_error + mined_block_info list \<times> chain_handle" where
  "run_mine E clock args =
     (if arg_count args = 0 then Inl (InvalidInput CountZero)
      else
        and_then (resolve_network_time clock (arg_network_time args)) (\<lambda>nt.
        and_then (ephemeral_chain E nt (arg_bits args)) (\<lambda>h.
          mine_blocks E args (mine_base_time args nt) (unat (arg_count args)) 0 h [])))"

section \<open>The commands \<open>tip\<close> and \<open>wallet balance\<close>\<close>

definition run_tip :: "env \<Rightarrow> u64 option \<Rightarrow> u32 option \<Rightarrow> cli_error + string" where
  "run_tip E clock explicit =
     and_then (resolve_network_time clock explicit) (\<lambda>nt.
     and_then (ephemeral_chain E nt DEFAULT_BITS) (\<lambda>h.
     and_then (map_err CliChain (ch_tip_hash E h)) (\<lambda>tip. Inr (hex_encode E tip))))"

definition parse_address :: "env \<Rightarrow> string \<Rightarrow> network_arg \<Rightarrow> cli_error + address" where
  "parse_address E s n =
     (case decode_check E s of
        Inl _ \<Rightarrow> Inl InvalidAddress
      | Inr (ver, pl) \<Rightarrow>
          if ver \<noteq> arg_p2pkh_version n then Inl (AddressNetworkMismatch (network_label n))
          else if length pl \<noteq> 20 then Inl InvalidAddress
          else Inr (address_p2pkh E pl (wallet_network n)))"

definition run_balance :: "env \<Rightarrow> u64 option \<Rightarrow> network_arg \<Rightarrow> string \<Rightarrow> u32 option \<Rightarrow> cli_error + string \<times> u64" where
  "run_balance E clock n s explicit =
     and_then (parse_address E s n) (\<lambda>addr.
     and_then (resolve_network_time clock explicit) (\<lambda>nt.
     and_then (ephemeral_chain E nt DEFAULT_BITS) (\<lambda>h.
       case ch_take_events h of
         (Inl e, _) \<Rightarrow> Inl (CliChain e)
       | (Inr events, h1) \<Rightarrow>
           and_then (map_err CliChain (with_chain h1 (\<lambda>c. apply_events E events c (watch_address addr new_wallet)))) (\<lambda>(r, w).
           and_then (map_err CliWallet r) (\<lambda>_. Inr (encoded addr, balance w))))))"

end
