(* ===== verification/CliTheorems.thy ===== *)
theory CliTheorems
  imports Cli ChainTheorems
begin

text \<open>
  What \<open>bitrst mine\<close> does: the chain it leaves, and how many blocks it can mine before its own
  timestamps leave the window the chain accepts.
\<close>

section \<open>One block on a chain with no orphans\<close>

lemma connect_on_top:
  assumes ok: "chain_ok E g c" and lone: "orphans c = []"
    and res: "connect_block E b c = (Inr (Connected n h), c')"
  obtains p where "h = hash_block E b" "n = height c'" "blocks c' = blocks c @ [b]" "orphans c' = []"
    "network_time c' = network_time c" "parent_of b = tip_hash E c"
    "validate_block_for_parent E c b (Some p) (Some (parent_of b)) n = Inr ()"
proof -
  obtain c1 where one: "connect_without_orphans E b c = (Inr (Connected n h), c1)" and c1: "orphans c1 = [] \<Longrightarrow> c' = c1"
    using res
  proof (cases rule: connect_block_split)
    case stop
    then show ?thesis by blast
  next
    case (queue r1 c1 rq)
    have "c' = c1" if "orphans c1 = []"
      using queue(3) that
      by (simp add: process_orphans_def enqueue_ready_orphans_def ready_orphans_def remove_ready_def)
    then show ?thesis using that queue by (cases rq) auto
  qed
  have out: "connect_outcome E b c (Inr (Connected n h)) c1" using connect_without_orphans_ok [OF ok one] by blast
  have fields: "blocks c1 = blocks c @ [b]" "orphans c1 = []"
    and facts: "h = hash_block E b" "n = height c1" "parent_of b = tip_hash E c"
    using out lone unfolding connect_outcome_def by auto
  obtain p where valid: "validate_block_for_parent E c b (Some p) (Some (parent_of b)) n = Inr ()"
    using out unfolding connect_outcome_def by auto
  have "network_time c1 = network_time c"
    using one
  proof (cases rule: connect_without_orphans_cases)
    case step
    show ?thesis
      using step(6) facts(3)
      by (auto simp: connect_step_def put_store_Inr push_active_def insert_known_def push_event_def Let_def split: prod.splits)
  qed auto
  then show thesis using that fields facts valid c1 [OF fields(2)] by simp
qed

lemma valid_block_in_window:
  assumes "validate_block_for_parent E c b (Some p) (Some ph) n = Inr ()"
  shows "time (header b) \<le> saturating_add (network_time c) 7200"
  using assms
  by (simp add: validate_block_for_parent_def validate_block_header_for_parent_def Let_def result_iffs split: if_splits)
    (auto simp: valid_block_time_def MAX_FUTURE_BLOCK_TIME_def result_iffs split: if_splits)

section \<open>One turn of the mining loop\<close>

lemma mine_loop_header: "mine_loop E tgt n hdr = (r, hdr') \<Longrightarrow> \<exists>v. hdr' = hdr\<lparr>nonce := v\<rparr>"
proof (induction E tgt n hdr rule: mine_loop.induct)
  case (1 E tgt hdr)
  then show ?case by (intro exI [of _ "nonce hdr"]) simp
next
  case (2 E tgt n hdr)
  show ?case
  proof (cases "meets tgt (hash_header E hdr)")
    case True
    then show ?thesis using 2(2) by (intro exI [of _ "nonce hdr"]) (simp add: Let_def)
  next
    case False
    then show ?thesis using 2 by (auto simp: Let_def)
  qed
qed

lemma mine_header_Inr: "mine_header E hdr bts = (Inr (), hdr') \<Longrightarrow> \<exists>v. hdr' = hdr\<lparr>nonce := v\<rparr>"
  by (auto simp: mine_header_def mine_def split: option.splits prod.splits sum.splits dest: mine_loop_header)

text \<open>The block of index \<open>i\<close> and what is reported of it.\<close>

definition mined_as :: "env \<Rightarrow> mine_args \<Rightarrow> u32 \<Rightarrow> nat \<Rightarrow> block \<Rightarrow> mined_block_info \<Rightarrow> bool" where
  "mined_as E args base_time i b info \<longleftrightarrow>
     transactions b = [coinbase_tx (of_nat i + 1) (arg_value args)] \<and> time (header b) = mine_time base_time (of_nat i) \<and>
     bits (header b) = arg_bits args \<and>
     info = \<lparr>info_height = of_nat (Suc i), info_hash = hash_block E b, info_nonce = nonce (header b)\<rparr>"

lemma build_coinbase_block_fields:
  assumes "build_coinbase_block E h hgt t v bts = Inr b"
  shows "transactions b = [coinbase_tx hgt v]" "time (header b) = t" "bits (header b) = bts"
  using assms
  by (auto simp: build_coinbase_block_def coinbase_block_def Let_def result_iffs split: option.splits)

lemma mine_one_step:
  assumes run: "mine_one E args base_time (of_nat i) (new_lock c) = Inr (info, h')"
    and reach: "chain_reach E gb c" and lone: "orphans c = []" and len: "length (blocks c) = Suc i"
  obtains c' b where "h' = new_lock c'" "chain_reach E gb c'" "orphans c' = []" "network_time c' = network_time c"
    "blocks c' = blocks c @ [b]" "mined_as E args base_time i b info"
    "time (header b) \<le> saturating_add (network_time c) 7200"
proof -
  obtain b0 hdr n hh h1 evs where
    b0: "build_coinbase_block E (new_lock c) (of_nat i + 1) (mine_time base_time (of_nat i)) (arg_value args) (arg_bits args) = Inr b0"
    and hdr: "mine_header E (header b0) (arg_bits args) = (Inr (), hdr)"
    and conn: "ch_connect_block E (b0\<lparr>header := hdr\<rparr>) (new_lock c) = (Inr (Connected n hh), h1)"
    and took: "ch_take_events h1 = (Inr evs, h')"
    and info: "info = \<lparr>info_height = n, info_hash = hh, info_nonce = nonce hdr\<rparr>"
  proof -
    obtain b0 where b0: "build_coinbase_block E (new_lock c) (of_nat i + 1) (mine_time base_time (of_nat i)) (arg_value args)
        (arg_bits args) = Inr b0"
      using run by (auto simp: mine_one_def Let_def result_iffs)
    obtain rm hdr where hdr: "mine_header E (header b0) (arg_bits args) = (rm, hdr)" by fastforce
    obtain rc h1 where conn: "ch_connect_block E (b0\<lparr>header := hdr\<rparr>) (new_lock c) = (rc, h1)" by fastforce
    obtain rt h2 where took: "ch_take_events h1 = (rt, h2)" by fastforce
    show thesis
      using run b0 hdr conn took that
      by (cases rm; cases rc; cases rt) (auto simp: mine_one_def Let_def split: connect_result.splits)
  qed
  let ?b = "b0\<lparr>header := hdr\<rparr>"
  obtain c1 where c1: "connect_block E ?b c = (Inr (Connected n hh), c1)" "h1 = new_lock c1"
    using conn unfolding ch_connect_block_def
    by (rule chain_lock.access_cases) (auto simp: new_lock_def)
  obtain c2 where c2: "take_events c1 = Inr (evs, c2)" "h' = new_lock c2"
    using took unfolding ch_take_events_def c1(2)
    by (rule chain_lock.access_cases) (auto simp: new_lock_def split: sum.splits prod.splits)
  obtain j where j: "c2 = c1\<lparr>event_journal := j\<rparr>" using take_events_keeps(3) [OF c2(1)] by blast
  obtain p where top: "hh = hash_block E ?b" "n = height c1" "blocks c1 = blocks c @ [?b]" "orphans c1 = []"
    "network_time c1 = network_time c"
    and valid: "validate_block_for_parent E c ?b (Some p) (Some (parent_of ?b)) n = Inr ()"
    using connect_on_top [OF chain_reach_ok [OF reach] lone c1(1)] by blast
  have "chain_reach E gb c2" using reach_take [OF reach_connect [OF reach c1(1)] c2(1)] .
  moreover have "mined_as E args base_time i ?b info"
    using build_coinbase_block_fields [OF b0] mine_header_Inr [OF hdr] len
    by (auto simp: mined_as_def info top height_def)
  ultimately show thesis
    using that [of c2 ?b] c2(2) top valid_block_in_window [OF valid] by (simp add: j)
qed

section \<open>The loop\<close>

lemma mine_blocks_ok:
  assumes "mine_blocks E args base_time n (of_nat i) (new_lock c) mined = Inr (res, h)"
    and "chain_reach E gb c" and "orphans c = []" and "length (blocks c) = Suc i"
  shows "\<exists>c' new infos. h = new_lock c' \<and> res = mined @ infos \<and> chain_reach E gb c' \<and> network_time c' = network_time c \<and>
    blocks c' = blocks c @ new \<and> length new = n \<and> length infos = n \<and>
    (\<forall>k<n. mined_as E args base_time (i + k) (new ! k) (infos ! k) \<and>
       time (header (new ! k)) \<le> saturating_add (network_time c) 7200)"
  using assms
proof (induction n arbitrary: i c mined)
  case (Suc n)
  obtain info h1 where one: "mine_one E args base_time (of_nat i) (new_lock c) = Inr (info, h1)"
    and rest: "mine_blocks E args base_time n (of_nat i + 1) h1 (mined @ [info]) = Inr (res, h)"
    using Suc.prems(1) by (auto simp: result_iffs)
  obtain c1 b where c1: "h1 = new_lock c1" "chain_reach E gb c1" "orphans c1 = []" "network_time c1 = network_time c"
    "blocks c1 = blocks c @ [b]" and b: "mined_as E args base_time i b info"
    "time (header b) \<le> saturating_add (network_time c) 7200"
    using mine_one_step [OF one Suc.prems(2-4)] by metis
  have "mine_blocks E args base_time n (of_nat (Suc i)) (new_lock c1) (mined @ [info]) = Inr (res, h)"
    using rest c1(1) by (simp add: add.commute)
  from Suc.IH [OF this c1(2,3)] Suc.prems(4) c1(5)
  obtain c' new infos where tl: "h = new_lock c'" "res = mined @ info # infos" "chain_reach E gb c'"
      "network_time c' = network_time c" "blocks c' = blocks c @ b # new" "length new = n" "length infos = n"
      "\<forall>k<n. mined_as E args base_time (Suc i + k) (new ! k) (infos ! k) \<and>
         time (header (new ! k)) \<le> saturating_add (network_time c) 7200"
    using c1(4) by auto
  have "\<forall>k<Suc n. mined_as E args base_time (i + k) ((b # new) ! k) ((info # infos) ! k) \<and>
      time (header ((b # new) ! k)) \<le> saturating_add (network_time c) 7200"
    using tl(8) b by (auto simp: less_Suc_eq_0_disj)
  then show ?case
    using tl(1-7) by (intro exI [of _ c'] exI [of _ "b # new"] exI [of _ "info # infos"]) simp
next
  case 0
  then show ?case by (intro exI [of _ c] exI [of _ "[]"]) simp
qed

section \<open>The command\<close>

lemma ephemeral_chain_start:
  assumes "ephemeral_chain E nt bts = Inr h"
  obtains gb c where "mined_genesis E bts = Inr gb" "h = new_lock c" "chain_reach E gb c" "orphans c = []"
    "network_time c = nt" "blocks c = [gb]"
proof -
  obtain gb h1 where gb: "mined_genesis E bts = Inr gb" and "map_err CliChain (ch_new_genesis E gb nt) = Inr h1"
    and took: "(case ch_take_events h1 of (Inl e, _) \<Rightarrow> Inl (CliChain e) | (Inr _, h') \<Rightarrow> Inr h') = Inr h"
    using assms by (auto simp: ephemeral_chain_def result_iffs)
  then obtain c1 where c1: "new_genesis E gb nt = Inr c1" "h1 = new_lock c1"
    by (auto simp: ch_new_genesis_def result_iffs)
  note gen = c1(1) [unfolded new_genesis_def]
  obtain evs where "ch_take_events h1 = (Inr evs, h)" using took by (auto split: prod.splits sum.splits)
  then obtain c2 where c2: "take_events c1 = Inr (evs, c2)" "h = new_lock c2"
    unfolding ch_take_events_def c1(2) by (rule chain_lock.access_cases) (auto simp: new_lock_def split: sum.splits prod.splits)
  obtain j where j: "c2 = c1\<lparr>event_journal := j\<rparr>" using take_events_keeps(3) [OF c2(1)] by blast
  have "chain_reach E gb c2" using reach_take [OF reach_genesis [OF gen] c2(1)] .
  moreover have "orphans c2 = [] \<and> network_time c2 = nt \<and> blocks c2 = [gb]"
    by (rule genesis_chain_result [OF gen]) (simp add: j)
  ultimately show thesis using that gb c2(2) by blast
qed

text \<open>Six hundred seconds a block against a window of two hours.\<close>

lemma fourteenth_time_too_late:
  assumes "nt \<le> b" and "nt < 4294960095"
  shows "saturating_add nt 7200 < mine_time b 13"
  using assms unsigned_less [of b]
  by (auto simp: mine_time_def saturating_add_def saturating_mul_def word_le_nat_alt word_less_nat_alt unat_word_ariths
      unsigned_minus_1_eq_mask mask_eq_exp_minus_1)

text \<open>
  C31. The command \<open>mine\<close>: when it succeeds, it leaves a reachable chain of the mined genesis block and \<open>count\<close>
  blocks, block \<open>k\<close> with the timestamp of its index and one coinbase of the requested value, and
  reports height, hash and nonce of each, in order.  As every timestamp has to be at most two hours ahead of the
  network time and the timestamps start there and grow by ten minutes, a request for more than thirteen blocks
  without an explicit time never succeeds (unless the network time is in the last two hours \<open>u32\<close> can express).
\<close>

theorem mine_command:
  assumes "run_mine E clock args = Inr (infos, h)"
  shows "\<exists>nt gb c new. resolve_network_time clock (arg_network_time args) = Inr nt \<and>
    mined_genesis E (arg_bits args) = Inr gb \<and> h = new_lock c \<and> chain_reach E gb c \<and> blocks c = gb # new \<and>
    length new = unat (arg_count args) \<and> length infos = unat (arg_count args) \<and>
    (\<forall>k < unat (arg_count args). mined_as E args (mine_base_time args nt) k (new ! k) (infos ! k)) \<and>
    (arg_time args = None \<and> nt < 4294960095 \<longrightarrow> arg_count args \<le> 13)"
proof -
  let ?n = "unat (arg_count args)"
  obtain nt h0 where nt: "resolve_network_time clock (arg_network_time args) = Inr nt"
    and h0: "ephemeral_chain E nt (arg_bits args) = Inr h0"
    and run: "mine_blocks E args (mine_base_time args nt) ?n (of_nat 0) h0 [] = Inr (infos, h)"
    using assms by (auto simp: run_mine_def result_iffs split: if_splits)
  obtain gb c where c: "mined_genesis E (arg_bits args) = Inr gb" "h0 = new_lock c" "chain_reach E gb c" "orphans c = []"
    "network_time c = nt" "blocks c = [gb]"
    using ephemeral_chain_start [OF h0] by blast
  from mine_blocks_ok [OF run [unfolded c(2)] c(3,4)] c(5,6)
  obtain c' new where c': "h = new_lock c'" "chain_reach E gb c'" "blocks c' = gb # new" "length new = ?n" "length infos = ?n"
    and each: "\<forall>k<?n. mined_as E args (mine_base_time args nt) k (new ! k) (infos ! k) \<and>
      time (header (new ! k)) \<le> saturating_add nt 7200"
    by auto
  have "arg_count args \<le> 13" if "arg_time args = None" "nt < 4294960095"
  proof (rule ccontr)
    assume "\<not> arg_count args \<le> 13"
    then have "13 < ?n" by (simp add: word_le_nat_alt)
    then have "mine_time (mine_base_time args nt) 13 \<le> saturating_add nt 7200"
      using each [rule_format, of 13] by (auto simp: mined_as_def)
    moreover have "nt \<le> mine_base_time args nt" using that by (simp add: mine_base_time_def)
    ultimately show False using fourteenth_time_too_late [OF _ that(2)] by (meson leD)
  qed
  then show ?thesis
    using nt c(1) c' each by (intro exI [of _ nt] exI [of _ gb] exI [of _ c'] exI [of _ new]) simp
qed

text \<open>One block on the toy environment, one second after the genesis block.\<close>

definition sample_args :: mine_args where
  "sample_args = \<lparr>arg_count = 1, arg_value = 50, arg_time = None, arg_bits = 0x1f010000,
     arg_network_time = Some 1231006506\<rparr>"

lemma sample_mine: "mine_header sample_env (header (paid_at t prev hgt v)) 0x1f010000 = (Inr (), header (paid_at t prev hgt v))"
  if "length prev = 32"
proof -
  have "mine_loop sample_env \<lparr>threshold = replicate 30 0 @ [1, 0]\<rparr> (Suc n) (header (paid_at t prev hgt v)) =
      (Inr (sample_hash t), header (paid_at t prev hgt v))" for n
    using sample_hash_block [OF that, of t hgt v] sample_meets [of t] by (simp add: hash_block_def Let_def)
  from this [of 9999999] show ?thesis
    by (simp add: mine_header_def sample_target mine_def MAX_NONCE_ATTEMPTS_def)
qed

lemma sample_mined_genesis: "mined_genesis sample_env 0x1f010000 = Inr (paid_genesis GENESIS_TIME DEFAULT_COINBASE_VALUE)"
  using sample_mine [of "replicate 32 0" GENESIS_TIME 0 DEFAULT_COINBASE_VALUE]
  by (simp add: mined_genesis_def paid_genesis_def Let_def) (simp add: paid_at_def sample_header_def)

lemma sample_run_mine: "\<exists>infos h. run_mine sample_env None sample_args = Inr (infos, h)"
proof -
  let ?g = "paid_genesis GENESIS_TIME DEFAULT_COINBASE_VALUE" and ?t = "1231006506 :: u32"
  let ?p = "sample_hash GENESIS_TIME"
  let ?b = "paid_at ?t ?p 1 50"
  have hash: "hash_block sample_env ?g = ?p" by (simp add: paid_genesis_def sample_hash_block)
  have neq: "sample_hash ?t \<noteq> ?p" "?p \<noteq> replicate 32 0"
    using replicate_Suc [of 31 "0 :: u8"] by (simp_all add: sample_hash_def GENESIS_TIME_def)
  obtain c where c: "new_genesis sample_env ?g ?t = Inr c" using paid_genesis_chain by force
  note gen = c [unfolded new_genesis_def]
  let ?e = "BlockConnected 0 ?p (length (transactions ?g))"
  let ?j = "fst (journal_push ?e (default_journal\<lparr>wallet_high_water := 1\<rparr>))"
  define c1 where "c1 = c\<lparr>event_journal := ?j\<rparr>"
  note gen1 = genesis_other_journal [OF gen, of "default_journal\<lparr>wallet_high_water := 1\<rparr>", unfolded hash, folded c1_def]
  have took: "take_events c = Inr ([?e], c1)"
    using genesis_journal [OF gen]
    by (simp add: take_events_def c1_def hash journal_push_def default_journal_def journal_with_capacity_def
        DEFAULT_CHAIN_EVENT_JOURNAL_CAPACITY_def journal_take_events_def oldest_seq_def lag_error_def saturating_sub_def)
  obtain c2 where c2: "connect_block sample_env ?b c1 = (Inr (Connected 1 (sample_hash ?t)), c2)"
    "event_journal c2 = fst (journal_push (BlockConnected 1 (sample_hash ?t) 1) ?j)"
    using paid_child_connects [OF gen1 _ _ neq, of 50] by (auto simp: GENESIS_TIME_def saturating_add_def c1_def)
  obtain evs c3 where c3: "take_events c2 = Inr (evs, c3)"
    using c2(2)
    by (simp add: take_events_def journal_push_def default_journal_def journal_with_capacity_def
        DEFAULT_CHAIN_EVENT_JOURNAL_CAPACITY_def journal_take_events_def oldest_seq_def lag_error_def saturating_sub_def
        saturating_add_def Let_def)
  have tip: "tip_hash sample_env c1 = ?p"
    by (rule genesis_chain_result [OF gen1]) (simp add: tip_hash_def hash)
  have start: "ephemeral_chain sample_env ?t 0x1f010000 = Inr (new_lock c1)"
    by (simp add: ephemeral_chain_def sample_mined_genesis ch_new_genesis_def c ch_take_events_def ch_write_def write_lock_def
        read_lock_def new_lock_def took)
  have built: "build_coinbase_block sample_env (new_lock c1) 1 ?t 50 0x1f010000 = Inr ?b"
    using coinbase_block_merkle [of sample_env "sample_header ?t ?p" 1 50]
    by (simp add: build_coinbase_block_def ch_tip_hash_def ch_read_def read_lock_def new_lock_def tip paid_at_def sample_header_def
        header_merkle_root_matches_def Let_def ok_or_def split: option.splits)
  have one: "\<exists>info. mine_one sample_env sample_args ?t 0 (new_lock c1) = Inr (info, new_lock c3)"
    using built sample_mine [of ?p ?t 1 50] c2(1) c3
    by (simp add: mine_one_def sample_args_def mine_time_def saturating_mul_def saturating_add_def ch_connect_block_def
        ch_take_events_def ch_write_def write_lock_def read_lock_def new_lock_def)
  then show ?thesis
    using start
    by (auto simp: run_mine_def sample_args_def resolve_network_time_def mine_base_time_def GENESIS_TIME_def max_def)
qed

theorem mine_command_witness:
  "\<exists>c b info. run_mine sample_env None sample_args = Inr ([info], new_lock c) \<and>
     blocks c = [paid_genesis GENESIS_TIME DEFAULT_COINBASE_VALUE, b] \<and>
     mined_as sample_env sample_args 1231006506 0 b info \<and> arg_count sample_args \<le> 13"
proof -
  obtain infos h where run: "run_mine sample_env None sample_args = Inr (infos, h)" using sample_run_mine by blast
  obtain c new where c: "h = new_lock c" "blocks c = paid_genesis GENESIS_TIME DEFAULT_COINBASE_VALUE # new"
    "length new = 1" "length infos = 1" "mined_as sample_env sample_args 1231006506 0 (new ! 0) (infos ! 0)"
    "arg_count sample_args \<le> 13"
    using mine_command [OF run]
    by (auto simp: sample_args_def sample_mined_genesis resolve_network_time_def mine_base_time_def GENESIS_TIME_def max_def)
  have "new = [new ! 0]" "infos = [infos ! 0]" using c(3,4) by (auto simp: length_Suc_conv)
  then show ?thesis
    using run c by (intro exI [of _ c] exI [of _ "new ! 0"] exI [of _ "infos ! 0"]) simp
qed

section \<open>The balance of an address\<close>

text \<open>The events of the genesis block are gone when \<open>ephemeral_chain\<close> returns.\<close>

lemma ephemeral_chain_drained:
  assumes "ephemeral_chain E nt bts = Inr h"
  shows "ch_take_events h = (Inr [], h)"
proof -
  obtain gb h1 where "map_err CliChain (ch_new_genesis E gb nt) = Inr h1"
    and took: "(case ch_take_events h1 of (Inl e, _) \<Rightarrow> Inl (CliChain e) | (Inr _, h') \<Rightarrow> Inr h') = Inr h"
    using assms by (auto simp: ephemeral_chain_def result_iffs)
  then obtain c1 where c1: "genesis_chain E gb nt default_journal default_dj = Inr c1" "h1 = new_lock c1"
    by (auto simp: ch_new_genesis_def new_genesis_def result_iffs)
  define j where "j = (fst (journal_push (BlockConnected 0 (hash_block E gb) (length (transactions gb))) default_journal))
    \<lparr>wallet_high_water := 1\<rparr>"
  note journal_defs = journal_push_def default_journal_def journal_with_capacity_def DEFAULT_CHAIN_EVENT_JOURNAL_CAPACITY_def
    journal_take_events_def oldest_seq_def lag_error_def saturating_sub_def
  have "\<exists>evs. take_events c1 = Inr (evs, c1\<lparr>event_journal := j\<rparr>)"
    using genesis_journal [OF c1(1)] by (simp add: take_events_def j_def journal_defs)
  then have "h = new_lock (c1\<lparr>event_journal := j\<rparr>)"
    using took by (auto simp: c1(2) ch_take_events_def ch_write_def write_lock_def read_lock_def new_lock_def)
  moreover have "take_events (c1\<lparr>event_journal := j\<rparr>) = Inr ([], c1\<lparr>event_journal := j\<rparr>)"
    by (simp add: take_events_def j_def journal_defs)
  ultimately show ?thesis
    by (simp add: ch_take_events_def ch_write_def write_lock_def read_lock_def new_lock_def)
qed

text \<open>\<open>wallet balance\<close> works on the chain of a genesis block and never sees its event: it reports zero for every address.\<close>

theorem balance_is_zero:
  assumes "run_balance E clock n s explicit = Inr (a, v)"
  shows "v = 0"
proof -
  obtain addr nt h where h: "ephemeral_chain E nt DEFAULT_BITS = Inr h"
    and run: "(case ch_take_events h of
         (Inl e, _) \<Rightarrow> Inl (CliChain e)
       | (Inr events, h1) \<Rightarrow>
           and_then (map_err CliChain (with_chain h1 (\<lambda>c. apply_events E events c (watch_address addr new_wallet)))) (\<lambda>(r, w).
           and_then (map_err CliWallet r) (\<lambda>_. Inr (encoded addr, balance w)))) = Inr (a, v)"
    using assms unfolding run_balance_def and_then_Inr_iff by blast
  show ?thesis
    using run
    by (auto simp: ephemeral_chain_drained [OF h] with_chain_def result_iffs watch_address_def new_wallet_def balance_def)
qed

end
