(* ===== verification/Contents.thy ===== *)
theory Contents
  imports ChainProps Mempool
begin

text \<open>
  What a chain and a memory pool hold comes from what they are given: a property of blocks and of their
  transactions that every block and transaction handed to them has, all they ever hold has - the index, the
  active chain, the store, the orphans, the journal of disconnected blocks and the entries of the pool -
  whatever order of reorganisations, evictions and restorations they go through.
\<close>

lemma set_alist_update: "x \<in> set (AList.update k v al) \<Longrightarrow> x = (k, v) \<or> x \<in> set al"
  by (induction al) (auto split: if_splits)

lemma set_alist_delete: "x \<in> set (AList.delete k al) \<Longrightarrow> x \<in> set al"
  by (simp add: AList.delete_eq)

lemma set_mono_tl: "set (tl xs) \<subseteq> set xs"
  by (cases xs) auto

locale content =
  fixes P :: "block \<Rightarrow> bool" and Q :: "transaction \<Rightarrow> bool"
  assumes block_txs: "P b \<Longrightarrow> tx \<in> set (transactions b) \<Longrightarrow> Q tx"
begin

section \<open>Chains\<close>

definition chain_holds :: "chain \<Rightarrow> bool" where
  "chain_holds c \<longleftrightarrow>
     (\<forall>b\<in>set (blocks c). P b) \<and> (\<forall>(h, m)\<in>set (known c). P (meta_block m)) \<and>
     (\<forall>(h, e)\<in>set (orphans c). P (orphan_block e)) \<and> (\<forall>h b. stored_blocks (store c) h = Some b \<longrightarrow> P b) \<and>
     (\<forall>(s, b)\<in>set (dj_entries (disconnected_journal c)). P b)"

lemma holds_fields [simp]:
  "chain_holds (c\<lparr>utxo := u\<rparr>) = chain_holds c" "chain_holds (c\<lparr>total_work := w\<rparr>) = chain_holds c"
  "chain_holds (c\<lparr>active_hashes := hs\<rparr>) = chain_holds c" "chain_holds (c\<lparr>event_journal := j\<rparr>) = chain_holds c"
  "chain_holds (c\<lparr>network_time := t\<rparr>) = chain_holds c" "chain_holds (c\<lparr>orphan_receive_seq := n\<rparr>) = chain_holds c"
  "chain_holds (push_event e c) = chain_holds c"
  by (simp_all add: chain_holds_def push_event_def)

lemma holds_blocks:
  "chain_holds c \<Longrightarrow> \<forall>b\<in>set bs. P b \<Longrightarrow> chain_holds (c\<lparr>blocks := bs\<rparr>)"
  "chain_holds c \<Longrightarrow> b \<in> set (blocks c) \<Longrightarrow> P b"
  by (auto simp: chain_holds_def)

lemma holds_known: "chain_holds c \<Longrightarrow> map_of (known c) h = Some m \<Longrightarrow> P (meta_block m)"
  by (force simp: chain_holds_def dest: map_of_SomeD)

lemma holds_orphan: "chain_holds c \<Longrightarrow> map_of (orphans c) h = Some e \<Longrightarrow> P (orphan_block e)"
  by (force simp: chain_holds_def dest: map_of_SomeD)

lemma holds_block_by_hash: "chain_holds c \<Longrightarrow> block_by_hash c h = Some b \<Longrightarrow> P b"
  by (auto simp: block_by_hash_def intro: holds_known holds_orphan split: option.splits)

lemma holds_insert_known: "chain_holds c \<Longrightarrow> P (meta_block m) \<Longrightarrow> chain_holds (insert_known h m c)"
  by (auto simp: chain_holds_def insert_known_def dest!: set_alist_update)

lemma holds_drop_orphan: "chain_holds c \<Longrightarrow> chain_holds (c\<lparr>orphans := AList.delete h (orphans c)\<rparr>)"
  by (auto simp: chain_holds_def dest!: set_alist_delete)

lemma holds_evict: "chain_holds c \<Longrightarrow> chain_holds (evict_oldest_orphan c)"
  by (auto simp: evict_oldest_orphan_def holds_drop_orphan split: option.split)

lemma holds_add_orphan:
  "chain_holds c \<Longrightarrow> P (orphan_block e) \<Longrightarrow> chain_holds (c\<lparr>orphans := AList.update h e (orphans c)\<rparr>)"
  by (auto simp: chain_holds_def dest!: set_alist_update)

lemma holds_insert_orphan:
  assumes "chain_holds c" "P b"
  shows "chain_holds (insert_orphan E b c)"
proof -
  define c1 where "c1 = (if length (orphans c) \<ge> MAX_ORPHAN_BLOCKS then evict_oldest_orphan c else c)"
  have "chain_holds (c1\<lparr>orphan_receive_seq := orphan_receive_seq c1 + 1\<rparr>)" using assms(1) holds_evict by (simp add: c1_def)
  from holds_add_orphan [OF this, of "\<lparr>orphan_block = b, received_at = orphan_receive_seq c1 + 1\<rparr>"] show ?thesis
    using assms(2) unfolding insert_orphan_def Let_def c1_def [symmetric] by simp
qed

lemma holds_put_store: "chain_holds c \<Longrightarrow> P b \<Longrightarrow> put_store E b c = Inr c' \<Longrightarrow> chain_holds c'"
  by (auto simp: put_store_Inr chain_holds_def split: if_splits)

lemma holds_push_active: "chain_holds c \<Longrightarrow> P b \<Longrightarrow> chain_holds (push_active E b hgt w undo c)"
  unfolding push_active_def Let_def
  by (auto intro!: holds_blocks(1) holds_insert_known) (auto simp: insert_known_def dest: holds_blocks(2))

lemma holds_genesis: "genesis_chain E gb nt ej (dj_with_capacity k) = Inr c \<Longrightarrow> P gb \<Longrightarrow> chain_holds c"
  by (rule genesis_chain_result)
    (auto simp: chain_holds_def dj_with_capacity_def new_memory_store_def split: if_splits)

lemma holds_record:
  "chain_holds c \<Longrightarrow> P b \<Longrightarrow> chain_holds (c\<lparr>disconnected_journal := dj_record sq b (disconnected_journal c)\<rparr>)"
  using set_mono_tl [of "dj_entries (disconnected_journal c)"] unfolding chain_holds_def dj_record_def Let_def by auto

lemma holds_disconnect_tip:
  assumes "chain_holds c" "disconnect_tip_block E c = (r, c')"
  shows "chain_holds c'"
proof (cases "blocks c = []")
  case False
  let ?h = "hash_block E (last (blocks c))"
  define c1 where "c1 = c\<lparr>blocks := butlast (blocks c), active_hashes := active_hashes c - {?h}\<rparr>"
  have b: "P (last (blocks c))" using holds_blocks(2) [OF assms(1)] False by simp
  have "chain_holds (c\<lparr>blocks := butlast (blocks c)\<rparr>)"
    using holds_blocks [OF assms(1)] by (auto intro!: holds_blocks(1) [OF assms(1)] dest: in_set_butlastD)
  then have c1: "chain_holds c1" by (simp add: c1_def)
  show ?thesis
  proof (cases "map_of (known c1) ?h")
    case None
    then have "c' = c1" using assms(2) False by (simp add: disconnect_tip_block_def Let_def c1_def)
    then show ?thesis using c1 by simp
  next
    case (Some m)
    obtain u w j sq where "c' = c1\<lparr>utxo := u, total_work := w, event_journal := j,
        disconnected_journal := dj_record sq (last (blocks c)) (disconnected_journal c1)\<rparr>"
      using assms(2) False Some by (auto simp: disconnect_tip_block_def Let_def c1_def split: prod.splits)
    then show ?thesis
      using holds_record [of "c1\<lparr>utxo := u, total_work := w, event_journal := j\<rparr>", OF _ b, of sq] c1 by simp
  qed
qed (use assms in \<open>simp add: disconnect_tip_block_def\<close>)

lemma holds_disconnect_until: "disconnect_until E fh n c = (r, c') \<Longrightarrow> chain_holds c \<Longrightarrow> chain_holds c'"
proof (induction E fh n c rule: disconnect_until.induct)
  case (1 E fh n c)
  show ?case
  proof (cases "tip_hash E c = fh")
    case True
    then show ?thesis using 1(2,3) by (simp add: disconnect_until.simps)
  next
    case False
    obtain r1 c1 where d: "disconnect_tip_block E c = (r1, c1)" by fastforce
    have c1: "chain_holds c1" using holds_disconnect_tip [OF 1(3) d] .
    show ?thesis
      using 1(1) [OF False d [symmetric] _ _ c1] 1(2) False d c1
      by (cases r1) (simp_all add: disconnect_until.simps [of E fh n c])
  qed
qed

lemma holds_connect_fork_block:
  assumes "chain_holds c" "P b" "connect_fork_block E b c = (r, c')"
  shows "chain_holds c'"
  using assms holds_push_active [of _ b]
  by (auto simp: connect_fork_block_def Let_def split: sum.splits prod.splits dest!: holds_put_store [rotated 2])

lemma holds_connect_fork_path:
  "connect_fork_path E bs c = (r, c') \<Longrightarrow> chain_holds c \<Longrightarrow> \<forall>b\<in>set bs. P b \<Longrightarrow> chain_holds c'"
proof (induction bs arbitrary: c)
  case (Cons b bs)
  obtain r1 c1 where one: "connect_fork_block E b c = (r1, c1)" by fastforce
  have "chain_holds c1" using holds_connect_fork_block [OF _ _ one] Cons.prems by simp
  then show ?case using Cons one by (cases r1) auto
qed simp

lemma holds_fork_path: "fork_path_loop n c path = Inr path' \<Longrightarrow> chain_holds c \<Longrightarrow> \<forall>b\<in>set path. P b \<Longrightarrow> \<forall>b\<in>set path'. P b"
proof (induction n c path rule: fork_path_loop.induct)
  case (2 n c path)
  show ?case
  proof (cases "map_of (known c) (prev_blockhash (header (last path)))")
    case None
    then show ?thesis using 2 by (auto simp: Let_def split: if_splits)
  next
    case (Some m)
    then show ?thesis using 2 holds_known [OF 2(3) Some] by (auto simp: Let_def split: if_splits)
  qed
qed simp

lemma holds_reorg:
  assumes "chain_holds c" "P b" "reorg_to_block E b w c = (r, c')"
  shows "chain_holds c'"
proof (cases "collect_fork_path c b")
  case (Inr x)
  obtain path fh where x: "x = (path, fh)" by fastforce
  have path: "\<forall>b\<in>set path. P b"
    using Inr x holds_fork_path [of _ c "[b]"] assms(1,2)
    by (auto simp: collect_fork_path_def and_then_Inr_iff simp del: fork_path_loop.simps)
  obtain r1 c1 where t: "try_reorg_to_block E path fh w c = (r1, c1)" by fastforce
  have c1: "chain_holds c1"
  proof (cases "find_height c fh")
    case (Some y)
    obtain k c2 where d: "disconnect_until E fh 0 c = (k, c2)" by fastforce
    obtain r3 c3 where f: "connect_fork_path E path c2 = (r3, c3)" by fastforce
    have "chain_holds c2" "chain_holds c3"
      using holds_disconnect_until [OF d assms(1)] holds_connect_fork_path [OF f _ path] by simp_all
    then show ?thesis using t Some d f by (cases k; cases r3) (auto simp: try_reorg_to_block_def)
  qed (use t assms(1) in \<open>simp add: try_reorg_to_block_def\<close>)
  have old: "chain_holds (c1\<lparr>blocks := blocks c\<rparr>)" using holds_blocks(1) [OF c1] holds_blocks(2) [OF assms(1)] by blast
  then have "chain_holds (c1\<lparr>blocks := blocks c, utxo := utxo c, total_work := total_work c, active_hashes := active_hashes c\<rparr>)"
    using holds_fields by (simp only:)
  then show ?thesis using assms(3) Inr x t c1 by (cases r1) (auto simp: reorg_to_block_def)
qed (use assms in \<open>simp add: reorg_to_block_def\<close>)

lemma holds_connect_step:
  assumes c: "chain_holds c" and b: "P b" and res: "connect_step E b hgt w c = (r, c')"
  shows "chain_holds c'"
proof -
  consider "parent_of b = tip_hash E c" | "parent_of b \<noteq> tip_hash E c" "w \<le> total_work c"
    | "parent_of b \<noteq> tip_hash E c" "\<not> w \<le> total_work c" by blast
  then show ?thesis
  proof cases
    case 1
    obtain u undo where ap: "apply_block_transactions E b (utxo c) = (u, undo)" by fastforce
    obtain c1 where c1: "put_store E b (c\<lparr>utxo := u\<rparr>) = Inr c1" by (simp add: put_store_Inr)
    have "chain_holds c1" using holds_put_store [OF _ b c1] c by simp
    then show ?thesis using res 1 holds_push_active [OF _ b] by (auto simp: connect_step_def Let_def ap c1)
  next
    case 2
    then show ?thesis using res holds_insert_known [OF c] b by (auto simp: connect_step_def Let_def)
  next
    case 3
    obtain r1 c1 where reorg: "reorg_to_block E b w c = (r1, c1)" by fastforce
    show ?thesis using res 3 reorg holds_reorg [OF c b reorg] by (auto simp: connect_step_def split: sum.splits)
  qed
qed

lemma holds_connect_one:
  assumes "chain_holds c" "P b" "connect_without_orphans E b c = (r, c')"
  shows "chain_holds c'"
  using assms(3)
proof (cases rule: connect_without_orphans_cases)
  case step
  then show ?thesis using holds_connect_step [OF assms(1,2)] by blast
qed (use assms holds_insert_orphan in simp_all)

lemma remove_ready_Cons:
  "remove_ready (h # ready) (q, c) =
     (case map_of (orphans c) h of
        None \<Rightarrow> remove_ready ready (q, c)
      | Some e \<Rightarrow> remove_ready ready (q @ [orphan_block e], c\<lparr>orphans := AList.delete h (orphans c)\<rparr>))"
  by (cases "map_of (orphans c) h") (simp_all add: remove_ready_def)

lemma holds_remove_ready:
  "remove_ready ready (q, c) = (q', c') \<Longrightarrow> chain_holds c \<Longrightarrow> \<forall>b\<in>set q. P b \<Longrightarrow> chain_holds c' \<and> (\<forall>b\<in>set q'. P b)"
proof (induction ready arbitrary: q c)
  case (Cons h ready)
  show ?case
  proof (cases "map_of (orphans c) h")
    case None
    then have "remove_ready ready (q, c) = (q', c')" using Cons.prems(1) by (simp only: remove_ready_Cons option.case)
    then show ?thesis using Cons.IH Cons.prems(2,3) by blast
  next
    case (Some e)
    have "remove_ready ready (q @ [orphan_block e], c\<lparr>orphans := AList.delete h (orphans c)\<rparr>) = (q', c')"
      using Cons.prems(1) Some by (simp only: remove_ready_Cons option.case)
    moreover have "\<forall>b\<in>set (q @ [orphan_block e]). P b" using holds_orphan [OF Cons.prems(2) Some] Cons.prems(3) by auto
    ultimately show ?thesis using Cons.IH holds_drop_orphan [OF Cons.prems(2)] by blast
  qed
qed (simp add: remove_ready_def)

lemma holds_process_orphans_loop:
  "process_orphans_loop E n (q, c) = (r, c') \<Longrightarrow> chain_holds c \<Longrightarrow> \<forall>b\<in>set q. P b \<Longrightarrow> chain_holds c'"
proof (induction n arbitrary: q c)
  case 0
  then show ?case by (cases q) auto
next
  case (Suc n)
  show ?case
  proof (cases q)
    case (Cons b bs)
    obtain r1 c1 where one: "connect_without_orphans E b c = (r1, c1)" by fastforce
    have c1: "chain_holds c1" using holds_connect_one [OF _ _ one] Suc.prems Cons by simp
    obtain q2 c2 where enq: "enqueue_ready_orphans (bs, c1) = (q2, c2)" by fastforce
    have "chain_holds c2 \<and> (\<forall>b\<in>set q2. P b)"
      using holds_remove_ready [OF enq [unfolded enqueue_ready_orphans_def] c1] Suc.prems(3) Cons by simp
    then show ?thesis using Suc.IH [of q2 c2] Suc.prems(1) Cons one enq c1 by (cases r1) auto
  qed (use Suc.prems in simp)
qed

lemma holds_connect:
  assumes "chain_holds c" "P b" "connect_block E b c = (r, c')"
  shows "chain_holds c'"
  using assms(3)
proof (cases rule: connect_block_split)
  case stop
  then show ?thesis using holds_connect_one [OF assms(1,2)] by blast
next
  case (queue res c1 rq)
  have c1: "chain_holds c1" using holds_connect_one [OF assms(1,2) queue(1)] .
  obtain q2 c2 where enq: "enqueue_ready_orphans ([], c1) = (q2, c2)" by fastforce
  have "chain_holds c2 \<and> (\<forall>b\<in>set q2. P b)"
    using holds_remove_ready [OF enq [unfolded enqueue_ready_orphans_def] c1] by simp
  then show ?thesis using holds_process_orphans_loop queue(3) enq by (auto simp: process_orphans_def)
qed

lemma holds_recovered: "chain_holds c \<Longrightarrow> recovery_disconnected_blocks c since = Inr bs \<Longrightarrow> b \<in> set bs \<Longrightarrow> P b"
  by (force simp: chain_holds_def recovery_disconnected_blocks_def dj_blocks_since_def split: option.splits)

lemma holds_event_blocks:
  "chain_holds c \<Longrightarrow> event_blocks c evs = (con, dis) \<Longrightarrow> (\<forall>b\<in>set con. P b) \<and> (\<forall>b\<in>set dis. P b)"
  by (auto simp: event_blocks_def intro: holds_block_by_hash holds_block_by_hash [OF _ sym] split: chain_event.splits option.splits)

section \<open>Memory pools\<close>

definition pool_holds :: "mempool \<Rightarrow> bool" where
  "pool_holds p \<longleftrightarrow> (\<forall>(tid, e)\<in>set (pool_entries p). Q (entry_tx e))"

lemma pool_holds_new [simp]: "pool_holds (new_mempool lim)"
  by (simp add: pool_holds_def new_mempool_def)

lemma pool_holds_get: "pool_holds p \<Longrightarrow> get_transaction tid p = Some tx \<Longrightarrow> Q tx"
  by (force simp: pool_holds_def get_transaction_def dest: map_of_SomeD)

lemma pool_holds_remove_entry: "pool_holds p \<Longrightarrow> pool_holds (remove_entry tid p)"
  by (auto simp: pool_holds_def remove_entry_def dest!: set_alist_delete split: option.splits)

lemma pool_holds_remove: "pool_holds p \<Longrightarrow> pool_holds (remove_entries ids p)"
  unfolding remove_entries_def by (induction ids arbitrary: p) (auto intro: pool_holds_remove_entry)

lemma pool_holds_room: "make_room_for e p = (r, p') \<Longrightarrow> pool_holds p \<Longrightarrow> pool_holds p'"
proof (induction e p rule: make_room_for.induct)
  case (1 candidate p)
  show ?case
  proof (cases "\<not> would_exceed_limits (entry_size candidate) p")
    case True
    then show ?thesis using 1(2,3) by (simp add: make_room_for.simps)
  next
    case full: False
    show ?thesis
    proof (cases "lowest_priority_txid p")
      case None
      then show ?thesis using 1(2,3) full by (simp add: make_room_for.simps)
    next
      case (Some victim)
      show ?thesis
      proof (cases "should_evict victim candidate p")
        case True
        then have "make_room_for candidate (remove_entry_and_descendants victim p) = (r, p')"
          using 1(2) full Some by (simp add: make_room_for.simps [of candidate p])
        then show ?thesis
          using 1(1) [OF full Some] True pool_holds_remove [OF 1(3)] by (simp add: remove_entry_and_descendants_def)
      next
        case False
        then show ?thesis using 1(2,3) full Some by (simp add: make_room_for.simps [of candidate p])
      qed
    qed
  qed
qed

lemma pool_holds_insert: "pool_holds p \<Longrightarrow> Q (entry_tx e) \<Longrightarrow> pool_holds (insert_entry tid e p)"
  by (auto simp: pool_holds_def insert_entry_def dest!: set_alist_update)

lemma pool_holds_accept: "accept_tx E tx u p = (r, p') \<Longrightarrow> pool_holds p \<Longrightarrow> Q tx \<Longrightarrow> pool_holds p'"
  unfolding accept_tx_def Let_def
  by (auto split: sum.splits prod.splits intro: pool_holds_room intro!: pool_holds_insert)

lemma pool_holds_blocks: "pool_holds p \<Longrightarrow> pool_holds (foldl (\<lambda>p b. remove_for_block E b p) p bs)"
  by (induction bs arbitrary: p) (auto simp: remove_for_block_def intro: pool_holds_remove)

lemma pool_holds_revalidate_loop: "revalidate_loop E u n p = Some p' \<Longrightarrow> pool_holds p \<Longrightarrow> pool_holds p'"
  by (induction E u n p rule: revalidate_loop.induct) (auto simp: Let_def intro: pool_holds_remove split: if_splits)

lemma pool_holds_revalidate: "revalidate_pool E u p = Some p' \<Longrightarrow> pool_holds p \<Longrightarrow> pool_holds p'"
  unfolding revalidate_pool_def by (rule pool_holds_revalidate_loop)

lemma pool_holds_restore_pass:
  "restore_pass E u txs p = (refused, p') \<Longrightarrow> pool_holds p \<Longrightarrow> \<forall>tx\<in>set txs. Q tx \<Longrightarrow>
     pool_holds p' \<and> (\<forall>tx\<in>set refused. Q tx)"
proof (induction txs arbitrary: p refused p')
  case (Cons tx txs)
  obtain r p1 where one: "accept_tx E tx u p = (r, p1)" by fastforce
  have p1: "pool_holds p1" using pool_holds_accept [OF one] Cons.prems by simp
  obtain ref p2 where two: "restore_pass E u txs p1 = (ref, p2)" by fastforce
  show ?case using Cons.IH [OF two p1] Cons.prems one two by (cases r) auto
qed simp

lemma pool_holds_restore: "pool_holds p \<Longrightarrow> \<forall>tx\<in>set txs. Q tx \<Longrightarrow> pool_holds (restore_candidates E u txs p)"
proof (induction E u txs p rule: restore_candidates.induct)
  case (1 E u pending p)
  obtain refused p1 where one: "restore_pass E u pending p = (refused, p1)" by fastforce
  note kept = pool_holds_restore_pass [OF one 1(2,3)]
  show ?case
    using 1(1) [OF one [symmetric]] kept one by (simp add: restore_candidates.simps [of E u pending p])
qed

lemma restorable_holds: "\<forall>b\<in>set bs. P b \<Longrightarrow> \<forall>tx\<in>set (restorable bs). Q tx"
  by (auto simp: restorable_def dest: in_set_dropD intro: block_txs)

lemma pool_holds_synchronize:
  "synchronize_to_chain E u con dis p = Some p' \<Longrightarrow> pool_holds p \<Longrightarrow> \<forall>b\<in>set dis. P b \<Longrightarrow> pool_holds p'"
  unfolding synchronize_to_chain_def using pool_holds_blocks pool_holds_revalidate
  by (auto intro!: pool_holds_restore restorable_holds)

lemma pool_holds_events:
  "apply_chain_events E evs c p = Some p' \<Longrightarrow> pool_holds p \<Longrightarrow> chain_holds c \<Longrightarrow> pool_holds p'"
  using holds_event_blocks [of c evs] by (cases "event_blocks c evs") (auto simp: apply_chain_events_def intro: pool_holds_synchronize)

lemma pool_holds_resync:
  assumes "resync_to_active_chain E c since p = (r, Some p')" "pool_holds p" "chain_holds c"
  shows "pool_holds p'"
proof (cases "recovery_disconnected_blocks c since")
  case (Inr dis)
  define p1 where "p1 = foldl (\<lambda>p h. case active_block_at c (of_nat h) of None \<Rightarrow> p | Some b \<Rightarrow> remove_for_block E b p) p [0..<unat (height c) + 1]"
  have "pool_holds (foldl (\<lambda>p h. case active_block_at c (of_nat h) of None \<Rightarrow> p | Some b \<Rightarrow> remove_for_block E b p) p hs)" for hs
    using assms(2) by (induction hs arbitrary: p) (auto simp: remove_for_block_def intro: pool_holds_remove split: option.split)
  then have "pool_holds p1" unfolding p1_def .
  moreover obtain p2 where "revalidate_pool E (utxo c) p1 = Some p2" "p' = restore_candidates E (utxo c) (restorable dis) p2"
    using assms(1) Inr by (auto simp: resync_to_active_chain_def Let_def p1_def simp del: upt_Suc)
  ultimately show ?thesis
    using pool_holds_restore [OF pool_holds_revalidate restorable_holds] holds_recovered [OF assms(3) Inr] by blast
qed (use assms in \<open>simp add: resync_to_active_chain_def\<close>)

lemma pool_holds_serve:
  "serve_transaction E tid u p = (r, p') \<Longrightarrow> pool_holds p \<Longrightarrow> pool_holds p' \<and> (\<forall>tx. r = Some tx \<longrightarrow> Q tx)"
  by (auto simp: serve_transaction_def intro: pool_holds_remove_entry pool_holds_get split: option.splits if_splits)

end

end
