(* ===== verification/WireNode.thy ===== *)
theory WireNode
  imports Contents NodeTheorems FramingTheorems
begin

text \<open>
  The data a node holds and sends is of its wire type: every block and transaction, wherever it is kept,
  is within the limits the decoders of \<open>bitrst\<close> accept, and so is every message a handler produces, whatever
  bytes the peers send.
\<close>

definition wire_tx :: "transaction \<Rightarrow> bool" where
  "wire_tx tx \<longleftrightarrow> valid_tx tx \<and> tx_serialized_size tx \<le> MAX_TRANSACTION_SERIALIZED_SIZE"

lemma block_tx_wire:
  assumes "valid_block_encoding b" "tx \<in> set (transactions b)"
  shows "wire_tx tx"
proof -
  have "tx_serialized_size tx \<le> sum_list (map tx_serialized_size (transactions b))"
    using assms(2) by (simp add: member_le_sum_list)
  then show ?thesis
    using assms by (auto simp: wire_tx_def valid_block_encoding_def list_all_iff block_serialized_size_def limit_defs)
qed

interpretation wire: content valid_block_encoding wire_tx
  by unfold_locales (rule block_tx_wire)

definition wire_node :: "node \<Rightarrow> bool" where
  "wire_node n \<longleftrightarrow>
     wire.chain_holds (lock_state (node_chain n)) \<and> wire.pool_holds (lock_state (node_mempool n))"

section \<open>Messages a peer can read\<close>

text \<open>A message of the wire type that \<open>write_message\<close> sends when the socket takes it.\<close>

definition readable :: "env \<Rightarrow> p2p_network \<Rightarrow> message \<Rightarrow> bool" where
  "readable E net m \<longleftrightarrow> wire_message m \<and> is_ok (fst (write_message E net (\<lambda>_. None) m))"

lemma write_message_ok:
  assumes "hash_ok E" "encode_payload m = Inr (cmd, pl)" "valid_command cmd" "length pl \<le> MAX_PAYLOAD_SIZE"
  shows "is_ok (fst (write_message E net (\<lambda>_. None) m))"
  using assms(2-4)
  by (simp add: write_message_def is_ok_iff encode_message_header_iff [OF assms(1) length_magic, THEN iffD2])

lemma valid_commands:
  "valid_command (rust_str ''inv'')" "valid_command (rust_str ''getdata'')" "valid_command (rust_str ''block'')"
  "valid_command (rust_str ''tx'')"
  by (simp_all add: valid_command_def rust_str_def printable_def)

lemma compact_size_short: "compact_size_encoded_len v \<le> 9"
  by (simp add: compact_size_encoded_len_def)

lemma encode_inventory_ok:
  assumes "length invs \<le> MAX_INV_COUNT" "list_all (\<lambda>i. length (inv_hash i) = 32) invs"
  shows "\<exists>pl. encode_inventory_list invs = Inr pl \<and> length pl \<le> MAX_PAYLOAD_SIZE"
proof -
  have "length (concat (map write_inv_entry invs)) = 36 * length invs"
    using assms(2) by (induction invs) (simp_all add: write_inv_entry_def)
  then show ?thesis
    using assms(1) compact_size_short [of "of_nat (length invs)"]
    by (simp add: encode_inventory_list_def length_write_compact_size MAX_INV_COUNT_def MAX_PAYLOAD_SIZE_def limit_defs)
qed

lemma readable_inventory:
  assumes "hash_ok E" "length invs \<le> MAX_INV_COUNT" "list_all (\<lambda>i. length (inv_hash i) = 32) invs"
  shows "readable E net (inv_message invs)" "readable E net (getdata_message invs)"
proof -
  obtain pl where pl: "encode_inventory_list invs = Inr pl" "length pl \<le> MAX_PAYLOAD_SIZE"
    using encode_inventory_ok [OF assms(2,3)] by blast
  have "encode_payload (inv_message invs) = Inr (rust_str ''inv'', pl)"
    "encode_payload (getdata_message invs) = Inr (rust_str ''getdata'', pl)"
    using pl(1) by (simp_all add: encode_payload_def inv_message_def getdata_message_def encode_inv_def encode_getdata_def)
  then show "readable E net (inv_message invs)" "readable E net (getdata_message invs)"
    using write_message_ok [OF assms(1)] valid_commands pl(2) assms(3)
    by (auto simp: readable_def wire_message_def) (simp_all add: inv_message_def getdata_message_def)
qed

lemma readable_block:
  assumes "hash_ok E" "valid_block_encoding b"
  shows "readable E net (block_message b)"
proof -
  have "encode_payload (block_message b) = Inr (rust_str ''block'', serialize_block b)"
    by (simp add: encode_payload_def block_message_def)
  moreover have "length (serialize_block b) \<le> MAX_PAYLOAD_SIZE"
    using length_serialize_block [OF valid_block_encoding_shaped [OF assms(2)]] assms(2)
    by (simp add: valid_block_encoding_def MAX_PAYLOAD_SIZE_def)
  ultimately show ?thesis
    using write_message_ok [OF assms(1)] valid_commands assms(2) by (auto simp: readable_def wire_message_def block_message_def)
qed

lemma readable_tx:
  assumes "hash_ok E" "wire_tx tx"
  shows "readable E net (tx_message tx)"
proof -
  have tx: "valid_tx tx" "tx_serialized_size tx \<le> MAX_TRANSACTION_SERIALIZED_SIZE" using assms(2) by (simp_all add: wire_tx_def)
  have "encode_payload (tx_message tx) = Inr (rust_str ''tx'', serialize_tx tx)"
    by (simp add: encode_payload_def tx_message_def)
  moreover have "length (serialize_tx tx) \<le> MAX_PAYLOAD_SIZE"
    using length_serialize_tx [OF valid_shaped_tx [OF tx(1)]] tx(2)
    by (simp add: MAX_PAYLOAD_SIZE_def MAX_TRANSACTION_SERIALIZED_SIZE_def)
  ultimately show ?thesis
    using write_message_ok [OF assms(1)] valid_commands tx by (auto simp: readable_def wire_message_def tx_message_def)
qed

text \<open>What the decoder returns has the wire type of its payload.\<close>

lemma decoded_payload:
  assumes "decode_payload cmd bs = Inr m"
  shows "payload m = BlockPayload b \<Longrightarrow> valid_block_encoding b"
    and "payload m = TxPayload tx \<Longrightarrow> wire_tx tx"
    and "payload m = InvPayload invs \<Longrightarrow> length invs \<le> MAX_INV_COUNT \<and> list_all (\<lambda>i. length (inv_hash i) = 32) invs"
    and "payload m = GetDataPayload invs \<Longrightarrow> length invs \<le> MAX_INV_COUNT \<and> list_all (\<lambda>i. length (inv_hash i) = 32) invs"
proof -
  have inv: "decode_inventory_list bs ctx = Inr invs \<Longrightarrow> length invs \<le> MAX_INV_COUNT \<and> list_all (\<lambda>i. length (inv_hash i) = 32) invs" for ctx
    by (auto simp: decode_inventory_list_Inr_iff encode_inventory_list_def split: if_splits)
  show "payload m = BlockPayload b \<Longrightarrow> valid_block_encoding b"
    using assms by (auto simp: decode_payload_def and_then_Inr_iff deserialize_block_Inr_iff split: if_splits)
  show "payload m = TxPayload tx \<Longrightarrow> wire_tx tx"
    using assms length_serialize_tx [OF valid_shaped_tx, of tx]
    by (auto simp: decode_payload_def and_then_Inr_iff deserialize_tx_Inr_iff wire_tx_def split: if_splits)
  show "payload m = InvPayload invs \<Longrightarrow> length invs \<le> MAX_INV_COUNT \<and> list_all (\<lambda>i. length (inv_hash i) = 32) invs"
    using assms inv by (auto simp: decode_payload_def and_then_Inr_iff decode_inv_def split: if_splits)
  show "payload m = GetDataPayload invs \<Longrightarrow> length invs \<le> MAX_INV_COUNT \<and> list_all (\<lambda>i. length (inv_hash i) = 32) invs"
    using assms inv by (auto simp: decode_payload_def and_then_Inr_iff decode_getdata_def split: if_splits)
qed

section \<open>The operations of the handles\<close>

lemma wire_connect:
  assumes "ch_connect_block E b ch = (r, ch')" "wire.chain_holds (lock_state ch)" "valid_block_encoding b"
  shows "wire.chain_holds (lock_state ch')"
  using assms(1) unfolding ch_connect_block_def
  by (rule chain_lock.access_keeps) (use assms(2,3) wire.holds_connect in blast)+

lemma wire_accept:
  assumes "mh_accept_tx E tx u mh = (r, mh')" "wire.pool_holds (lock_state mh)" "wire_tx tx"
  shows "wire.pool_holds (lock_state mh')"
  using assms(1) unfolding mh_accept_tx_def
  by (rule pool_lock.access_keeps [where P = wire.pool_holds])
    (use assms(2,3) wire.pool_holds_accept in \<open>auto simp: apfst_def map_prod_def split: prod.splits\<close>)

lemma wire_events:
  assumes "mh_apply_chain_events E evs c mh = (r, mh')" "wire.pool_holds (lock_state mh)" "wire.chain_holds c"
  shows "wire.pool_holds (lock_state mh')"
  using assms(1) unfolding mh_apply_chain_events_def
  by (rule pool_lock.access_keeps [where P = wire.pool_holds])
    (use assms(2,3) wire.pool_holds_events in \<open>auto split: option.splits\<close>)

lemma wire_resync:
  assumes "mh_resync_to_active_chain E c since mh = (r, mh')" "wire.pool_holds (lock_state mh)" "wire.chain_holds c"
  shows "wire.pool_holds (lock_state mh')"
  using assms(1) unfolding mh_resync_to_active_chain_def
  by (rule pool_lock.access_keeps [where P = wire.pool_holds])
    (use assms(2,3) wire.pool_holds_resync in \<open>auto split: option.splits prod.splits\<close>)

lemma wire_serve:
  assumes "mh_serve_transaction E tid u mh = (r, mh')" "wire.pool_holds (lock_state mh)"
  shows "wire.pool_holds (lock_state mh')" "r = Inr (Some tx) \<Longrightarrow> wire_tx tx"
proof -
  note run = assms(1) [unfolded mh_serve_transaction_def]
  show "wire.pool_holds (lock_state mh')" "r = Inr (Some tx) \<Longrightarrow> wire_tx tx"
    by (rule pool_lock.access_cases [OF run];
        use assms(2) wire.pool_holds_serve in \<open>force simp: apfst_def map_prod_def split: prod.splits\<close>)+
qed

lemma wire_sync:
  assumes "sync_mempool E n rs = (r, n', rs')" "wire_node n"
  shows "wire_node n'"
proof -
  let ?c = "lock_state (node_chain n)" and ?mh = "node_mempool n"
  have hold: "wire.chain_holds ?c" "wire.pool_holds (lock_state ?mh)" using assms(2) by (simp_all add: wire_node_def)
  have same: "node_chain n' = node_chain n"
    using assms(1) by (auto simp: sync_mempool_def Let_def split: sum.splits chain_error.splits if_splits prod.splits)
  have "node_mempool n' = ?mh \<or> (\<exists>evs r. mh_apply_chain_events E evs ?c ?mh = (r, node_mempool n')) \<or>
      (\<exists>since r. mh_resync_to_active_chain E ?c since ?mh = (r, node_mempool n'))"
    using assms(1)
    by (auto simp: sync_mempool_def Let_def with_chain_def ch_read_def read_lock_def
        split: sum.splits chain_error.splits if_splits prod.splits)
  then show ?thesis using same hold wire_events wire_resync by (auto simp: wire_node_def)
qed

section \<open>The handlers\<close>

text \<open>What an action makes the node send: an announcement goes to the other peers as one inventory.\<close>

fun outgoing :: "relay_action \<Rightarrow> message list" where
  "outgoing NoAction = []"
| "outgoing (Reply ms) = ms"
| "outgoing (Announce invs) = [inv_message invs]"

definition wire_action :: "env \<Rightarrow> p2p_network \<Rightarrow> (relay_error + relay_action) \<Rightarrow> bool" where
  "wire_action E net r \<longleftrightarrow> (\<forall>a. r = Inr a \<longrightarrow> list_all (readable E net) (outgoing a))"

lemma wire_action_simps [simp]:
  "wire_action E net (Inl e)" "wire_action E net (Inr NoAction)"
  "wire_action E net (Inr (Reply ms)) = list_all (readable E net) ms"
  "wire_action E net (Inr (Announce invs)) = readable E net (inv_message invs)"
  by (auto simp: wire_action_def)

lemma readable_one:
  assumes "hash_ok E" "length h = 32"
  shows "readable E net (inv_message [\<lparr>inv_type = t, inv_hash = h\<rparr>])" "readable E net (getdata_message [\<lparr>inv_type = t, inv_hash = h\<rparr>])"
  using readable_inventory [OF assms(1), of "[\<lparr>inv_type = t, inv_hash = h\<rparr>]"] assms(2) by (simp_all add: MAX_INV_COUNT_def)

lemma wire_handle_tx:
  assumes "handle_tx E n rs tx = (r, n', rs')" "wire_node n" "wire_tx tx" "hash_ok E"
  shows "wire_node n' \<and> wire_action E net r"
proof -
  obtain r1 mh where acc: "mh_accept_tx E tx (utxo (lock_state (node_chain n))) (node_mempool n) = (r1, mh)" by fastforce
  have mh: "wire.pool_holds (lock_state mh)" using wire_accept [OF acc _ assms(3)] assms(2) by (simp add: wire_node_def)
  have id: "accepted_txid a = txid E tx" if "r1 = Inr a" for a
    using acc that unfolding mh_accept_tx_def
    by (rule_tac pool_lock.access_cases) (auto simp: accept_tx_def Let_def split: sum.splits prod.splits)
  show ?thesis
    using assms(1,2) mh id readable_one(1) [OF assms(4) hash_ok_merkle [OF assms(4)]]
    by (auto simp: handle_tx_def Let_def with_chain_def ch_read_def read_lock_def acc wire_node_def
        split: if_splits sum.splits mempool_handle_error.splits)
qed

lemma wire_handle_block:
  assumes run: "handle_block E n rs b now = (r, n', rs')" and n: "wire_node n" and b: "valid_block_encoding b" and ok: "hash_ok E"
  shows "wire_node n' \<and> wire_action E net r"
proof -
  obtain rc ch where conn: "ch_connect_block E b (node_chain n) = (rc, ch)" by fastforce
  define n1 where "n1 = n\<lparr>node_chain := ch\<rparr>"
  have n1: "wire_node n1" using wire_connect [OF conn _ b] n by (simp add: wire_node_def n1_def)
  obtain s n2 rs2 where sy: "sync_mempool E n1 (rs\<lparr>block_requests := bt_clear (hash_block E b) (block_requests rs)\<rparr>) = (s, n2, rs2)"
    by (metis prod_cases3)
  have n2: "wire_node n2" using wire_sync [OF sy n1] .
  obtain rm rs3 where miss: "request_missing_block ch rs (prev_blockhash (header b)) now = (rm, rs3)" by fastforce
  have parent: "length (prev_blockhash (header b)) = 32" using b by (simp add: valid_block_encoding_def shaped_header_def)
  have rm: "wire_action E net (map_err RelayChain rm)"
    using miss readable_one(2) [OF ok parent]
    by (auto simp: request_missing_block_def split: sum.splits bool.splits prod.splits)
  note one = readable_one(1) [OF ok length_hash_block [OF ok]]
  show ?thesis
  proof (cases rc)
    case (Inr res)
    then show ?thesis using run n1 n2 rm one miss
      by (cases res; cases s) (auto simp: handle_block_def Let_def conn sy simp flip: n1_def)
  next
    case (Inl e)
    then show ?thesis using run n1 by (cases e) (auto simp: handle_block_def Let_def conn simp flip: n1_def)
  qed
qed

lemma inv_loop_requests: "inv_loop n now invs acc rs = (Inr reqs, rs') \<Longrightarrow> \<exists>more. reqs = acc @ more \<and> subseq more invs"
proof (induction invs arbitrary: acc rs)
  case (Cons i invs)
  have "\<exists>acc1 rs1. inv_loop n now invs acc1 rs1 = (Inr reqs, rs') \<and> (acc1 = acc \<or> acc1 = acc @ [i])"
    using Cons.prems by (auto split: inv_type.splits sum.splits bool.splits prod.splits)
  then obtain acc1 rs1 where step: "inv_loop n now invs acc1 rs1 = (Inr reqs, rs')" "acc1 = acc \<or> acc1 = acc @ [i]" by blast
  obtain more where "reqs = acc1 @ more" "subseq more invs" using Cons.IH [OF step(1)] by blast
  then show ?case using step(2) by auto
qed simp

lemma wire_handle_inv:
  assumes "handle_inv n rs invs now = (r, rs')" "hash_ok E"
    and "length invs \<le> MAX_INV_COUNT" "list_all (\<lambda>i. length (inv_hash i) = 32) invs"
  shows "wire_action E net r"
proof -
  obtain r1 rs1 where loop: "inv_loop n now invs [] rs = (r1, rs1)" by fastforce
  show ?thesis
  proof (cases r1)
    case (Inr reqs)
    then have sub: "subseq reqs invs" using inv_loop_requests [of n now invs "[]" rs reqs rs1] loop by auto
    have "length reqs \<le> MAX_INV_COUNT" "list_all (\<lambda>i. length (inv_hash i) = 32) reqs"
      using list_emb_length [OF sub] list_emb_set [OF sub] assms(3,4) by (auto simp: list_all_iff)
    from readable_inventory(2) [OF assms(2) this] show ?thesis using assms(1) loop Inr by (auto simp: handle_inv_def)
  qed (use assms(1) loop in \<open>auto simp: handle_inv_def\<close>)
qed

lemma wire_getdata_loop:
  "getdata_loop E invs acc n = (replies, n') \<Longrightarrow> wire_node n \<Longrightarrow> hash_ok E \<Longrightarrow> list_all (readable E net) acc \<Longrightarrow>
     wire_node n' \<and> list_all (readable E net) replies"
proof (induction invs arbitrary: acc n)
  case (Cons i invs)
  obtain r mh where sv: "mh_serve_transaction E (inv_hash i) (utxo (lock_state (node_chain n))) (node_mempool n) = (r, mh)"
    by fastforce
  have hold: "wire.chain_holds (lock_state (node_chain n))" "wire.pool_holds (lock_state (node_mempool n))"
    using Cons.prems(2) by (simp_all add: wire_node_def)
  have mh: "wire_node (n\<lparr>node_mempool := mh\<rparr>)" using wire_serve(1) [OF sv hold(2)] hold(1) by (simp add: wire_node_def)
  have "\<exists>acc1 n1. getdata_loop E invs acc1 n1 = (replies, n') \<and> wire_node n1 \<and> list_all (readable E net) acc1"
  proof (cases "inv_type i")
    case InvBlock
    have "readable E net (block_message b)" if "block_by_hash (lock_state (node_chain n)) (inv_hash i) = Some b" for b
      using readable_block [OF Cons.prems(3)] wire.holds_block_by_hash [OF hold(1) that] by blast
    then show ?thesis
      using Cons.prems InvBlock
      by (auto simp: ch_get_block_def ch_read_def read_lock_def split: if_splits option.splits intro!: exI)
  next
    case InvTransaction
    have "readable E net (tx_message tx)" if "r = Inr (Some tx)" for tx
      using readable_tx [OF Cons.prems(3)] wire_serve(2) [OF sv hold(2) that] by blast
    then show ?thesis
      using Cons.prems InvTransaction mh
      by (cases "lock_poisoned (node_chain n)")
        (auto simp: with_chain_def ch_read_def read_lock_def sv split: sum.splits option.splits intro!: exI)
  qed (use Cons.prems in auto)
  then show ?case using Cons.IH Cons.prems(3) by blast
qed simp

lemma wire_message_handled:
  assumes dec: "decode_payload cmd bs = Inr m" and ok: "hash_ok E" and n: "wire_node n"
    and run: "handle_peer_message E n rs m now = (r, n', rs')"
  shows "wire_node n' \<and> wire_action E net r"
proof (cases "payload m")
  case (BlockPayload b)
  then show ?thesis using run wire_handle_block [OF _ n decoded_payload(1) [OF dec BlockPayload] ok] by (simp add: handle_peer_message_def)
next
  case (TxPayload tx)
  then show ?thesis using run wire_handle_tx [OF _ n decoded_payload(2) [OF dec TxPayload] ok] by (simp add: handle_peer_message_def)
next
  case (InvPayload invs)
  obtain r1 rs1 where inv: "handle_inv n rs invs now = (r1, rs1)" by fastforce
  show ?thesis
    using run n InvPayload inv wire_handle_inv [OF inv ok] decoded_payload(3) [OF dec InvPayload] by (simp add: handle_peer_message_def)
next
  case (GetDataPayload invs)
  obtain replies n1 where loop: "getdata_loop E invs [] n = (replies, n1)" by fastforce
  show ?thesis
    using run GetDataPayload loop wire_getdata_loop [OF loop n ok, of net]
    by (auto simp: handle_peer_message_def handle_getdata_def)
qed (use run n in \<open>auto simp: handle_peer_message_def\<close>)

text \<open>A node starts with data of the wire type when its genesis block is.\<close>

lemma wire_node_start:
  assumes "ch_new_genesis E gb nt = Inr ch" "valid_block_encoding gb"
  shows "wire_node \<lparr>node_chain = ch, node_mempool = mh_with_limits lim\<rparr>"
proof -
  obtain c where c: "genesis_chain E gb nt default_journal default_dj = Inr c" "ch = new_lock c"
    using assms(1) by (auto simp: ch_new_genesis_def new_genesis_def and_then_Inr_iff)
  show ?thesis
    using wire.holds_genesis [OF c(1) [unfolded default_dj_def] assms(2)]
    by (simp add: wire_node_def c(2) new_lock_def mh_with_limits_def)
qed

text \<open>
  C17. A node speaks the wire format: when all it holds is of the wire type - every block and transaction
  within the limits of the decoders - then, whatever bytes a peer sends, if they decode to a message,
  everything it holds afterwards is of the wire type again, and whatever it sends in consequence, replies
  and announcements alike, is read back by the peers' framed reader message by message, unchanged, in
  whatever chunks the stream arrives.
\<close>

theorem node_speaks_wire:
  assumes "hash_ok E" and "wire_node n" and "decode_payload cmd bs = Inr m"
    and "handle_peer_message E n rs m now = (r, n', rs')"
  shows "wire_node n' \<and>
    (\<forall>a cs after. r = Inr a \<and> (\<forall>c\<in>set cs. c \<noteq> []) \<and> concat cs = writer_task E net (\<lambda>_ _. None) 0 (outgoing a) @ after \<longrightarrow>
       framed_read_many E net (length (outgoing a)) [] (map Data cs) = Inr (outgoing a))"
proof -
  note ok = wire_message_handled [OF assms(3,1,2,4), of net]
  have "framed_read_many E net (length (outgoing a)) [] (map Data cs) = Inr (outgoing a)"
    if "r = Inr a" "\<forall>c\<in>set cs. c \<noteq> []" "concat cs = writer_task E net (\<lambda>_ _. None) 0 (outgoing a) @ after" for a cs after
  proof (rule read_back [OF assms(1) _ that(2)])
    show "\<forall>m\<in>set (outgoing a). wire_message m \<and> is_ok (fst (write_message E net (\<lambda>_. None) m))"
      using ok that(1) by (auto simp: wire_action_def readable_def list_all_iff)
  qed (use that(3) in simp)
  then show ?thesis using ok by blast
qed

text \<open>A peer asks for the genesis block and reads it.\<close>

lemma paid_at_wire:
  assumes "length prev = 32"
  shows "valid_block_encoding (paid_at t prev hgt v)"
proof -
  obtain root where "length root = 32" "header (paid_at t prev hgt v) = (sample_header t prev)\<lparr>hdr_merkle_root := root\<rparr>"
    using coinbase_root by blast
  then have "shaped_header (header (paid_at t prev hgt v))" using assms by (simp add: shaped_header_def sample_header_def)
  then show ?thesis
    by (simp add: valid_block_encoding_def valid_tx_def valid_input_def valid_output_def coinbase_tx_def limit_defs
        block_serialized_size_def tx_serialized_size_def compact_size_encoded_len_def)
qed

theorem node_speaks_wire_witness:
  "\<exists>c bs n' rs' w. new_genesis sample_env sample_genesis 10 = Inr c \<and>
     decode_payload (rust_str ''getdata'') bs = Inr (getdata_message [\<lparr>inv_type = InvBlock, inv_hash = sample_hash 1\<rparr>]) \<and>
     handle_peer_message sample_env (sample_node c) (with_event_cursor sample_env (event_cursor c))
       (getdata_message [\<lparr>inv_type = InvBlock, inv_hash = sample_hash 1\<rparr>]) 5 =
         (Inr (Reply [block_message sample_genesis]), n', rs') \<and> wire_node n' \<and>
     w = writer_task sample_env P2PTestnet (\<lambda>_ _. None) 0 [block_message sample_genesis] \<and> w \<noteq> [] \<and>
     framed_read_many sample_env P2PTestnet 1 [] [Data w] = Inr [block_message sample_genesis]"
proof -
  obtain c where c: "new_genesis sample_env sample_genesis 10 = Inr c" using sample_genesis_chain by blast
  let ?m = "getdata_message [\<lparr>inv_type = InvBlock, inv_hash = sample_hash 1\<rparr>]"
  let ?w = "writer_task sample_env P2PTestnet (\<lambda>_ _. None) 0 [block_message sample_genesis]"
  have gen: "valid_block_encoding sample_genesis" unfolding sample_genesis_def by (rule paid_at_wire) simp
  have n: "wire_node (sample_node c)"
    using wire_node_start [OF _ gen, of sample_env 10 "new_lock c" default_limits] c
    by (simp add: sample_node_def ch_new_genesis_def mh_new_def)
  obtain bs where "encode_inventory_list [\<lparr>inv_type = InvBlock, inv_hash = sample_hash 1\<rparr>] = Inr bs"
    using encode_inventory_ok [of "[\<lparr>inv_type = InvBlock, inv_hash = sample_hash 1\<rparr>]"] by (auto simp: MAX_INV_COUNT_def)
  then have dec: "decode_payload (rust_str ''getdata'') bs = Inr ?m"
    by (simp add: decode_payload_def decode_getdata_def getdata_message_def rust_str_def decode_inventory_list_Inr_iff and_then_Inr_iff)
  have "block_by_hash c (sample_hash 1) = Some sample_genesis"
    by (rule genesis_chain_result [OF c [unfolded new_genesis_def]])
      (simp add: block_by_hash_def sample_genesis_def sample_hash_block)
  then obtain n' rs' where run: "handle_peer_message sample_env (sample_node c) (with_event_cursor sample_env (event_cursor c)) ?m 5 =
      (Inr (Reply [block_message sample_genesis]), n', rs')"
    by (simp add: handle_peer_message_def getdata_message_def handle_getdata_def ch_get_block_def ch_read_def read_lock_def
        sample_node_def new_lock_def)
  have "is_ok (fst (write_message sample_env P2PTestnet (\<lambda>_. None) (block_message sample_genesis)))"
    using readable_block [OF sample_hash_ok gen] by (simp add: readable_def)
  then obtain w where w: "write_message sample_env P2PTestnet (\<lambda>_. None) (block_message sample_genesis) = (Inr (), w)"
    by (cases "write_message sample_env P2PTestnet (\<lambda>_. None) (block_message sample_genesis)") (auto simp: is_ok_iff)
  have "w \<noteq> []" by (rule write_message_frame [OF sample_hash_ok w]) (simp add: frame_not_empty)
  then have ne: "?w \<noteq> []" by (simp add: w)
  note all = node_speaks_wire [OF sample_hash_ok n dec run, of P2PTestnet]
  have "framed_read_many sample_env P2PTestnet (length (outgoing (Reply [block_message sample_genesis]))) [] (map Data [?w]) =
      Inr (outgoing (Reply [block_message sample_genesis]))"
    using all [THEN conjunct2, rule_format, of "Reply [block_message sample_genesis]" "[?w]" "[]"] ne by simp
  then have "framed_read_many sample_env P2PTestnet 1 [] [Data ?w] = Inr [block_message sample_genesis]"
    by (simp only: outgoing.simps list.map length_Cons list.size One_nat_def)
  then show ?thesis using c dec run all ne by blast
qed

end
