(* ===== verification/Commands.thy ===== *)
theory Commands
  imports Cli Peers
begin

text \<open>
  The rest of the command line: the keys and addresses of \<open>wallet/address.rs\<close> and \<open>secret.rs\<close>, the node of
  \<open>node.rs\<close> with the listener of \<open>peers.rs\<close>, and the dispatch of \<open>mod.rs\<close>, \<open>wallet/mod.rs\<close> and \<open>main.rs\<close>.  What
  the machine and the libraries give - the environment, standard input, the clock, a random key, hexadecimal
  decoding - is the record \<open>host\<close>; a command returns what it prints.
\<close>

section \<open>Keys and addresses\<close>

record host =
  host_clock :: "u64 option"
  host_stdin :: "string option"
  host_env_key :: "string option"
  host_random_key :: bytes
  host_hex_decode :: "string \<Rightarrow> bytes option"
  host_secret_bytes :: "bytes \<Rightarrow> bytes"

text \<open>\<open>str::trim\<close> on strings of ASCII characters.\<close>

definition is_space :: "char \<Rightarrow> bool" where
  "is_space ch \<longleftrightarrow> ch \<in> set [CHR 0x09, CHR 0x0a, CHR 0x0b, CHR 0x0c, CHR 0x0d, CHR '' '']"

definition trim_string :: "string \<Rightarrow> string" where
  "trim_string s = rev (dropWhile is_space (rev (dropWhile is_space s)))"

definition read_private_key_hex_from_stdin :: "host \<Rightarrow> cli_error + string" where
  "read_private_key_hex_from_stdin H = ok_or (CliIo ''stdin'') (host_stdin H)"

definition resolve_private_key_hex :: "host \<Rightarrow> string option \<Rightarrow> bool \<Rightarrow> cli_error + string" where
  "resolve_private_key_hex H argv use_stdin =
     (if use_stdin then read_private_key_hex_from_stdin H
      else
        let from_env = (case host_env_key H of
               None \<Rightarrow> None
             | Some v \<Rightarrow> if trim_string v = [] then None else Some (trim_string v))
        in (case from_env of
              Some key \<Rightarrow> Inr key
            | None \<Rightarrow> ok_or (InvalidInput NoKeySource) argv))"

definition parse_private_key_hex :: "env \<Rightarrow> host \<Rightarrow> string \<Rightarrow> cli_error + bytes" where
  "parse_private_key_hex E H hex_str =
     (case host_hex_decode H (trim_string hex_str) of
        None \<Rightarrow> Inl (InvalidInput KeyNotHex)
      | Some bs \<Rightarrow>
          if length bs \<noteq> 32 then Inl (InvalidInput KeyNot32Bytes)
          else map_err CliWallet (private_key_from_bytes E bs))"

record address_output =
  ao_address :: string
  ao_network :: string
  ao_private_key :: "string option"

definition write_address_output :: "env \<Rightarrow> host \<Rightarrow> network_arg \<Rightarrow> bytes \<Rightarrow> bool \<Rightarrow> address_output" where
  "write_address_output E H n key show_secret =
     \<lparr>ao_address = encoded (address_p2pkh E (key_pubkey_hash E key) (wallet_network n)), ao_network = network_label n,
      ao_private_key = (if show_secret then Some (hex_encode E (host_secret_bytes H key)) else None)\<rparr>"

definition run_new :: "env \<Rightarrow> host \<Rightarrow> network_arg \<Rightarrow> bool \<Rightarrow> cli_error + address_output" where
  "run_new E H n show_secret = Inr (write_address_output E H n (host_random_key H) show_secret)"

definition run_derive :: "env \<Rightarrow> host \<Rightarrow> network_arg \<Rightarrow> string \<Rightarrow> bool \<Rightarrow> cli_error + address_output" where
  "run_derive E H n hex_str show_secret =
     and_then (parse_private_key_hex E H hex_str) (\<lambda>key. Inr (write_address_output E H n key show_secret))"

definition run_derive_from_sources ::
  "env \<Rightarrow> host \<Rightarrow> network_arg \<Rightarrow> string option \<Rightarrow> bool \<Rightarrow> bool \<Rightarrow> cli_error + address_output" where
  "run_derive_from_sources E H n private_key private_key_stdin show_secret =
     and_then (resolve_private_key_hex H private_key private_key_stdin) (\<lambda>s. run_derive E H n s show_secret)"

section \<open>The listener of the peer manager\<close>

record listening_manager =
  lm_manager :: peer_manager
  lm_listener :: bool
  bound_listen_addr :: "socket_addr option"
  lm_accepting :: bool

definition not_listening :: "peer_manager \<Rightarrow> listening_manager" where
  "not_listening m = \<lparr>lm_manager = m, lm_listener = False, bound_listen_addr = None, lm_accepting = False\<rparr>"

definition listen_addr :: "listening_manager \<Rightarrow> socket_addr option" where
  "listen_addr lm = bound_listen_addr lm"

text \<open>\<open>bind\<close> is what binding gives: nothing, or a listener and the address it reports, if it does.\<close>

definition start_listener :: "socket_addr option option \<Rightarrow> listening_manager \<Rightarrow> (net_error + unit) \<times> listening_manager" where
  "start_listener bind lm =
     (case bind of
        None \<Rightarrow> (Inl (Io ''bind listener''), lm)
      | Some local_addr \<Rightarrow> (Inr (), lm\<lparr>bound_listen_addr := local_addr, lm_listener := True\<rparr>))"

definition spawn_acceptor :: "listening_manager \<Rightarrow> listening_manager" where
  "spawn_acceptor lm = (if lm_listener lm then lm\<lparr>lm_listener := False, lm_accepting := True\<rparr> else lm)"

section \<open>The node\<close>

record node_args =
  na_listen :: socket_addr
  na_network :: network_arg
  na_max_inbound :: nat
  na_max_outbound :: nat
  na_seeds :: "socket_addr list"
  na_network_time :: "u32 option"
  no_connect_seeds :: bool

text \<open>The arguments of \<open>bitrst node\<close> without flags.\<close>

definition default_node_args :: node_args where
  "default_node_args =
     \<lparr>na_listen = loopback 8333, na_network = MainnetArg, na_max_inbound = DEFAULT_MAX_INBOUND,
      na_max_outbound = DEFAULT_MAX_OUTBOUND, na_seeds = [], na_network_time = None, no_connect_seeds = False\<rparr>"

record node_run_config =
  rc_listen :: socket_addr
  rc_network :: network_arg
  rc_max_inbound :: nat
  rc_max_outbound :: nat
  rc_seed_strategy :: seed_strategy
  rc_network_time :: u32
  rc_connect_seeds :: bool

definition into_run_config :: "u64 option \<Rightarrow> node_args \<Rightarrow> cli_error + node_run_config" where
  "into_run_config clock args =
     and_then (resolve_network_time clock (na_network_time args)) (\<lambda>nt.
       let strategy = (if na_seeds args = [] then Builtin else Fixed (na_seeds args)) in
       Inr \<lparr>rc_listen = na_listen args, rc_network = na_network args, rc_max_inbound = na_max_inbound args,
            rc_max_outbound = na_max_outbound args, rc_seed_strategy = strategy, rc_network_time = nt,
            rc_connect_seeds = \<not> no_connect_seeds args\<rparr>)"

text \<open>What the network does to a run: binding, connecting, the inputs of the poll loop, joining the tasks.\<close>

record node_io =
  io_bind :: "socket_addr option option"
  io_connects :: "socket_addr \<Rightarrow> bool"
  io_task :: nat
  io_display :: "socket_addr \<times> net_error \<Rightarrow> bytes"
  io_inputs :: "((peer_manager \<Rightarrow> peer_manager) \<times> loop_input) list"
  io_joins :: "nat \<Rightarrow> join_outcome"

definition peer_config :: "node_run_config \<Rightarrow> manager_config" where
  "peer_config cfg =
     \<lparr>mc_network = p2p_network_of (rc_network cfg), mc_listen_addr = rc_listen cfg, max_inbound = rc_max_inbound cfg,
      max_outbound = rc_max_outbound cfg, mc_seeds = rc_seed_strategy cfg\<rparr>"

text \<open>
  \<open>run_with_chain\<close> up to its poll loop.  An early return drops the manager.  Connections the acceptor takes while the
  seeds are tried stay in the queue of registrations until the first poll and belong to its \<open>fill_queues\<close>.
\<close>

definition start_node :: "node_io \<Rightarrow> node_run_config \<Rightarrow> (cli_error + unit) \<times> peer_manager" where
  "start_node io cfg =
     (let stop = (\<lambda>e lm. (Inl e, snd (drop_manager (lm_manager lm)))) in
      case start_listener (io_bind io) (not_listening (new_manager (peer_config cfg))) of
        (Inl e, lm) \<Rightarrow> stop (CliNet e) lm
      | (Inr _, lm) \<Rightarrow>
          (case listen_addr lm of
             None \<Rightarrow> stop (CliIo ''listener did not report bound address'') lm
           | Some listen \<Rightarrow>
               let lm1 = spawn_acceptor lm in
               if rc_connect_seeds cfg then
                 (case connect_seeds_report (io_connects io) (io_task io) (lm_manager lm1) of
                    (report, m) \<Rightarrow>
                      if report_connected report = None \<and> report_failures report \<noteq> [] then
                        (case into_result (io_display io) report of
                           Inl e \<Rightarrow> stop (CliNet e) (lm1\<lparr>lm_manager := m\<rparr>)
                         | Inr _ \<Rightarrow> (Inr (), m))
                      else (Inr (), m))
               else (Inr (), lm_manager lm1)))"

text \<open>\<open>Inr False\<close>: the inputs are used up and the node goes on.\<close>

definition run_with_chain :: "node_io \<Rightarrow> node_run_config \<Rightarrow> (cli_error + bool) \<times> peer_manager" where
  "run_with_chain io cfg =
     (case start_node io cfg of
        (Inl e, m) \<Rightarrow> (Inl e, m)
      | (Inr _, m) \<Rightarrow>
          (case run_poll_loop (io_inputs io) m of
             (Inr False, m1) \<Rightarrow> (Inr False, m1)
           | (poll_result, m1) \<Rightarrow>
               (case shutdown (io_joins io) m1 of
                  (Inl e, m2) \<Rightarrow> (Inl (CliNet e), m2)
                | (Inr _, m2) \<Rightarrow> (map_err CliNet poll_result, m2))))"

definition run_node :: "env \<Rightarrow> node_io \<Rightarrow> node_run_config \<Rightarrow> (cli_error + bool)" where
  "run_node E io cfg =
     and_then (ephemeral_chain E (max (rc_network_time cfg) GENESIS_TIME) DEFAULT_BITS) (\<lambda>_.
       fst (run_with_chain io cfg))"

section \<open>Dispatch\<close>

datatype wallet_command =
    WalletNew bool
  | WalletAddress "string option" bool bool
  | WalletBalance string "u32 option"

datatype command_arg =
    CmdTip "u32 option"
  | CmdMine mine_args
  | CmdWallet network_arg wallet_command
  | CmdNode node_args

text \<open>What a command prints on its standard output.\<close>

datatype printed =
    PrintedTip string
  | PrintedBlocks "mined_block_info list"
  | PrintedAddress address_output
  | PrintedBalance string string u64
  | PrintedNothing

definition run_wallet :: "env \<Rightarrow> host \<Rightarrow> network_arg \<Rightarrow> wallet_command \<Rightarrow> cli_error + printed" where
  "run_wallet E H n cmd =
     (case cmd of
        WalletNew show_secret \<Rightarrow> and_then (run_new E H n show_secret) (\<lambda>a. Inr (PrintedAddress a))
      | WalletAddress private_key private_key_stdin show_secret \<Rightarrow>
          and_then (run_derive_from_sources E H n private_key private_key_stdin show_secret) (\<lambda>a. Inr (PrintedAddress a))
      | WalletBalance s explicit \<Rightarrow>
          and_then (run_balance E (host_clock H) n s explicit) (\<lambda>(a, v). Inr (PrintedBalance a (network_label n) v)))"

definition run_parsed :: "env \<Rightarrow> host \<Rightarrow> node_io \<Rightarrow> command_arg \<Rightarrow> cli_error + printed" where
  "run_parsed E H io cmd =
     (case cmd of
        CmdTip explicit \<Rightarrow> and_then (run_tip E (host_clock H) explicit) (\<lambda>s. Inr (PrintedTip s))
      | CmdMine args \<Rightarrow> and_then (run_mine E (host_clock H) args) (\<lambda>(infos, _). Inr (PrintedBlocks infos))
      | CmdWallet n wcmd \<Rightarrow> run_wallet E H n wcmd
      | CmdNode args \<Rightarrow>
          and_then (into_run_config (host_clock H) args) (\<lambda>cfg.
          and_then (run_node E io cfg) (\<lambda>_. Inr PrintedNothing)))"

text \<open>The exit code of \<open>main\<close>; \<open>parse\<close> is the argument parser.\<close>

definition run_from :: "env \<Rightarrow> host \<Rightarrow> node_io \<Rightarrow> (string list \<Rightarrow> cli_error + command_arg) \<Rightarrow> string list \<Rightarrow> cli_error + printed" where
  "run_from E H io parse argv = and_then (parse argv) (run_parsed E H io)"

definition exit_code :: "cli_error + printed \<Rightarrow> nat" where
  "exit_code r = (case r of Inr _ \<Rightarrow> 0 | Inl _ \<Rightarrow> 1)"

end
