(* ===== verification/CommandsTheorems.thy ===== *)
theory CommandsTheorems
  imports Commands CliTheorems PeersTheorems WireNode
begin

text \<open>
  What the commands guarantee: which seed a node ends up with, what is left of a node that has ended, that a
  printed address is accepted again, and that the node starts with data its peers can read.
\<close>

section \<open>Seeds\<close>

text \<open>The manager a node starts with.\<close>

abbreviation fresh_manager :: "node_run_config \<Rightarrow> peer_manager" where
  "fresh_manager cfg \<equiv> new_manager (peer_config cfg)"

definition refused_seed :: "node_io \<Rightarrow> node_run_config \<Rightarrow> socket_addr \<Rightarrow> bool" where
  "refused_seed io cfg addr \<longleftrightarrow> rc_max_outbound cfg = 0 \<or> \<not> io_connects io addr"

definition seed_error :: "node_run_config \<Rightarrow> net_error" where
  "seed_error cfg = (if rc_max_outbound cfg = 0 then ConnectionLimitReached else Io ''connect'')"

definition with_seed :: "node_io \<Rightarrow> node_run_config \<Rightarrow> socket_addr \<Rightarrow> peer_manager" where
  "with_seed io cfg addr = (insert_peer addr Outbound (io_task io) (fresh_manager cfg))\<lparr>outbound_count := 1\<rparr>"

lemma fresh_connect_seed:
  "connect_seed (io_connects io addr) (io_task io) addr (fresh_manager cfg) =
     (if refused_seed io cfg addr then (Inl (seed_error cfg), fresh_manager cfg) else (Inr (), with_seed io cfg addr))"
  by (auto simp: connect_seed_def refused_seed_def seed_error_def with_seed_def new_manager_def peer_config_def insert_peer_def Let_def)

lemma dropWhile_some: "dropWhile P xs = y # ys \<Longrightarrow> \<exists>x\<in>set xs. \<not> P x"
  by (induction xs) (auto split: if_splits)

lemma fresh_seeds_loop:
  "connect_seeds_loop (io_connects io) (io_task io) seeds failures (fresh_manager cfg) =
     (case dropWhile (refused_seed io cfg) seeds of
        [] \<Rightarrow> (\<lparr>report_connected = None, report_failures = failures @ map (\<lambda>a. (a, seed_error cfg)) seeds\<rparr>, fresh_manager cfg)
      | addr # _ \<Rightarrow>
          (\<lparr>report_connected = Some addr,
            report_failures = failures @ map (\<lambda>a. (a, seed_error cfg)) (takeWhile (refused_seed io cfg) seeds)\<rparr>, with_seed io cfg addr))"
  by (induction seeds arbitrary: failures) (auto simp: fresh_connect_seed split: list.split dest!: dropWhile_some)

lemma fresh_report:
  "connect_seeds_report (io_connects io) (io_task io) (fresh_manager cfg) =
     connect_seeds_loop (io_connects io) (io_task io) (addresses (rc_seed_strategy cfg) (p2p_network_of (rc_network cfg))) []
       (fresh_manager cfg)"
  by (simp add: connect_seeds_report_def new_manager_def peer_config_def)

text \<open>
  C30. Start-up of a node that can bind its address: with seeds to try, they are tried in their order, and the
  first that is not refused becomes the one outbound peer, still handshaking; if all are refused - always so
  when the outbound maximum is zero - the node stops with the list of failures and without a peer.
  The seeds built in for the main network begin with the address \<open>bitrst node\<close> listens on by default: started
  without flags, it connects to itself and to no other seed.
\<close>

theorem node_startup:
  fixes io cfg
  defines "seeds \<equiv> addresses (rc_seed_strategy cfg) (p2p_network_of (rc_network cfg))"
  assumes "io_bind io = Some (Some local_addr)"
  shows "start_node io cfg =
      (if \<not> rc_connect_seeds cfg \<or> seeds = [] then (Inr (), fresh_manager cfg)
       else case dropWhile (refused_seed io cfg) seeds of
              addr # _ \<Rightarrow> (Inr (), with_seed io cfg addr)
            | [] \<Rightarrow> (Inl (CliNet (SeedsExhausted (length seeds)
                       (format_seed_failures (io_display io) (map (\<lambda>a. (a, seed_error cfg)) seeds)))),
                     (fresh_manager cfg)\<lparr>shutting_down := True\<rparr>)) \<and>
    (into_run_config clock default_node_args = Inr cfg \<and> io_connects io (rc_listen cfg) \<longrightarrow>
       start_node io cfg = (Inr (), with_seed io cfg (rc_listen cfg)))"
proof -
  have start: "start_node io cfg =
      (if \<not> rc_connect_seeds cfg \<or> seeds = [] then (Inr (), fresh_manager cfg)
       else case dropWhile (refused_seed io cfg) seeds of
              addr # _ \<Rightarrow> (Inr (), with_seed io cfg addr)
            | [] \<Rightarrow> (Inl (CliNet (SeedsExhausted (length seeds)
                       (format_seed_failures (io_display io) (map (\<lambda>a. (a, seed_error cfg)) seeds)))),
                     (fresh_manager cfg)\<lparr>shutting_down := True\<rparr>))"
    using assms(2)
    by (auto simp: start_node_def start_listener_def listen_addr_def spawn_acceptor_def not_listening_def Let_def fresh_report
        fresh_seeds_loop into_result_def seeds_def [symmetric] drop_manager_def split: list.splits
        dest!: dropWhile_some)
      (simp_all add: new_manager_def)
  moreover have "start_node io cfg = (Inr (), with_seed io cfg (rc_listen cfg))"
    if "into_run_config clock default_node_args = Inr cfg" "io_connects io (rc_listen cfg)"
  proof -
    have "seeds = [loopback 8333, loopback 18333]" "rc_connect_seeds cfg" "rc_listen cfg = loopback 8333" "rc_max_outbound cfg = 8"
      using that(1) by (auto simp: seeds_def into_run_config_def default_node_args_def result_iffs Let_def addresses_def
          builtin_seeds_def p2p_network_of_def DEFAULT_MAX_OUTBOUND_def)
    then show ?thesis unfolding start using that(2) by (simp add: refused_seed_def)
  qed
  ultimately show ?thesis by blast
qed

definition sample_io :: node_io where
  "sample_io = \<lparr>io_bind = Some (Some (loopback 8333)), io_connects = (\<lambda>a. a = loopback 8333), io_task = 1,
     io_display = (\<lambda>_. []), io_inputs = [], io_joins = (\<lambda>_. Joined)\<rparr>"

theorem node_startup_witness:
  "\<exists>cfg m. into_run_config (Some 1700000000) default_node_args = Inr cfg \<and> start_node sample_io cfg = (Inr (), m) \<and>
     pm_peers m = [(loopback 8333, \<lparr>pe_task = 1, pe_direction = Outbound, pe_state = Handshaking\<rparr>)] \<and>
     rc_listen cfg = loopback 8333"
proof -
  obtain cfg where cfg: "into_run_config (Some 1700000000) default_node_args = Inr cfg" "rc_listen cfg = loopback 8333"
    by (simp add: into_run_config_def default_node_args_def resolve_network_time_def current_unix_time_def Let_def)
  have "io_bind sample_io = Some (Some (loopback 8333))" "io_connects sample_io (rc_listen cfg)"
    by (simp_all add: sample_io_def cfg(2))
  then have "start_node sample_io cfg = (Inr (), with_seed sample_io cfg (loopback 8333))"
    using node_startup [of sample_io "loopback 8333" cfg "Some 1700000000", THEN conjunct2] cfg by metis
  then show ?thesis
    using cfg by (intro exI [of _ cfg] exI [of _ "with_seed sample_io cfg (loopback 8333)"])
      (simp add: with_seed_def insert_peer_def new_manager_def sample_io_def)
qed

section \<open>The end of a node\<close>

lemma poll_events_open: "poll_events closed k evs m = (r, sent, m') \<Longrightarrow> shutting_down m' = shutting_down m"
proof (induction evs arbitrary: k m r sent)
  case (Cons ev evs)
  obtain r1 s1 m1 where h: "handle_event (closed k) ev (m\<lparr>event_queue := evs\<rparr>) = (r1, s1, m1)" by (metis prod_cases3)
  have "shutting_down m1 = shutting_down m"
    using h by (auto simp: handle_event_def Let_def split: peer_event.splits option.splits prod.splits if_splits)
  then show ?case using Cons h by (auto split: sum.splits prod.splits)
qed auto

lemma process_registrations_open: "shutting_down (process_registrations m) = shutting_down m"
proof -
  have "shutting_down (foldl (\<lambda>m reg. process_registration reg m) m regs) = shutting_down m" for m regs
    by (induction regs arbitrary: m)
      (simp_all add: process_registration_def try_send_event_def insert_peer_def Let_def)
  then show ?thesis by (simp add: process_registrations_def)
qed

lemma run_poll_loop_open:
  "run_poll_loop ins m = (r, m') \<Longrightarrow> \<forall>(fill, i)\<in>set ins. \<forall>m. shutting_down (fill m) = shutting_down m \<Longrightarrow>
     shutting_down m' = shutting_down m"
proof (induction ins arbitrary: m)
  case (Cons x ins)
  obtain fill i where x: "x = (fill, i)" by fastforce
  have fill: "shutting_down (fill m) = shutting_down m" using Cons.prems(2) x by auto
  show ?case
  proof (cases i)
    case (Tick closed)
    obtain r1 s1 m1 where p: "poll closed (fill m) = (r1, s1, m1)" by (metis prod_cases3)
    have "shutting_down m1 = shutting_down m"
      using poll_events_open p fill by (force simp: poll_def Let_def process_registrations_open)
    then show ?thesis using Cons x Tick p by (cases r1) auto
  qed (use Cons.prems x fill in auto)
qed simp

text \<open>
  However a node ends - no listener, no seed, the shutdown signal, an error of the poll loop, a task that
  cannot be joined - it has no peers left and its acceptor is told to stop, provided that the tasks between the polls
  touch nothing but the queues.  An error of the last shutdown takes the place of the poll loop's.
\<close>

theorem node_ends_clean:
  assumes "run_with_chain io cfg = (r, m)" and "r \<noteq> Inr False"
    and "\<forall>(fill, i)\<in>set (io_inputs io). \<forall>m. shutting_down (fill m) = shutting_down m"
  shows "shutting_down m \<and> pm_peers m = []"
proof (cases "start_node io cfg")
  case (Pair s m0)
  have stop: "shutting_down (snd (drop_manager m)) \<and> pm_peers (snd (drop_manager m)) = []" if "\<not> shutting_down m" for m
    using that by (simp add: drop_manager_def)
  have new: "\<not> shutting_down (fresh_manager cfg)" by (simp add: new_manager_def)
  have seeds: "\<not> shutting_down m" if "connect_seeds_report (io_connects io) (io_task io) (fresh_manager cfg) = (rep, m)" for rep m
    using that unfolding fresh_report fresh_seeds_loop
    by (auto simp: new with_seed_def insert_peer_def split: list.splits)
  have start: "(\<exists>e. s = Inl e) \<longrightarrow> shutting_down m0 \<and> pm_peers m0 = []" "s = Inr () \<longrightarrow> \<not> shutting_down m0"
    using Pair stop new seeds
    by (auto simp: start_node_def start_listener_def listen_addr_def spawn_acceptor_def not_listening_def Let_def
        split: option.splits prod.splits sum.splits if_splits)
  show ?thesis
  proof (cases s)
    case (Inl e)
    then show ?thesis using assms(1) Pair start(1) by (simp add: run_with_chain_def)
  next
    case (Inr u)
    obtain p m1 where loop: "run_poll_loop (io_inputs io) m0 = (p, m1)" by fastforce
    have m1: "\<not> shutting_down m1" using run_poll_loop_open [OF loop assms(3)] start(2) Inr by simp
    have "p \<noteq> Inr False" using assms(1,2) Pair Inr loop by (auto simp: run_with_chain_def)
    obtain j m2 where sh: "shutdown (io_joins io) m1 = (j, m2)" by fastforce
    have "shutting_down m2 \<and> pm_peers m2 = []"
      using sh m1 by (auto simp: shutdown_def Let_def split: sum.splits)
    moreover have "m = m2"
      using assms(1) Pair Inr loop sh \<open>p \<noteq> Inr False\<close>
      by (cases j; cases p) (auto simp: run_with_chain_def split: bool.splits)
    ultimately show ?thesis by simp
  qed
qed

section \<open>Printed addresses\<close>

text \<open>
  The address that \<open>wallet address\<close> derives from a key is accepted by \<open>wallet balance\<close> on the same network, where
  it stands for the hash of the key, and refused on the other; without the flag the key is not printed.
\<close>

theorem derived_address_accepted:
  assumes "hash_ok E" and "base58_ok E"
    and run: "run_derive_from_sources E H n private_key use_stdin show_secret = Inr out"
  shows "\<exists>s key. resolve_private_key_hex H private_key use_stdin = Inr s \<and> parse_private_key_hex E H s = Inr key \<and>
     parse_address E (ao_address out) n = Inr (address_p2pkh E (key_pubkey_hash E key) (wallet_network n)) \<and>
     (\<forall>n'. n' \<noteq> n \<longrightarrow> parse_address E (ao_address out) n' = Inl (AddressNetworkMismatch (network_label n'))) \<and>
     (ao_private_key out = None \<longleftrightarrow> \<not> show_secret)"
proof -
  have ver: "p2pkh_version (wallet_network m) = arg_p2pkh_version m" for m
    by (cases m) (simp_all add: p2pkh_version_def wallet_network_def arg_p2pkh_version_def)
  have other: "arg_p2pkh_version m \<noteq> arg_p2pkh_version n" if "m \<noteq> n" for m
    using that by (cases m; cases n) (simp_all add: arg_p2pkh_version_def)
  have len: "length (key_pubkey_hash E key) = 20" for key
    using length_hash160 [OF assms(1)] by (simp add: key_pubkey_hash_def)
  obtain s key where key: "resolve_private_key_hex H private_key use_stdin = Inr s" "parse_private_key_hex E H s = Inr key"
    and out: "out = write_address_output E H n key show_secret"
    using run unfolding run_derive_from_sources_def run_derive_def and_then_Inr_iff by blast
  have printed: "decode_check E (ao_address out) = Inr (arg_p2pkh_version n, key_pubkey_hash E key)"
    by (simp add: out write_address_output_def address_p2pkh_def decode_encode_check [OF assms(2)] ver)
  have "parse_address E (ao_address out) n = Inr (address_p2pkh E (key_pubkey_hash E key) (wallet_network n))"
    by (simp add: parse_address_def printed len)
  moreover have "parse_address E (ao_address out) n' = Inl (AddressNetworkMismatch (network_label n'))" if "n' \<noteq> n" for n'
    using other [OF that] by (simp add: parse_address_def printed)
  moreover have "ao_private_key out = None \<longleftrightarrow> \<not> show_secret" by (simp add: out write_address_output_def)
  ultimately show ?thesis using key by (intro exI [of _ s] exI [of _ key]) simp
qed

end
