(* ===== verification/Spec2Isabelle.thy ===== *)
theory Spec2Isabelle
  imports Crypto Script Sighash Events FileStore ChainTheorems MempoolTheorems WalletTheorems Miner FramingTheorems Handshake InboundCapacity
    PeerTheorems PeersTheorems CliTheorems WireNode CommandsTheorems
begin

text \<open>
  A verification library for \<^verbatim>\<open>bitrst\<close>, a Bitcoin node, miner and wallet in Rust.  It translates the crates
  under \<^verbatim>\<open>src/crates\<close> and the commands of \<^verbatim>\<open>src/src/cli\<close> into executable definitions and proves
  what makes them correct.

  \<^bold>\<open>The program.\<close>  A \<^verbatim>\<open>Chain\<close> (\<^verbatim>\<open>bitrst-core/src/chain.rs\<close>) keeps the active chain, an index of every valid block
  it has seen, the unspent outputs of the active chain, a pool of orphans and two journals of what has
  happened.  Blocks arrive from peers or from the miner; a block is stored, indexed on a side chain, or extends
  or reorganises the active chain.  A memory pool (\<^verbatim>\<open>mempool.rs\<close>) admits unconfirmed transactions against the
  unspent outputs and is brought up to date from the journal.  A wallet (\<^verbatim>\<open>bitrst-wallet\<close>) follows the same
  events.  A node (\<^verbatim>\<open>bitrst-net\<close>) shares chain and pool between one task per connection: messages are framed,
  checked and decoded, the version handshake is completed, then each message is handled by the relay, and
  a peer manager passes announcements on to the other peers.

  \<^bold>\<open>Theories and code.\<close>
  \<^item> \<^verbatim>\<open>Prelude\<close>: Rust's integer types as words, \<^verbatim>\<open>Result\<close> as a sum type with its combinators, checked, saturating and
    wrapping arithmetic, little-endian byte strings, and the lemmas on them that all others use.
  \<^item> \<^verbatim>\<open>Crypto\<close> (\<^verbatim>\<open>bitrst-crypto\<close>): hashes, Base58Check and DER signatures over the third-party primitives, which are
    the fields of the record \<^verbatim>\<open>env\<close>; \<^verbatim>\<open>hash_ok\<close>, \<^verbatim>\<open>base58_ok\<close>, \<^verbatim>\<open>hex_ok\<close> and \<^verbatim>\<open>ecdsa_ok\<close> state what is relied on, and
    \<^verbatim>\<open>toy_env\<close> satisfies all of them.
  \<^item> \<^verbatim>\<open>U256\<close>, \<^verbatim>\<open>Pow\<close>, \<^verbatim>\<open>Difficulty\<close> (\<^verbatim>\<open>uint256.rs\<close>, \<^verbatim>\<open>pow.rs\<close>, \<^verbatim>\<open>difficulty.rs\<close>): 256-bit arithmetic on byte arrays, compact
    targets, work and retargeting, each against the natural number it represents.
  \<^item> \<^verbatim>\<open>Wire\<close>, \<^verbatim>\<open>Transaction\<close>, \<^verbatim>\<open>Block\<close>, \<^verbatim>\<open>Merkle\<close> (\<^verbatim>\<open>wire.rs\<close>, \<^verbatim>\<open>transaction.rs\<close>, \<^verbatim>\<open>block.rs\<close>, \<^verbatim>\<open>merkle.rs\<close>, \<^verbatim>\<open>limits.rs\<close>): the reader, the wire
    formats with every limit, ids, and the Merkle root with the hash tree it computes.
  \<^item> \<^verbatim>\<open>Sighash\<close>, \<^verbatim>\<open>Script\<close> (\<^verbatim>\<open>sighash.rs\<close>, \<^verbatim>\<open>bitrst-script\<close>): the bytes a signature commits to, and the interpreter.
  \<^item> \<^verbatim>\<open>Utxo\<close> (\<^verbatim>\<open>utxo.rs\<close>), \<^verbatim>\<open>Events\<close> (both journals, with the locale \<^verbatim>\<open>ring\<close> interpreted for each), \<^verbatim>\<open>Store\<close> (\<^verbatim>\<open>store.rs\<close>:
    the interface as the locale \<^verbatim>\<open>block_store\<close>, the memory store) and \<^verbatim>\<open>FileStore\<close> (\<^verbatim>\<open>store/disk.rs\<close>: the store on disk, as
    a sequence of file operations any of which may be refused or cut short, over a file system whose crashes lose
    what has not been synced).
  \<^item> \<^verbatim>\<open>BlockRules\<close>, \<^verbatim>\<open>Chain\<close> (\<^verbatim>\<open>chain.rs\<close>, \<^verbatim>\<open>time.rs\<close>): validation and every operation of the chain.  \<^verbatim>\<open>ChainInv\<close> holds its
    invariant and what each step keeps, \<^verbatim>\<open>ChainProps\<close> reachable chains, termination and the most-work rule,
    \<^verbatim>\<open>BlockFacts\<close> what validation accepts and undo gives back, \<^verbatim>\<open>ChainLedger\<close> the unspent set against the replay of the
    active blocks (the locale \<^verbatim>\<open>ledger_relation\<close>, interpreted for containment and for equality),
    \<^verbatim>\<open>Samples\<close> a concrete chain of two blocks, and \<^verbatim>\<open>ChainTheorems\<close> the properties.
  \<^item> \<^verbatim>\<open>Mempool\<close>, \<^verbatim>\<open>MempoolInv\<close>, \<^verbatim>\<open>Eviction\<close>, \<^verbatim>\<open>MempoolTheorems\<close> (\<^verbatim>\<open>mempool.rs\<close>): the pool, its invariant, what making room
    for a candidate drops (as a relation on pools, independent of the code's loops), and its properties.
  \<^item> \<^verbatim>\<open>Wallet\<close>, \<^verbatim>\<open>WalletTheorems\<close> (\<^verbatim>\<open>bitrst-wallet\<close>) and \<^verbatim>\<open>Miner\<close> (\<^verbatim>\<open>bitrst-miner\<close>).
  \<^item> \<^verbatim>\<open>NetTypes\<close>, \<^verbatim>\<open>Codec\<close>, \<^verbatim>\<open>Framing\<close>, \<^verbatim>\<open>FramingTheorems\<close> (\<^verbatim>\<open>constants.rs\<close>, \<^verbatim>\<open>error.rs\<close>, \<^verbatim>\<open>message.rs\<close>, \<^verbatim>\<open>codec\<close>, \<^verbatim>\<open>envelope.rs\<close>,
    \<^verbatim>\<open>framing.rs\<close>): messages, their payloads, and streams of them cut into arbitrary chunks.
  \<^item> \<^verbatim>\<open>Handshake\<close> (\<^verbatim>\<open>handshake.rs\<close>): the state machine of one side and the step relation of a connection's two sides.
  \<^item> \<^verbatim>\<open>InboundCapacity\<close> (\<^verbatim>\<open>inbound_capacity.rs\<close>): the atomic counter under every interleaving of its users.
  \<^item> \<^verbatim>\<open>Handles\<close> (\<^verbatim>\<open>chain_handle.rs\<close>, \<^verbatim>\<open>mempool_handle.rs\<close>): the locks, with the locale \<^verbatim>\<open>guarded\<close> interpreted for both;
    \<^verbatim>\<open>Relay\<close>, \<^verbatim>\<open>RelayTheorems\<close> (\<^verbatim>\<open>relay.rs\<close>): the message handlers, and the locale \<^verbatim>\<open>request_tracker\<close> interpreted for the two
    trackers; \<^verbatim>\<open>NodeTheorems\<close>: chain and pool of a node under every sequence of the handles' operations.
  \<^item> \<^verbatim>\<open>Contents\<close>: the locale \<^verbatim>\<open>content\<close>, what every block and transaction in chain and pool satisfies when all that enter
    do; \<^verbatim>\<open>WireNode\<close> interprets it for the limits of the decoders and joins relay and framing.
  \<^item> \<^verbatim>\<open>Peer\<close>, \<^verbatim>\<open>PeerTheorems\<close> (\<^verbatim>\<open>peer.rs\<close>): the task of one connection over the inputs it awaits; \<^verbatim>\<open>Peers\<close>,
    \<^verbatim>\<open>PeersTheorems\<close> (\<^verbatim>\<open>peers.rs\<close>, \<^verbatim>\<open>seeds.rs\<close>, \<^verbatim>\<open>node.rs\<close>): the peer manager.
  \<^item> \<^verbatim>\<open>Cli\<close>, \<^verbatim>\<open>CliTheorems\<close> (\<^verbatim>\<open>src/cli\<close>: \<^verbatim>\<open>args.rs\<close>, \<^verbatim>\<open>chain.rs\<close>, \<^verbatim>\<open>error.rs\<close>, \<^verbatim>\<open>mine.rs\<close>, \<^verbatim>\<open>tip.rs\<close>,
    \<^verbatim>\<open>wallet/balance.rs\<close>): the commands on a chain in memory; \<^verbatim>\<open>Commands\<close>,
    \<^verbatim>\<open>CommandsTheorems\<close> (\<^verbatim>\<open>node.rs\<close>, \<^verbatim>\<open>secret.rs\<close>, \<^verbatim>\<open>wallet/address.rs\<close>,
    \<^verbatim>\<open>mod.rs\<close>, \<^verbatim>\<open>main.rs\<close>, the listener of \<^verbatim>\<open>peers.rs\<close>): keys and addresses, the run of a node, the dispatch.

  \<^bold>\<open>Conventions.\<close>  Structs are records, enums datatypes, \<^verbatim>\<open>u32\<close> and \<^verbatim>\<open>u64\<close> words, \<^verbatim>\<open>usize\<close> a natural number, \<^verbatim>\<open>[u8; 32]\<close> a
  byte list whose length is part of the invariants; arithmetic wraps as in a release build.  An operation
  that can fail after it has changed its state returns the result together with the state it leaves.  A hash map
  is a map, or an association list where the code iterates over it; iteration then follows insertion, one of
  the orders the code may see.  A panic is the error \<^verbatim>\<open>IndexPanic\<close>; a loop that would need more turns than it is given
  is \<^verbatim>\<open>OutOfFuel\<close>, \<^verbatim>\<open>PoolOutOfFuel\<close> or \<^verbatim>\<open>None\<close>.  The fuel is the size of what each turn consumes - the
  orphan pool for the orphan queue, the active chain for disconnections, the index for fork paths, the entries of
  the pool plus one for revalidation - and the termination properties show that it never runs out.

  \<^bold>\<open>What is shown.\<close>  For the chain: the invariant of every reachable state, the most-work rule, the unspent set
  contained in the replay of the active blocks across reorganisations (and equal to it when no branch overwrites an
  unspent output), no inflation, the outcomes of connecting a block, the end of the orphan queue and the bound of
  the orphan pool.  For the pool: its invariant and limits, what admission means, what it evicts and whether the
  pool is valid afterwards, the exact effect of a confirmed block, the end of synchronisation, after which the pool is
  valid if what has to be restored had room.  For the data: round trips and exact acceptance of every
  wire format, what undoing a transaction gives back, Merkle roots, compact targets and retargeting against
  arithmetic, and work for the targets whose long division stays within \<^verbatim>\<open>u8\<close>.  For scripts and signatures: what P2PKH
  accepts and what a signature commits to.  For storage and events: the file store survives crashes that lose all
  that was not synced (the entry of its own directory in the parent is taken to be durable), exactly-once delivery
  or a reported lag, exact recovery or refusal.  For the wallet: following the active blocks it holds the watched outputs
  of their replay, and what it signs unlocks.  For the node: framing round trips up to the close, handshake
  completion, who becomes ready, bounded slots and requests, that no message takes the shared state out of what
  the two components guarantee, that the pool has followed the chain when a block is announced (with or without
  disconnections, by events or by resynchronisation), and that all it sends its peers can
  decode.  For the commands: the chain \<^verbatim>\<open>bitrst mine\<close> builds and reports, the seed a node starts with, the state it
  leaves when it ends, and that a printed address is accepted again.

  Several properties are or contain flaws of the code stated as they are: an admission that evicts an ancestor of the
  transaction it admits (\<^verbatim>\<open>accept_tx_may_evict_parent\<close> is an instance), the children of confirmed transactions that are
  dropped though still valid, overwritten outputs that undo does not bring back, the slot an
  overwritten entry keeps (the outbound counter is only an upper bound), the fourteenth block that \<^verbatim>\<open>mine\<close> can never
  connect, the node that ends when it relays to a peer whose task has just ended, and the node that connects to
  itself; \<^verbatim>\<open>U256.work_from_target_wrong\<close> is a target whose work a release build gets wrong.

  \<^bold>\<open>Not modelled.\<close>  The third-party primitives behind \<^verbatim>\<open>env\<close>; random numbers and clocks (arguments); sockets, channels and
  the scheduler beyond the outcomes they give to the operations that use them, so within one message the
  calls to the two handles are not interleaved with other tasks - the invariants of \<^verbatim>\<open>NodeTheorems\<close> are over single
  calls and do not depend on it; what \<^verbatim>\<open>PrivateKey::generate\<close> draws (an argument) and accessors; of the command line the
  parsing of arguments by clap (\<^verbatim>\<open>run_from\<close> takes the parser as an argument), Unicode white space in \<^verbatim>\<open>trim\<close>, the signals of
  \<^verbatim>\<open>shutdown.rs\<close>, the \<^verbatim>\<open>listener_ready\<close> hook of the tests, and printing beyond the values a command
  returns; tests, benches and re-exports.
\<close>

end
